(* ===== verification/Xv6_Prelude.thy ===== *)
theory Xv6_Prelude
  imports Main "HOL-Library.Word"
begin

text \<open>
  Shared vocabulary of the development: the machine integers of the kernel, the result type
  of a kernel function (a value, or the reason why it does not return), the
  "first index that satisfies" search that most table scans of the kernel are, and the
  lemmas on lists that every component uses.
\<close>

section \<open>Machine integers\<close>

type_synonym u8 = "8 word"
type_synonym u16 = "16 word"
type_synonym u32 = "32 word"
type_synonym u64 = "64 word"

text \<open>
  A C \<open>int\<close> is a mathematical integer kept in the 32-bit two's complement range;
  \<open>c_int\<close> is the conversion of any integer into that range.
\<close>

definition c_int :: "int \<Rightarrow> int" where
  "c_int x = signed_take_bit 31 x"

lemma c_int_id [simp]: "- (2 ^ 31) \<le> x \<Longrightarrow> x < 2 ^ 31 \<Longrightarrow> c_int x = x"
  unfolding c_int_def by (rule signed_take_bit_int_eq_self) simp_all

lemma c_int_range: "- (2 ^ 31) \<le> c_int x \<and> c_int x < 2 ^ 31"
  unfolding c_int_def
  using signed_take_bit_int_greater_eq_minus_exp [of 31 x] signed_take_bit_int_less_exp [of 31 x]
  by simp

text \<open>The conversion of a \<open>uint\<close> to \<open>int\<close>.\<close>

definition int_of_uint :: "u32 \<Rightarrow> int" where
  "int_of_uint w = c_int (uint w)"

lemma int_of_uint_small: "uint w < 2 ^ 31 \<Longrightarrow> int_of_uint w = uint w"
  unfolding int_of_uint_def using uint_ge_0 [of w] by (intro c_int_id) linarith+

lemma unat_of_nat_small: "n < 2 ^ LENGTH('a) \<Longrightarrow> unat (of_nat n :: 'a::len word) = n"
  by (simp add: unat_of_nat)


section \<open>Results of kernel functions\<close>

text \<open>
  \<open>panic(msg)\<close> stops the machine; a \<open>sleep\<close> with nobody left to wake the caller never
  returns; a loop whose bound is used up has not returned either. Each is an error value,
  so that "the function returns" is a statement of its own. \<open>Fault\<close> is an access through
  a null pointer or past the end of an array, undefined in C.
\<close>

datatype kerr = Panic string | Blocked | Fault | OutOfFuel

type_synonym 'a res = "kerr + 'a"

definition rbind :: "'a res \<Rightarrow> ('a \<Rightarrow> 'b res) \<Rightarrow> 'b res" where
  "rbind m f = (case m of Inl e \<Rightarrow> Inl e | Inr x \<Rightarrow> f x)"

lemma rbind_simps [simp]:
  "rbind (Inl e) f = Inl e"
  "rbind (Inr x) f = f x"
  by (simp_all add: rbind_def)

lemma rbind_Inr_iff: "rbind m f = Inr y \<longleftrightarrow> (\<exists>x. m = Inr x \<and> f x = Inr y)"
  by (cases m) auto

lemma rbind_InrE:
  assumes "rbind m f = Inr y"
  obtains x where "m = Inr x" and "f x = Inr y"
  using assms by (cases m) auto

lemma rbind_assoc: "rbind (rbind m f) g = rbind m (\<lambda>x. rbind (f x) g)"
  by (cases m) auto

text \<open>A check of the code that panics when its condition holds.\<close>

definition panic_if :: "bool \<Rightarrow> string \<Rightarrow> 'a res \<Rightarrow> 'a res" where
  "panic_if c msg k = (if c then Inl (Panic msg) else k)"

lemma panic_if_simps [simp]:
  "panic_if True msg k = Inl (Panic msg)"
  "panic_if False msg k = k"
  by (simp_all add: panic_if_def)

text \<open>The value of a search that ran on fuel.\<close>

definition fuelled :: "'a option \<Rightarrow> 'a res" where
  "fuelled m = (case m of None \<Rightarrow> Inl OutOfFuel | Some x \<Rightarrow> Inr x)"

lemma fuelled_simps [simp]:
  "fuelled None = Inl OutOfFuel"
  "fuelled (Some x) = Inr x"
  by (simp_all add: fuelled_def)


section \<open>Table scans\<close>

text \<open>\<open>for (i = 0; i < N; i++) if (P (t[i])) { ...; break; }\<close>: the first index that satisfies P.\<close>

fun find_idx :: "('a \<Rightarrow> bool) \<Rightarrow> 'a list \<Rightarrow> nat option" where
  "find_idx P [] = None"
| "find_idx P (x # xs) = (if P x then Some 0 else map_option Suc (find_idx P xs))"

lemma find_idx_None_iff: "find_idx P xs = None \<longleftrightarrow> (\<forall>x \<in> set xs. \<not> P x)"
  by (induction xs) auto

lemma find_idx_Some_iff:
  "find_idx P xs = Some i \<longleftrightarrow> i < length xs \<and> P (xs ! i) \<and> (\<forall>j < i. \<not> P (xs ! j))"
proof (induction xs arbitrary: i)
  case Nil
  then show ?case by simp
next
  case (Cons x xs)
  show ?case
  proof (cases i)
    case 0
    then show ?thesis by (cases "find_idx P xs") auto
  next
    case (Suc k)
    have all_Suc: "(\<forall>j < Suc k. \<not> P ((x # xs) ! j)) \<longleftrightarrow> \<not> P x \<and> (\<forall>j < k. \<not> P (xs ! j))"
      by (auto simp: less_Suc_eq_0_disj)
    show ?thesis using Cons.IH [of k] unfolding Suc all_Suc by auto
  qed
qed

lemma find_idx_SomeD:
  assumes "find_idx P xs = Some i"
  shows "i < length xs" and "P (xs ! i)" and "j < i \<Longrightarrow> \<not> P (xs ! j)"
  using assms by (auto simp: find_idx_Some_iff)

lemma find_idx_cong: "(\<And>x. x \<in> set xs \<Longrightarrow> P x = Q x) \<Longrightarrow> find_idx P xs = find_idx Q xs"
  by (induction xs) auto

lemma find_idx_nth_cong:
  "length xs = length ys \<Longrightarrow> (\<And>i. i < length xs \<Longrightarrow> P (xs ! i) = Q (ys ! i)) \<Longrightarrow> find_idx P xs = find_idx Q ys"
proof (induction xs ys rule: list_induct2)
  case Nil
  then show ?case by simp
next
  case (Cons x xs y ys)
  from Cons.prems [of 0] have "P x = Q y" by simp
  moreover have "find_idx P xs = find_idx Q ys"
  proof (rule Cons.IH)
    fix i
    assume "i < length xs"
    with Cons.prems [of "Suc i"] show "P (xs ! i) = Q (ys ! i)" by simp
  qed
  ultimately show ?case by simp
qed

lemma find_idx_exists: "x \<in> set xs \<Longrightarrow> P x \<Longrightarrow> \<exists>i. find_idx P xs = Some i"
  by (cases "find_idx P xs") (auto simp: find_idx_None_iff)


section \<open>Lists\<close>

lemma count_filter_update:
  assumes "i < length xs"
  shows "length (filter P (xs[i := x])) + (if P (xs ! i) then 1 else 0)
       = length (filter P xs) + (if P x then 1 else 0)"
  using assms
proof (induction xs arbitrary: i)
  case Nil
  then show ?case by simp
next
  case (Cons y ys)
  then show ?case by (cases i) auto
qed

lemma filter_length_pos: "i < length xs \<Longrightarrow> P (xs ! i) \<Longrightarrow> 0 < length (filter P xs)"
  by (metis filter_empty_conv length_greater_0_conv nth_mem)

lemma find_idx_None_full: "find_idx (\<lambda>x. \<not> P x) xs = None \<longleftrightarrow> length (filter P xs) = length xs"
  by (induction xs) (auto simp: le_imp_less_Suc less_imp_neq)

end
