(* ===== verification/Proc_Table.thy ===== *)
theory Proc_Table
  imports Xv6_Prelude
begin

text \<open>
  The process table and the scheduler of \<open>kernel/proc.c\<close>: the part of \<open>struct proc\<close> that needs no
  memory management, sleep and wakeup, kill, exit, and the scan of the four-level scheduler.

  A process pointer is the index into \<open>proc[]\<close>, the null pointer is \<open>None\<close>; \<open>NPROC\<close> is the length
  of the table. Each definition is a section that runs under the process's lock; a call of \<open>swtch\<close> ends
  it. \<open>cpus\<close> holds \<open>c->proc\<close> of each CPU.
\<close>

section \<open>State\<close>

datatype procstate = UNUSED | USED | SLEEPING | RUNNABLE | RUNNING | ZOMBIE

text \<open>What the kernel sleeps on: the address of one of these objects.\<close>

datatype chan = ChanTicks | ChanProc nat | ChanBuf nat | ChanReq nat | ChanDesc | ChanQueue

record proc =
  pstate :: procstate
  pchan :: "chan option"
  pkilled :: int
  xstate :: int
  pid :: int
  parent :: "nat option"
  kstack :: u64
  psz :: u64
  pagetable :: u64
  trapframe :: u64
  pname :: string
  syscount :: u64
  plevel :: int
  ticks_used :: int
  pticks :: "int list"
  times_scheduled :: int
  last_syscall_count :: u64
  page_faults :: int
  pages_evicted :: int
  pages_swapped_in :: int
  pages_swapped_out :: int
  resident_pages :: int

record sched =
  procs :: "proc list"
  cpus :: "nat option list"
  nextpid :: int
  initproc :: "nat option"
  ticks :: u32
  mlfq_global_ticks :: int

definition upd_proc :: "nat \<Rightarrow> (proc \<Rightarrow> proc) \<Rightarrow> sched \<Rightarrow> sched" where
  "upd_proc i f s = s\<lparr>procs := (procs s)[i := f (procs s ! i)]\<rparr>"

text \<open>\<open>for (p = proc; p < &proc[NPROC]; p++) body\<close>, for a body that changes \<open>p\<close> only.\<close>

definition for_procs :: "(nat \<Rightarrow> proc \<Rightarrow> proc) \<Rightarrow> sched \<Rightarrow> sched" where
  "for_procs f s = fold (\<lambda>i. upd_proc i (f i)) [0..<length (procs s)] s"

definition myproc :: "nat \<Rightarrow> sched \<Rightarrow> nat option" where
  "myproc cpu s = cpus s ! cpu"


section \<open>Operations\<close>

definition getnumchild :: "nat \<Rightarrow> sched \<Rightarrow> int" where
  "getnumchild p s =
     int (length (filter (\<lambda>pp. parent pp = Some p \<and> pstate pp \<noteq> ZOMBIE \<and> pstate pp \<noteq> UNUSED) (procs s)))"

definition procinit :: "(nat \<Rightarrow> u64) \<Rightarrow> sched \<Rightarrow> sched" where
  "procinit KSTACK s = for_procs (\<lambda>i p. p\<lparr>pstate := UNUSED, kstack := KSTACK i\<rparr>) s"

definition allocpid :: "sched \<Rightarrow> int \<times> sched" where
  "allocpid s = (nextpid s, s\<lparr>nextpid := c_int (nextpid s + 1)\<rparr>)"

definition wakeup :: "nat option \<Rightarrow> chan \<Rightarrow> sched \<Rightarrow> sched" where
  "wakeup me c s =
     for_procs (\<lambda>i p. if Some i \<noteq> me \<and> pstate p = SLEEPING \<and> pchan p = Some c then p\<lparr>pstate := RUNNABLE\<rparr> else p) s"

definition reparent :: "nat option \<Rightarrow> nat \<Rightarrow> sched \<Rightarrow> sched" where
  "reparent me p s =
     fold (\<lambda>i s. if parent (procs s ! i) = Some p
                 then let s1 = upd_proc i (\<lambda>pp. pp\<lparr>parent := initproc s\<rparr>) s
                      in case initproc s1 of Some ip \<Rightarrow> wakeup me (ChanProc ip) s1 | None \<Rightarrow> s1
                 else s)
       [0..<length (procs s)] s"

definition kkill :: "int \<Rightarrow> sched \<Rightarrow> int \<times> sched" where
  "kkill n s =
     (case find_idx (\<lambda>p. pid p = n) (procs s) of
        Some i \<Rightarrow> (0, upd_proc i (\<lambda>p. let p1 = p\<lparr>pkilled := 1\<rparr>
                                       in if pstate p1 = SLEEPING then p1\<lparr>pstate := RUNNABLE\<rparr> else p1) s)
      | None \<Rightarrow> (-1, s))"

definition setkilled :: "nat \<Rightarrow> sched \<Rightarrow> sched" where
  "setkilled i s = upd_proc i (\<lambda>p. p\<lparr>pkilled := 1\<rparr>) s"

definition killed :: "nat \<Rightarrow> sched \<Rightarrow> int" where
  "killed i s = pkilled (procs s ! i)"

text \<open>
  \<open>sched\<close> hands the CPU back to \<open>scheduler\<close>, which then clears \<open>c->proc\<close>. The checks on
  locks and interrupts are about the lock discipline and have no counterpart here.
\<close>

definition sched_switch :: "nat \<Rightarrow> nat \<Rightarrow> sched \<Rightarrow> sched res" where
  "sched_switch cpu i s =
     panic_if (pstate (procs s ! i) = RUNNING) ''sched RUNNING'' (Inr (s\<lparr>cpus := (cpus s)[cpu := None]\<rparr>))"

definition yield :: "nat \<Rightarrow> nat \<Rightarrow> sched \<Rightarrow> sched res" where
  "yield cpu i s = sched_switch cpu i (upd_proc i (\<lambda>p. p\<lparr>pstate := RUNNABLE\<rparr>) s)"

definition sleep :: "nat \<Rightarrow> nat \<Rightarrow> chan \<Rightarrow> sched \<Rightarrow> sched res" where
  "sleep cpu i c s = sched_switch cpu i (upd_proc i (\<lambda>p. p\<lparr>pchan := Some c, pstate := SLEEPING\<rparr>) s)"

text \<open>The part of \<open>sleep\<close> after \<open>sched\<close> has returned.\<close>

definition sleep_return :: "nat \<Rightarrow> sched \<Rightarrow> sched" where
  "sleep_return i s = upd_proc i (\<lambda>p. p\<lparr>pchan := None\<rparr>) s"

text \<open>
  \<open>kexit\<close> from \<open>acquire(&wait_lock)\<close> on; closing the files and the current directory is the
  file system's. A process without a parent would be \<open>wakeup(0)\<close>, which wakes nobody.
\<close>

definition kexit :: "nat \<Rightarrow> nat \<Rightarrow> int \<Rightarrow> sched \<Rightarrow> sched res" where
  "kexit cpu i status s =
     panic_if (initproc s = Some i) ''init exiting''
       (let s1 = reparent (Some i) i s;
            s2 = (case parent (procs s1 ! i) of Some pp \<Rightarrow> wakeup (Some i) (ChanProc pp) s1 | None \<Rightarrow> s1);
            s3 = upd_proc i (\<lambda>p. p\<lparr>xstate := status, pstate := ZOMBIE\<rparr>) s2
        in sched_switch cpu i s3)"

text \<open>The scan of \<open>scheduler\<close>: the levels in order, in each the table from its start.\<close>

fun sched_pick :: "int list \<Rightarrow> proc list \<Rightarrow> nat option" where
  "sched_pick [] ps = None"
| "sched_pick (l # ls) ps =
     (case find_idx (\<lambda>p. pstate p = RUNNABLE \<and> plevel p = l) ps of
        Some i \<Rightarrow> Some i
      | None \<Rightarrow> sched_pick ls ps)"

definition mlfq_levels :: "int list" where
  "mlfq_levels = [0, 1, 2, 3]"

text \<open>One round of \<open>scheduler\<close> up to \<open>swtch\<close>; with nothing found the CPU waits for an interrupt.\<close>

definition scheduler :: "nat \<Rightarrow> sched \<Rightarrow> sched" where
  "scheduler cpu s =
     (case sched_pick mlfq_levels (procs s) of
        Some i \<Rightarrow> (upd_proc i (\<lambda>p. p\<lparr>times_scheduled := c_int (times_scheduled p + 1),
                                     last_syscall_count := syscount p, pstate := RUNNING\<rparr>) s)
                     \<lparr>cpus := (cpus s)[cpu := Some i]\<rparr>
      | None \<Rightarrow> s)"


section \<open>Reasoning about the table\<close>

abbreviation nproc :: "sched \<Rightarrow> nat" where
  "nproc s \<equiv> length (procs s)"

lemma upd_proc_simps [simp]:
  "length (procs (upd_proc i f s)) = length (procs s)"
  "cpus (upd_proc i f s) = cpus s"
  "nextpid (upd_proc i f s) = nextpid s"
  "initproc (upd_proc i f s) = initproc s"
  "ticks (upd_proc i f s) = ticks s"
  "mlfq_global_ticks (upd_proc i f s) = mlfq_global_ticks s"
  by (simp_all add: upd_proc_def)

lemma upd_proc_nth:
  "j < nproc s \<Longrightarrow> procs (upd_proc i f s) ! j = (if i = j then f (procs s ! j) else procs s ! j)"
  by (simp add: upd_proc_def nth_list_update)

lemma fold_upd_proc:
  assumes "distinct is"
  shows "fold (\<lambda>i. upd_proc i (f i)) is s
     = s\<lparr>procs := map (\<lambda>j. if j \<in> set is then f j (procs s ! j) else procs s ! j) [0..<nproc s]\<rparr>"
  using assms
proof (induction "is" arbitrary: s)
  case Nil
  then show ?case by (simp add: map_nth)
next
  case (Cons i "is")
  have "fold (\<lambda>i. upd_proc i (f i)) (i # is) s = (upd_proc i (f i) s)\<lparr>procs :=
      map (\<lambda>j. if j \<in> set is then f j (procs (upd_proc i (f i) s) ! j) else procs (upd_proc i (f i) s) ! j) [0..<nproc s]\<rparr>"
    using Cons by simp
  also have "\<dots> = s\<lparr>procs := map (\<lambda>j. if j \<in> set (i # is) then f j (procs s ! j) else procs s ! j) [0..<nproc s]\<rparr>"
  proof -
    have "map (\<lambda>j. if j \<in> set is then f j (procs (upd_proc i (f i) s) ! j) else procs (upd_proc i (f i) s) ! j) [0..<nproc s]
        = map (\<lambda>j. if j \<in> set (i # is) then f j (procs s ! j) else procs s ! j) [0..<nproc s]"
      using Cons.prems by (auto simp: upd_proc_nth)
    then show ?thesis by (simp add: upd_proc_def)
  qed
  finally show ?case .
qed

lemma for_procs_eq: "for_procs f s = s\<lparr>procs := map (\<lambda>j. f j (procs s ! j)) [0..<nproc s]\<rparr>"
  unfolding for_procs_def by (subst fold_upd_proc) (simp_all cong: map_cong)

lemma for_procs_simps [simp]:
  "length (procs (for_procs f s)) = length (procs s)"
  "cpus (for_procs f s) = cpus s"
  "nextpid (for_procs f s) = nextpid s"
  "initproc (for_procs f s) = initproc s"
  "ticks (for_procs f s) = ticks s"
  "mlfq_global_ticks (for_procs f s) = mlfq_global_ticks s"
  by (simp_all add: for_procs_eq)

lemma for_procs_nth: "j < nproc s \<Longrightarrow> procs (for_procs f s) ! j = f j (procs s ! j)"
  by (simp add: for_procs_eq)

lemma wakeup_nth:
  assumes "j < nproc s"
  shows "procs (wakeup me c s) ! j =
    (if Some j \<noteq> me \<and> pstate (procs s ! j) = SLEEPING \<and> pchan (procs s ! j) = Some c
     then (procs s ! j)\<lparr>pstate := RUNNABLE\<rparr> else procs s ! j)"
  using assms by (simp add: wakeup_def for_procs_nth)

lemma wakeup_simps [simp]:
  "length (procs (wakeup me c s)) = length (procs s)" "cpus (wakeup me c s) = cpus s"
  "nextpid (wakeup me c s) = nextpid s" "initproc (wakeup me c s) = initproc s"
  "ticks (wakeup me c s) = ticks s" "mlfq_global_ticks (wakeup me c s) = mlfq_global_ticks s"
  by (simp_all add: wakeup_def)

text \<open>A state change that only wakes sleepers: nothing else of a process differs.\<close>

definition woken :: "proc \<Rightarrow> proc \<Rightarrow> bool" where
  "woken p p' \<longleftrightarrow> p' = p \<or> pstate p = SLEEPING \<and> p' = p\<lparr>pstate := RUNNABLE\<rparr>"

lemma woken_refl [simp]: "woken p p"
  by (simp add: woken_def)

lemma woken_trans: "woken p p' \<Longrightarrow> woken p' p'' \<Longrightarrow> woken p p''"
  by (auto simp: woken_def)

lemma wakeup_woken: "j < nproc s \<Longrightarrow> woken (procs s ! j) (procs (wakeup me c s) ! j)"
  by (simp add: wakeup_nth woken_def)

text \<open>What \<open>reparent\<close> does to one process of the table.\<close>

definition adopted :: "sched \<Rightarrow> nat \<Rightarrow> proc \<Rightarrow> proc" where
  "adopted s p pp = (if parent pp = Some p then pp\<lparr>parent := initproc s\<rparr> else pp)"

lemma reparent_fold:
  assumes "distinct is" "set is \<subseteq> {..<nproc s}"
    and s'_def: "s' = fold (\<lambda>i s. if parent (procs s ! i) = Some p
                 then let s1 = upd_proc i (\<lambda>pp. pp\<lparr>parent := initproc s\<rparr>) s
                      in case initproc s1 of Some ip \<Rightarrow> wakeup me (ChanProc ip) s1 | None \<Rightarrow> s1
                 else s) is s"
  shows "nproc s' = nproc s \<and> cpus s' = cpus s \<and> nextpid s' = nextpid s \<and> initproc s' = initproc s
     \<and> ticks s' = ticks s \<and> mlfq_global_ticks s' = mlfq_global_ticks s
     \<and> (\<forall>j < nproc s. woken (if j \<in> set is then adopted s p (procs s ! j) else procs s ! j) (procs s' ! j))"
  using assms
proof (induction "is" arbitrary: s)
  case Nil
  then show ?case by simp
next
  case (Cons i "is")
  define s1 where "s1 = (if parent (procs s ! i) = Some p
                 then let s1 = upd_proc i (\<lambda>pp. pp\<lparr>parent := initproc s\<rparr>) s
                      in case initproc s1 of Some ip \<Rightarrow> wakeup me (ChanProc ip) s1 | None \<Rightarrow> s1
                 else s)"
  have i: "i < nproc s" using Cons.prems by simp
  have s1: "nproc s1 = nproc s \<and> cpus s1 = cpus s \<and> nextpid s1 = nextpid s \<and> initproc s1 = initproc s
     \<and> ticks s1 = ticks s \<and> mlfq_global_ticks s1 = mlfq_global_ticks s"
    by (simp add: s1_def Let_def split: option.split)
  have one: "woken (if j = i then adopted s p (procs s ! j) else procs s ! j) (procs s1 ! j)" if "j < nproc s" for j
    using that i wakeup_woken [of j "upd_proc i (\<lambda>pp. pp\<lparr>parent := initproc s\<rparr>) s" me]
    by (auto simp: s1_def Let_def adopted_def upd_proc_nth split: option.split)
  have par: "adopted s1 p x = adopted s p x" for x by (simp add: adopted_def s1)
  have "nproc s' = nproc s1 \<and> cpus s' = cpus s1 \<and> nextpid s' = nextpid s1 \<and> initproc s' = initproc s1
     \<and> ticks s' = ticks s1 \<and> mlfq_global_ticks s' = mlfq_global_ticks s1
     \<and> (\<forall>j < nproc s1. woken (if j \<in> set is then adopted s1 p (procs s1 ! j) else procs s1 ! j) (procs s' ! j))"
    using Cons.prems s1 by (intro Cons.IH) (simp_all add: s1_def [symmetric])
  note ih = this [unfolded par]
  have "woken (if j \<in> set (i # is) then adopted s p (procs s ! j) else procs s ! j) (procs s' ! j)" if "j < nproc s" for j
  proof -
    have w: "woken x x' \<Longrightarrow> woken (adopted s p x) (adopted s p x')" for x x'
      by (auto simp: woken_def adopted_def)
    show ?thesis
    proof (cases "j = i")
      case True
      have "woken (procs s1 ! i) (procs s' ! i)" using ih that s1 Cons.prems(1) True by auto
      then show ?thesis using one [OF that] True by (auto intro: woken_trans)
    next
      case False
      have "woken (if j \<in> set is then adopted s p (procs s1 ! j) else procs s1 ! j) (procs s' ! j)"
        using ih that s1 by simp
      moreover have "woken (procs s ! j) (procs s1 ! j)" using one [OF that] False by simp
      moreover from w [OF this] have "woken (adopted s p (procs s ! j)) (adopted s p (procs s1 ! j))" .
      ultimately show ?thesis using False by (auto intro: woken_trans)
    qed
  qed
  with ih s1 show ?case by simp
qed

lemma reparent_spec:
  "nproc (reparent me p s) = nproc s" "cpus (reparent me p s) = cpus s" "nextpid (reparent me p s) = nextpid s"
  "initproc (reparent me p s) = initproc s" "ticks (reparent me p s) = ticks s"
  "mlfq_global_ticks (reparent me p s) = mlfq_global_ticks s"
  "j < nproc s \<Longrightarrow> woken (adopted s p (procs s ! j)) (procs (reparent me p s) ! j)"
  using reparent_fold [OF _ _ reparent_def, of s] by (auto simp: lessThan_atLeast0)


section \<open>The choice of the scheduler\<close>

lemma sched_pick_Some:
  "sched_pick ls ps = Some i \<Longrightarrow>
     i < length ps \<and> pstate (ps ! i) = RUNNABLE \<and> plevel (ps ! i) \<in> set ls
   \<and> (sorted ls \<longrightarrow> (\<forall>j < length ps. pstate (ps ! j) = RUNNABLE \<and> plevel (ps ! j) \<in> set ls \<longrightarrow>
        plevel (ps ! i) < plevel (ps ! j) \<or> plevel (ps ! i) = plevel (ps ! j) \<and> i \<le> j))"
proof (induction ls)
  case Nil
  then show ?case by simp
next
  case (Cons l ls)
  show ?case
  proof (cases "find_idx (\<lambda>p. pstate p = RUNNABLE \<and> plevel p = l) ps")
    case None
    then have no: "\<not> (pstate (ps ! j) = RUNNABLE \<and> plevel (ps ! j) = l)" if "j < length ps" for j
      using that by (auto simp: find_idx_None_iff)
    from None Cons.prems have "sched_pick ls ps = Some i" by simp
    with Cons.IH no show ?thesis by auto
  next
    case (Some k)
    with Cons.prems have k: "k = i" by simp
    note f = find_idx_SomeD [OF Some [unfolded k]]
    have "plevel (ps ! i) < plevel (ps ! j) \<or> plevel (ps ! i) = plevel (ps ! j) \<and> i \<le> j"
      if "sorted (l # ls)" "j < length ps" "pstate (ps ! j) = RUNNABLE" "plevel (ps ! j) \<in> set (l # ls)" for j
    proof (cases "plevel (ps ! j) = l")
      case True
      with f(3) [of j] that have "i \<le> j" by (auto simp: not_less [symmetric])
      with True f(2) show ?thesis by simp
    next
      case False
      with that f(2) show ?thesis by auto
    qed
    with f show ?thesis by auto
  qed
qed

lemma sched_pick_None:
  "sched_pick ls ps = None \<longleftrightarrow> (\<forall>p \<in> set ps. pstate p = RUNNABLE \<longrightarrow> plevel p \<notin> set ls)"
proof (induction ls)
  case Nil
  then show ?case by simp
next
  case (Cons l ls)
  show ?case
  proof (cases "find_idx (\<lambda>p. pstate p = RUNNABLE \<and> plevel p = l) ps")
    case None
    have "\<forall>p \<in> set ps. \<not> (pstate p = RUNNABLE \<and> plevel p = l)" using None by (simp add: find_idx_None_iff)
    with Cons None show ?thesis by auto
  next
    case (Some k)
    with find_idx_SomeD(1,2) [OF Some] show ?thesis by (auto intro!: bexI [of _ "ps ! k"])
  qed
qed

end
