(* ===== verification/Mlfq.thy ===== *)
theory Mlfq
  imports Proc_Table
begin

text \<open>
  The multi-level feedback queue: the timer interrupt \<open>clockintr\<close> of \<open>kernel/trap.c\<close> on the process
  table, and the kernel's process switching as a step relation over all CPUs. The invariant
  of that relation says which processes run where and keeps the levels and time slices in range.
\<close>

section \<open>The timer interrupt\<close>

definition quantum :: "int list" where
  "quantum = [2, 4, 8, 16]"

text \<open>\<open>ticks++; mlfq_global_ticks++; wakeup(&ticks);\<close> on CPU 0.\<close>

definition clock_tick :: "nat option \<Rightarrow> sched \<Rightarrow> sched" where
  "clock_tick me s =
     wakeup me ChanTicks (s\<lparr>ticks := ticks s + 1, mlfq_global_ticks := c_int (mlfq_global_ticks s + 1)\<rparr>)"

text \<open>
  The accounting of one tick for the running process: the process with its counters, and
  whether its time slice is used up. \<open>Fault\<close> is a level outside the arrays.
\<close>

definition mlfq_account :: "proc \<Rightarrow> (proc \<times> bool) res" where
  "mlfq_account p =
     (if plevel p < 0 \<or> plevel p > 3 then Inl Fault
      else let l = nat (plevel p);
               p1 = p\<lparr>ticks_used := c_int (ticks_used p + 1), pticks := (pticks p)[l := c_int (pticks p ! l + 1)]\<rparr>
           in if ticks_used p1 \<ge> quantum ! l
              then let deltaS = syscount p1 - last_syscall_count p1;
                       deltaT = (of_int (ticks_used p1) :: u64);
                       p2 = (if deltaS < deltaT then (if plevel p1 < 3 then p1\<lparr>plevel := plevel p1 + 1\<rparr> else p1) else p1)
                   in Inr (p2\<lparr>ticks_used := 0\<rparr>, True)
              else Inr (p1, False))"

definition mlfq_boost :: "sched \<Rightarrow> sched" where
  "mlfq_boost s =
     for_procs (\<lambda>i p. if pstate p \<noteq> UNUSED \<and> pstate p \<noteq> ZOMBIE then p\<lparr>plevel := 0, ticks_used := 0\<rparr> else p) s"

text \<open>
  \<open>clockintr\<close>. \<open>resume\<close> is what happens between the \<open>swtch\<close> inside \<open>yield\<close> and the moment
  the process runs again.
\<close>

definition clockintr :: "nat \<Rightarrow> (sched \<Rightarrow> sched) \<Rightarrow> sched \<Rightarrow> sched res" where
  "clockintr cpu resume s =
     (let s1 = (if cpu = 0 then clock_tick (myproc cpu s) s else s)
      in rbind (case myproc cpu s1 of
                  Some i \<Rightarrow>
                    if pstate (procs s1 ! i) = RUNNING
                    then rbind (mlfq_account (procs s1 ! i))
                           (\<lambda>(p, expired). let s2 = upd_proc i (\<lambda>_. p) s1
                                           in if expired then rbind (yield cpu i s2) (\<lambda>s3. Inr (resume s3)) else Inr s2)
                    else Inr s1
                | None \<Rightarrow> Inr s1)
           (\<lambda>s4. Inr (if mlfq_global_ticks s4 mod 128 = 0 then mlfq_boost s4 else s4)))"


section \<open>Process switching as a step relation\<close>

text \<open>
  The steps of the CPUs, in any order: a scheduler round on a CPU that runs nothing; a process that yields,
  sleeps, exits or returns from sleep on its CPU; a wakeup or kill from anywhere; a tick on any CPU, which
  may end the time slice of its process; the boost when the tick count is a multiple of 128. \<open>syscall\<close>
  counts a system call of the running process; \<open>fork\<close> turns a free slot into a runnable process.
\<close>

inductive kstep :: "sched \<Rightarrow> sched \<Rightarrow> bool" where
  schedule: "c < length (cpus s) \<Longrightarrow> cpus s ! c = None \<Longrightarrow> kstep s (scheduler c s)"
| yield: "c < length (cpus s) \<Longrightarrow> cpus s ! c = Some i \<Longrightarrow> yield c i s = Inr s' \<Longrightarrow> kstep s s'"
| sleep: "c < length (cpus s) \<Longrightarrow> cpus s ! c = Some i \<Longrightarrow> sleep c i ch s = Inr s' \<Longrightarrow> kstep s s'"
| sleep_return: "c < length (cpus s) \<Longrightarrow> cpus s ! c = Some i \<Longrightarrow> kstep s (sleep_return i s)"
| exit: "c < length (cpus s) \<Longrightarrow> cpus s ! c = Some i \<Longrightarrow> kexit c i status s = Inr s' \<Longrightarrow> kstep s s'"
| wakeup: "kstep s (wakeup me ch s)"
| kill: "kkill n s = (r, s') \<Longrightarrow> kstep s s'"
| time: "kstep s (clock_tick me s)"
| account: "c < length (cpus s) \<Longrightarrow> cpus s ! c = Some i \<Longrightarrow> mlfq_account (procs s ! i) = Inr (p, False)
    \<Longrightarrow> kstep s (upd_proc i (\<lambda>_. p) s)"
| expire: "c < length (cpus s) \<Longrightarrow> cpus s ! c = Some i \<Longrightarrow> mlfq_account (procs s ! i) = Inr (p, True)
    \<Longrightarrow> yield c i (upd_proc i (\<lambda>_. p) s) = Inr s' \<Longrightarrow> kstep s s'"
| boost: "mlfq_global_ticks s mod 128 = 0 \<Longrightarrow> kstep s (mlfq_boost s)"
| syscall: "c < length (cpus s) \<Longrightarrow> cpus s ! c = Some i
    \<Longrightarrow> kstep s (upd_proc i (\<lambda>p. p\<lparr>syscount := syscount p + 1\<rparr>) s)"
| fork: "i < length (procs s) \<Longrightarrow> pstate (procs s ! i) = UNUSED \<Longrightarrow>
    kstep s (upd_proc i (\<lambda>p. p\<lparr>pstate := RUNNABLE, plevel := 0, ticks_used := 0, pticks := [0, 0, 0, 0]\<rparr>) s)"

inductive kreach :: "sched \<Rightarrow> sched \<Rightarrow> bool" where
  refl: "kreach s s"
| step: "kreach s s' \<Longrightarrow> kstep s' s'' \<Longrightarrow> kreach s s''"

inductive_cases kreachE: "kreach s s'"

text \<open>A process in the range of the queue: its level, its slice, its counters.\<close>

definition mlfq_ok :: "proc \<Rightarrow> bool" where
  "mlfq_ok p \<longleftrightarrow> 0 \<le> plevel p \<and> plevel p \<le> 3 \<and> length (pticks p) = 4
     \<and> 0 \<le> ticks_used p \<and> ticks_used p < quantum ! nat (plevel p)"

definition sched_inv :: "sched \<Rightarrow> bool" where
  "sched_inv s \<longleftrightarrow>
     (\<forall>c < length (cpus s). \<forall>i. cpus s ! c = Some i \<longrightarrow> i < nproc s \<and> pstate (procs s ! i) = RUNNING)
   \<and> (\<forall>i < nproc s. pstate (procs s ! i) = RUNNING \<longrightarrow> (\<exists>c < length (cpus s). cpus s ! c = Some i))
   \<and> (\<forall>c c' i. c < length (cpus s) \<longrightarrow> c' < length (cpus s) \<longrightarrow> cpus s ! c = Some i \<longrightarrow> cpus s ! c' = Some i \<longrightarrow> c = c')
   \<and> (\<forall>i < nproc s. mlfq_ok (procs s ! i))"


section \<open>The invariant\<close>

text \<open>Steps that keep the CPUs and which processes run.\<close>

lemma sched_inv_same_running:
  assumes "sched_inv s" "cpus s' = cpus s" "nproc s' = nproc s"
    and "\<And>i. i < nproc s \<Longrightarrow> (pstate (procs s' ! i) = RUNNING) = (pstate (procs s ! i) = RUNNING)"
    and "\<And>i. i < nproc s \<Longrightarrow> mlfq_ok (procs s ! i) \<Longrightarrow> mlfq_ok (procs s' ! i)"
  shows "sched_inv s'"
  using assms by (simp add: sched_inv_def)

text \<open>A process leaves its CPU.\<close>

lemma sched_inv_leave:
  assumes inv: "sched_inv s" and c: "c < length (cpus s)" "cpus s ! c = Some i"
    and s': "cpus s' = (cpus s)[c := None]" "nproc s' = nproc s" "pstate (procs s' ! i) \<noteq> RUNNING"
    and same: "\<And>j. j < nproc s \<Longrightarrow> j \<noteq> i \<Longrightarrow> (pstate (procs s' ! j) = RUNNING) = (pstate (procs s ! j) = RUNNING)"
    and ok: "\<And>j. j < nproc s \<Longrightarrow> mlfq_ok (procs s ! j) \<Longrightarrow> mlfq_ok (procs s' ! j)"
  shows "sched_inv s'"
proof -
  have one: "c' = c" if "c' < length (cpus s)" "cpus s ! c' = Some i" for c'
    using inv c that unfolding sched_inv_def by blast
  show ?thesis
    unfolding sched_inv_def
  proof (intro conjI allI impI; (elim conjE)?)
    fix c' j
    assume A: "c' < length (cpus s')" "cpus s' ! c' = Some j"
    then have "c' \<noteq> c" using s'(1) c(1) by auto
    with A s'(1) have B: "c' < length (cpus s)" "cpus s ! c' = Some j" by simp_all
    with one \<open>c' \<noteq> c\<close> have "j \<noteq> i" by auto
    with B inv same show "j < nproc s'" "pstate (procs s' ! j) = RUNNING"
      by (auto simp: sched_inv_def s'(2))
  next
    fix j
    assume A: "j < nproc s'" "pstate (procs s' ! j) = RUNNING"
    then have "j \<noteq> i" using s'(3) by auto
    with A same s'(2) have "pstate (procs s ! j) = RUNNING" by simp
    then obtain c' where c': "c' < length (cpus s)" "cpus s ! c' = Some j"
      using inv A s'(2) by (auto simp: sched_inv_def)
    with c \<open>j \<noteq> i\<close> have "c' \<noteq> c" by auto
    with c' show "\<exists>c' < length (cpus s'). cpus s' ! c' = Some j" using s'(1) by auto
  next
    fix c1 c2 j
    assume "c1 < length (cpus s')" "c2 < length (cpus s')" "cpus s' ! c1 = Some j" "cpus s' ! c2 = Some j"
    then have "c1 < length (cpus s)" "c2 < length (cpus s)" "cpus s ! c1 = Some j" "cpus s ! c2 = Some j"
      using s'(1) c(1) by (auto simp: nth_list_update split: if_splits)
    with inv show "c1 = c2" unfolding sched_inv_def by blast
  next
    fix j
    assume "j < nproc s'"
    then show "mlfq_ok (procs s' ! j)" using inv ok s'(2) by (auto simp: sched_inv_def)
  qed
qed

lemma mlfq_ok_cong:
  "plevel p' = plevel p \<Longrightarrow> pticks p' = pticks p \<Longrightarrow> ticks_used p' = ticks_used p \<Longrightarrow> mlfq_ok p' = mlfq_ok p"
  by (simp add: mlfq_ok_def)

lemma mlfq_ok_simps [simp]:
  "mlfq_ok (p\<lparr>pstate := x\<rparr>) = mlfq_ok p" "mlfq_ok (p\<lparr>pchan := c\<rparr>) = mlfq_ok p" "mlfq_ok (p\<lparr>pkilled := k\<rparr>) = mlfq_ok p"
  "mlfq_ok (p\<lparr>xstate := k\<rparr>) = mlfq_ok p" "mlfq_ok (p\<lparr>parent := q\<rparr>) = mlfq_ok p" "mlfq_ok (p\<lparr>syscount := y\<rparr>) = mlfq_ok p"
  "mlfq_ok (p\<lparr>times_scheduled := k\<rparr>) = mlfq_ok p" "mlfq_ok (p\<lparr>last_syscall_count := y\<rparr>) = mlfq_ok p"
  by (simp_all add: mlfq_ok_def)

lemma woken_running: "woken p p' \<Longrightarrow> (pstate p' = RUNNING) = (pstate p = RUNNING)"
  by (auto simp: woken_def)

lemma woken_ok: "woken p p' \<Longrightarrow> mlfq_ok p' = mlfq_ok p"
  by (auto simp: woken_def)

lemma adopted_simps [simp]: "pstate (adopted s i p) = pstate p" "mlfq_ok (adopted s i p) = mlfq_ok p"
  by (simp_all add: adopted_def)

lemma quantum_nth:
  assumes "0 \<le> l" "l \<le> 3"
  shows "2 \<le> quantum ! nat l" "quantum ! nat l \<le> 16"
proof -
  have "nat l \<in> {0, 1, 2, 3}" using assms by auto
  then show "2 \<le> quantum ! nat l" "quantum ! nat l \<le> 16" by (auto simp: quantum_def)
qed

text \<open>The accounting keeps the range; with the slice used up the slice starts again.\<close>

lemma mlfq_account_ok:
  assumes "mlfq_ok p"
  shows "\<exists>p' e. mlfq_account p = Inr (p', e) \<and> mlfq_ok p' \<and> pstate p' = pstate p"
proof -
  have l: "0 \<le> plevel p" "plevel p \<le> 3" and t: "0 \<le> ticks_used p" "ticks_used p < quantum ! nat (plevel p)"
    and len: "length (pticks p) = 4"
    using assms by (simp_all add: mlfq_ok_def)
  have c: "c_int (ticks_used p + 1) = ticks_used p + 1"
    using t quantum_nth [OF l] by (intro c_int_id) simp_all
  have q: "0 < quantum ! nat l'" if "0 \<le> l'" "l' \<le> 3" for l' using quantum_nth [OF that] by simp
  show ?thesis
  proof (cases "ticks_used p + 1 \<ge> quantum ! nat (plevel p)")
    case True
    let ?p1 = "p\<lparr>ticks_used := ticks_used p + 1, pticks := (pticks p)[nat (plevel p) := c_int (pticks p ! nat (plevel p) + 1)]\<rparr>"
    let ?down = "syscount p - last_syscall_count p < of_int (ticks_used p + 1) \<and> plevel p < 3"
    have "mlfq_account p = Inr ((if ?down then ?p1\<lparr>plevel := plevel p + 1\<rparr> else ?p1)\<lparr>ticks_used := 0\<rparr>, True)"
      using l True by (simp add: mlfq_account_def Let_def c)
    moreover have "mlfq_ok (?p1\<lparr>plevel := plevel p + 1, ticks_used := 0\<rparr>)" if "plevel p < 3"
      using l len q [of "plevel p + 1"] that by (simp add: mlfq_ok_def)
    moreover have "mlfq_ok (?p1\<lparr>ticks_used := 0\<rparr>)" using l len q [of "plevel p"] by (simp add: mlfq_ok_def)
    ultimately show ?thesis by auto
  next
    case False
    with l t len show ?thesis by (auto simp: mlfq_account_def Let_def c mlfq_ok_def)
  qed
qed

lemma scheduler_inv:
  assumes inv: "sched_inv s" and c: "c < length (cpus s)" "cpus s ! c = None"
  shows "sched_inv (scheduler c s)"
proof (cases "sched_pick mlfq_levels (procs s)")
  case None
  then show ?thesis using inv by (simp add: scheduler_def)
next
  case (Some i)
  then have i: "i < nproc s" "pstate (procs s ! i) = RUNNABLE" using sched_pick_Some [OF Some] by auto
  have idle: "cpus s ! c' \<noteq> Some i" if "c' < length (cpus s)" for c'
    using inv that i by (auto simp: sched_inv_def)
  let ?s = "scheduler c s"
  have cp: "cpus ?s = (cpus s)[c := Some i]" and np: "nproc ?s = nproc s" using Some by (simp_all add: scheduler_def)
  have nth: "procs ?s ! j = (if j = i then (procs s ! i)\<lparr>times_scheduled := c_int (times_scheduled (procs s ! i) + 1),
      last_syscall_count := syscount (procs s ! i), pstate := RUNNING\<rparr> else procs s ! j)" if "j < nproc s" for j
    using Some that by (auto simp: scheduler_def upd_proc_nth)
  show ?thesis
    unfolding sched_inv_def
  proof (intro conjI allI impI; (elim conjE)?)
    fix c' j
    assume A: "c' < length (cpus ?s)" "cpus ?s ! c' = Some j"
    then show "j < nproc ?s" using i inv c by (auto simp: cp np sched_inv_def nth_list_update split: if_splits)
    with A show "pstate (procs ?s ! j) = RUNNING"
      using i inv c np nth by (auto simp: cp sched_inv_def nth_list_update split: if_splits)
  next
    fix j
    assume A: "j < nproc ?s" "pstate (procs ?s ! j) = RUNNING"
    show "\<exists>c' < length (cpus ?s). cpus ?s ! c' = Some j"
    proof (cases "j = i")
      case True
      then show ?thesis using c(1) by (auto simp: cp)
    next
      case False
      then obtain c' where "c' < length (cpus s)" "cpus s ! c' = Some j"
        using A inv nth np by (auto simp: sched_inv_def)
      moreover from this c(2) have "c' \<noteq> c" by auto
      ultimately show ?thesis by (auto simp: cp)
    qed
  next
    fix c1 c2 j
    assume "c1 < length (cpus ?s)" "c2 < length (cpus ?s)" "cpus ?s ! c1 = Some j" "cpus ?s ! c2 = Some j"
    then have A: "c1 < length (cpus s)" "c2 < length (cpus s)"
      "(if c1 = c then Some i else cpus s ! c1) = Some j" "(if c2 = c then Some i else cpus s ! c2) = Some j"
      using c(1) by (auto simp: cp nth_list_update)
    show "c1 = c2"
    proof (cases "j = i")
      case True
      with A idle show ?thesis by (metis option.inject)
    next
      case False
      with A have "cpus s ! c1 = Some j" "cpus s ! c2 = Some j" by (auto split: if_splits)
      with A inv show ?thesis unfolding sched_inv_def by blast
    qed
  next
    fix j
    assume "j < nproc ?s"
    then show "mlfq_ok (procs ?s ! j)" using inv np nth by (simp add: sched_inv_def)
  qed
qed

lemma yield_inv:
  assumes "sched_inv s" "c < length (cpus s)" "cpus s ! c = Some i" "yield c i s = Inr s'"
  shows "sched_inv s'"
proof -
  have i: "i < nproc s" using assms by (simp add: sched_inv_def)
  have "s' = (upd_proc i (\<lambda>p. p\<lparr>pstate := RUNNABLE\<rparr>) s)\<lparr>cpus := (cpus s)[c := None]\<rparr>"
    using assms(4) i by (simp add: yield_def sched_switch_def upd_proc_nth)
  then show ?thesis
    using i by (intro sched_inv_leave [OF assms(1-3)]) (simp_all add: upd_proc_nth)
qed

lemma sleep_inv:
  assumes "sched_inv s" "c < length (cpus s)" "cpus s ! c = Some i" "sleep c i ch s = Inr s'"
  shows "sched_inv s'"
proof -
  have i: "i < nproc s" using assms by (simp add: sched_inv_def)
  have "s' = (upd_proc i (\<lambda>p. p\<lparr>pchan := Some ch, pstate := SLEEPING\<rparr>) s)\<lparr>cpus := (cpus s)[c := None]\<rparr>"
    using assms(4) i by (simp add: sleep_def sched_switch_def upd_proc_nth)
  then show ?thesis
    using i by (intro sched_inv_leave [OF assms(1-3)]) (simp_all add: upd_proc_nth)
qed

text \<open>The table after \<open>kexit\<close>: the process is a zombie, its children belong to init, sleepers may be awake.\<close>

lemma kexit_spec:
  assumes "kexit c i status s = Inr s'" "i < nproc s"
  shows "initproc s \<noteq> Some i" "nproc s' = nproc s" "cpus s' = (cpus s)[c := None]"
    "j < nproc s \<Longrightarrow> j \<noteq> i \<Longrightarrow> woken (adopted s i (procs s ! j)) (procs s' ! j)"
    "\<exists>p. woken (adopted s i (procs s ! i)) p \<and> procs s' ! i = p\<lparr>xstate := status, pstate := ZOMBIE\<rparr>"
proof -
  define s1 where "s1 = reparent (Some i) i s"
  define s2 where "s2 = (case parent (procs s1 ! i) of Some pp \<Rightarrow> wakeup (Some i) (ChanProc pp) s1 | None \<Rightarrow> s1)"
  define s3 where "s3 = upd_proc i (\<lambda>p. p\<lparr>xstate := status, pstate := ZOMBIE\<rparr>) s2"
  have n: "nproc s1 = nproc s" "nproc s2 = nproc s" "nproc s3 = nproc s" "cpus s3 = cpus s"
    by (simp_all add: s1_def s2_def s3_def reparent_spec split: option.split)
  show "initproc s \<noteq> Some i" using assms(1) by (auto simp: kexit_def panic_if_def)
  then have s': "s' = s3\<lparr>cpus := (cpus s)[c := None]\<rparr>"
    using assms n by (simp add: kexit_def Let_def s1_def [symmetric] s2_def [symmetric] s3_def [symmetric] sched_switch_def)
      (simp add: s3_def upd_proc_nth)
  then show "nproc s' = nproc s" "cpus s' = (cpus s)[c := None]" using n by simp_all
  have w: "woken (adopted s i (procs s ! j)) (procs s2 ! j)" if "j < nproc s" for j
  proof -
    have "woken (adopted s i (procs s ! j)) (procs s1 ! j)" unfolding s1_def by (rule reparent_spec(7) [OF that])
    moreover have "woken (procs s1 ! j) (procs s2 ! j)"
      using wakeup_woken [of j s1] that n by (simp add: s2_def split: option.split)
    ultimately show ?thesis by (rule woken_trans)
  qed
  show "woken (adopted s i (procs s ! j)) (procs s' ! j)" if "j < nproc s" "j \<noteq> i"
    using w [OF that(1)] that n by (simp add: s' s3_def upd_proc_nth)
  show "\<exists>p. woken (adopted s i (procs s ! i)) p \<and> procs s' ! i = p\<lparr>xstate := status, pstate := ZOMBIE\<rparr>"
    using w [OF assms(2)] assms(2) n by (auto simp: s' s3_def upd_proc_nth)
qed

lemma kexit_inv:
  assumes "sched_inv s" "c < length (cpus s)" "cpus s ! c = Some i" "kexit c i status s = Inr s'"
  shows "sched_inv s'"
proof -
  have i: "i < nproc s" using assms by (simp add: sched_inv_def)
  note sp = kexit_spec [OF assms(4) i]
  show ?thesis
  proof (rule sched_inv_leave [OF assms(1-3) sp(3,2)])
    show "pstate (procs s' ! i) \<noteq> RUNNING" using sp(5) by auto
    show "(pstate (procs s' ! j) = RUNNING) = (pstate (procs s ! j) = RUNNING)" if "j < nproc s" "j \<noteq> i" for j
      using woken_running [OF sp(4) [OF that]] by simp
    show "mlfq_ok (procs s' ! j)" if "j < nproc s" "mlfq_ok (procs s ! j)" for j
    proof (cases "j = i")
      case True
      then show ?thesis using sp(5) that woken_ok by auto
    next
      case False
      then show ?thesis using woken_ok [OF sp(4) [OF that(1)]] that by simp
    qed
  qed
qed

lemma kkill_inv: "sched_inv s \<Longrightarrow> kkill n s = (r, s') \<Longrightarrow> sched_inv s'"
  by (rule sched_inv_same_running [of s])
    (auto simp: kkill_def upd_proc_nth Let_def split: option.splits if_splits)

lemma kstep_inv:
  assumes "kstep s s'" "sched_inv s"
  shows "sched_inv s'"
  using assms
proof (induction rule: kstep.induct)
  case (schedule c s)
  then show ?case by (simp add: scheduler_inv)
next
  case (yield c s i s')
  show ?case by (rule yield_inv [OF yield.prems yield.hyps])
next
  case (sleep c s i ch s')
  show ?case by (rule sleep_inv [OF sleep.prems sleep.hyps])
next
  case (sleep_return c s i)
  then show ?case by - (rule sched_inv_same_running [of s]; simp add: sleep_return_def upd_proc_nth)
next
  case (exit c s i status s')
  show ?case by (rule kexit_inv [OF exit.prems exit.hyps])
next
  case (wakeup s me ch)
  then show ?case by - (rule sched_inv_same_running [of s]; simp add: wakeup_nth)
next
  case (kill n s r s')
  show ?case by (rule kkill_inv [OF kill.prems kill.hyps])
next
  case (time s me)
  then show ?case by - (rule sched_inv_same_running [of s]; simp add: clock_tick_def wakeup_nth)
next
  case (account c s i p)
  have i: "mlfq_ok (procs s ! i)" using account by (simp add: sched_inv_def)
  show ?case
    using account mlfq_account_ok [OF i] by - (rule sched_inv_same_running [of s]; simp add: upd_proc_nth)
next
  case (expire c s i p s')
  have i: "mlfq_ok (procs s ! i)" using expire by (simp add: sched_inv_def)
  have "sched_inv (upd_proc i (\<lambda>_. p) s)"
    using expire mlfq_account_ok [OF i] by - (rule sched_inv_same_running [of s]; simp add: upd_proc_nth)
  with expire show ?case by - (rule yield_inv [of _ c i]; simp)
next
  case (boost s)
  then show ?case
    by - (rule sched_inv_same_running [of s]; simp add: mlfq_boost_def for_procs_nth mlfq_ok_def quantum_def)
next
  case (syscall c s i)
  then show ?case by - (rule sched_inv_same_running [of s]; simp add: upd_proc_nth)
next
  case (fork i s)
  then show ?case by - (rule sched_inv_same_running [of s]; auto simp: upd_proc_nth mlfq_ok_def quantum_def)
qed

lemma kreach_inv: "kreach s s' \<Longrightarrow> sched_inv s \<Longrightarrow> sched_inv s'"
  by (induction rule: kreach.induct) (auto intro: kstep_inv)


section \<open>Properties\<close>

text \<open>
  C9: Process switching over all CPUs. In every state that the steps of the kernel reach from a state with
  the invariant: a process is RUNNING exactly when some CPU has it as its current process, no process
  is on two CPUs, and every process has a level between 0 and 3 and an unfinished time slice.
\<close>

theorem reachable_runs_on_one_cpu:
  assumes "sched_inv s" "kreach s s'"
  shows "(\<forall>i < nproc s'. pstate (procs s' ! i) = RUNNING \<longleftrightarrow> (\<exists>!c. c < length (cpus s') \<and> cpus s' ! c = Some i))
     \<and> (\<forall>i < nproc s'. plevel (procs s' ! i) \<in> {0..3} \<and> ticks_used (procs s' ! i) < quantum ! nat (plevel (procs s' ! i)))"
proof (intro conjI allI impI)
  note inv = kreach_inv [OF assms(2,1)]
  fix i
  assume i: "i < nproc s'"
  show "pstate (procs s' ! i) = RUNNING \<longleftrightarrow> (\<exists>!c. c < length (cpus s') \<and> cpus s' ! c = Some i)"
    using inv i unfolding sched_inv_def by blast
  show "plevel (procs s' ! i) \<in> {0..3}" "ticks_used (procs s' ! i) < quantum ! nat (plevel (procs s' ! i))"
    using inv i by (auto simp: sched_inv_def mlfq_ok_def)
qed

text \<open>A table of two processes, both runnable at level 0, and two idle CPUs.\<close>

definition proc0 :: proc where
  "proc0 = \<lparr>pstate = UNUSED, pchan = None, pkilled = 0, xstate = 0, pid = 0, parent = None, kstack = 0, psz = 0,
     pagetable = 0, trapframe = 0, pname = [], syscount = 0, plevel = 0, ticks_used = 0, pticks = [0, 0, 0, 0],
     times_scheduled = 0, last_syscall_count = 0, page_faults = 0, pages_evicted = 0, pages_swapped_in = 0,
     pages_swapped_out = 0, resident_pages = 0\<rparr>"

definition two_procs :: sched where
  "two_procs = \<lparr>procs = [proc0\<lparr>pstate := RUNNABLE, pid := 1\<rparr>, proc0\<lparr>pstate := RUNNABLE, pid := 2, parent := Some 0\<rparr>, proc0],
     cpus = [None, None], nextpid = 3, initproc = Some 0, ticks = 0, mlfq_global_ticks = 0\<rparr>"

lemma all_less_3: "(\<forall>i < 3. P i) \<longleftrightarrow> P 0 \<and> P 1 \<and> P (2::nat)"
  by (auto simp: less_Suc_eq numeral_eq_Suc)

lemma two_procs_inv: "sched_inv two_procs"
proof -
  have "\<forall>i < 3. pstate (procs two_procs ! i) \<noteq> RUNNING \<and> mlfq_ok (procs two_procs ! i)"
    unfolding all_less_3 by (simp add: two_procs_def proc0_def mlfq_ok_def quantum_def)
  moreover have "\<forall>c < 2. cpus two_procs ! c = None" by (auto simp: two_procs_def less_Suc_eq numeral_eq_Suc)
  moreover have "nproc two_procs = 3" "length (cpus two_procs) = 2" by (simp_all add: two_procs_def)
  ultimately show ?thesis unfolding sched_inv_def by simp
qed

theorem reachable_runs_on_one_cpu_witness:
  "\<exists>!c. c < length (cpus (scheduler 1 two_procs)) \<and> cpus (scheduler 1 two_procs) ! c = Some 0"
proof -
  have "kreach two_procs (scheduler 1 two_procs)"
    by (rule kreach.step [OF kreach.refl], rule kstep.schedule) (simp_all add: two_procs_def)
  moreover have "0 < nproc (scheduler 1 two_procs)" "pstate (procs (scheduler 1 two_procs) ! 0) = RUNNING"
    by (simp_all add: scheduler_def two_procs_def proc0_def mlfq_levels_def upd_proc_def)
  ultimately show ?thesis using reachable_runs_on_one_cpu [OF two_procs_inv] by blast
qed

text \<open>
  C10: The scheduler's choice. A round of \<open>scheduler\<close> runs the runnable process of the lowest level, the
  first of the table among those, and gives it a new system-call mark; it leaves every other process
  as it was. It runs nothing exactly when no process of a level from 0 to 3 is runnable.
\<close>

theorem scheduler_runs_highest_priority:
  "case sched_pick mlfq_levels (procs s) of
     None \<Rightarrow> scheduler cpu s = s \<and> (\<forall>p \<in> set (procs s). pstate p = RUNNABLE \<longrightarrow> plevel p \<notin> {0..3})
   | Some i \<Rightarrow> i < nproc s \<and> pstate (procs s ! i) = RUNNABLE
       \<and> (\<forall>j < nproc s. pstate (procs s ! j) = RUNNABLE \<and> plevel (procs s ! j) \<in> {0..3} \<longrightarrow>
            plevel (procs s ! i) < plevel (procs s ! j) \<or> plevel (procs s ! i) = plevel (procs s ! j) \<and> i \<le> j)
       \<and> pstate (procs (scheduler cpu s) ! i) = RUNNING
       \<and> last_syscall_count (procs (scheduler cpu s) ! i) = syscount (procs s ! i)
       \<and> cpus (scheduler cpu s) = (cpus s)[cpu := Some i]
       \<and> (\<forall>j < nproc s. j \<noteq> i \<longrightarrow> procs (scheduler cpu s) ! j = procs s ! j)"
proof -
  have levels: "set mlfq_levels = {0..3}" "sorted mlfq_levels" by (auto simp: mlfq_levels_def)
  show ?thesis
  proof (cases "sched_pick mlfq_levels (procs s)")
    case None
    then show ?thesis using sched_pick_None [of mlfq_levels "procs s"] levels by (simp add: scheduler_def)
  next
    case (Some i)
    with sched_pick_Some [OF Some] levels show ?thesis by (simp add: scheduler_def upd_proc_nth)
  qed
qed

theorem scheduler_runs_highest_priority_witness:
  "sched_pick mlfq_levels (procs two_procs) = Some 0 \<and> pstate (procs (scheduler 0 two_procs) ! 0) = RUNNING"
  using scheduler_runs_highest_priority [where s = two_procs and cpu = 0]
  by (simp add: two_procs_def proc0_def mlfq_levels_def)

text \<open>
  C23: Yielding does not rotate. The process that \<open>scheduler\<close> has chosen and that yields at once is chosen again
  by the next round, however many processes of its level wait: the scan starts at the first process of
  the table each time.
\<close>

theorem yield_is_picked_again:
  assumes "sched_pick mlfq_levels (procs s) = Some i" "yield cpu i (scheduler cpu s) = Inr s'"
  shows "sched_pick mlfq_levels (procs s') = Some i"
proof -
  note p = sched_pick_Some [OF assms(1)]
  have i: "i < nproc s" using p by simp
  have "nproc (scheduler cpu s) = nproc s" using assms(1) by (simp add: scheduler_def)
  with assms i have s': "procs s' = (procs s)[i := (procs s ! i)\<lparr>times_scheduled := c_int (times_scheduled (procs s ! i) + 1),
      last_syscall_count := syscount (procs s ! i), pstate := RUNNABLE\<rparr>]"
    by (auto simp: yield_def sched_switch_def scheduler_def upd_proc_def)
  have same: "pstate (procs s' ! j) = pstate (procs s ! j)" "plevel (procs s' ! j) = plevel (procs s ! j)" if "j < nproc s" for j
    using p that i by (auto simp: s' nth_list_update)
  have "find_idx (\<lambda>p. pstate p = RUNNABLE \<and> plevel p = l) (procs s') = find_idx (\<lambda>p. pstate p = RUNNABLE \<and> plevel p = l) (procs s)" for l
    using same by (intro find_idx_nth_cong) (simp_all add: s')
  then have "sched_pick ls (procs s') = sched_pick ls (procs s)" for ls
    by (induction ls) (simp_all split: option.split)
  then show ?thesis using assms(1) by simp
qed

theorem yield_is_picked_again_witness:
  "\<exists>s'. yield 0 0 (scheduler 0 two_procs) = Inr s' \<and> sched_pick mlfq_levels (procs s') = Some 0"
  using yield_is_picked_again [of two_procs 0 0]
  by (simp add: two_procs_def proc0_def mlfq_levels_def scheduler_def upd_proc_def yield_def sched_switch_def)

text \<open>\<open>n\<close> ticks in a row for one process; the second component says whether the last one ended the slice.\<close>

fun account_ticks :: "nat \<Rightarrow> proc \<Rightarrow> (proc \<times> bool) res" where
  "account_ticks 0 p = Inr (p, False)"
| "account_ticks (Suc n) p = rbind (account_ticks n p) (\<lambda>(p', e). mlfq_account p')"

lemma account_ticks_within:
  assumes "mlfq_ok p" "ticks_used p = 0" "int n < quantum ! nat (plevel p)"
    and t: "0 \<le> pticks p ! nat (plevel p)" "pticks p ! nat (plevel p) < 2 ^ 30"
  shows "\<exists>p'. account_ticks n p = Inr (p', False) \<and> ticks_used p' = int n \<and> plevel p' = plevel p \<and> length (pticks p') = 4
     \<and> syscount p' = syscount p \<and> last_syscall_count p' = last_syscall_count p
     \<and> pticks p' ! nat (plevel p) = pticks p ! nat (plevel p) + int n"
  using assms(3)
proof (induction n)
  case 0
  with assms show ?case by (simp add: mlfq_ok_def)
next
  case (Suc n)
  have l: "0 \<le> plevel p" "plevel p \<le> 3" using assms(1) by (simp_all add: mlfq_ok_def)
  have q: "int n + 1 < quantum ! nat (plevel p)" "int n + 1 < 16" using Suc.prems quantum_nth [OF l] by simp_all
  have c: "c_int (int n + 1) = int n + 1" "c_int (pticks p ! nat (plevel p) + int n + 1) = pticks p ! nat (plevel p) + int n + 1"
    using q t by (intro c_int_id; simp)+
  from Suc q obtain p' where "account_ticks n p = Inr (p', False)" "ticks_used p' = int n" "plevel p' = plevel p" "length (pticks p') = 4"
    "syscount p' = syscount p" "last_syscall_count p' = last_syscall_count p" "pticks p' ! nat (plevel p) = pticks p ! nat (plevel p) + int n"
    by auto
  moreover have "nat (plevel p) < 4" using l by simp
  ultimately show ?case using l q by (auto simp: mlfq_account_def Let_def c)
qed

text \<open>
  C24: Demotion. A process that starts a time slice at level \<open>l\<close> is interrupted by ticks: each one is counted for its level,
  the slice ends at tick 2, 4, 8 or 16 of the level and not before, and at its end the process drops one
  level (from level 3 it stays) exactly when it made fewer system calls than ticks in the slice.
\<close>

theorem slice_ends_at_quantum:
  assumes "mlfq_ok p" "ticks_used p = 0" "0 \<le> pticks p ! nat (plevel p)" "pticks p ! nat (plevel p) < 2 ^ 30"
    and "n = nat (quantum ! nat (plevel p))"
  shows "(\<forall>k < n. \<exists>p'. account_ticks k p = Inr (p', False) \<and> plevel p' = plevel p \<and> ticks_used p' = int k)
     \<and> (\<exists>p'. account_ticks n p = Inr (p', True) \<and> ticks_used p' = 0
          \<and> pticks p' ! nat (plevel p) = pticks p ! nat (plevel p) + int n
          \<and> plevel p' = (if syscount p - last_syscall_count p < of_nat n then min 3 (plevel p + 1) else plevel p))"
proof
  have l: "0 \<le> plevel p" "plevel p \<le> 3" using assms(1) by (simp_all add: mlfq_ok_def)
  have n: "int n = quantum ! nat (plevel p)" "2 \<le> n" "n \<le> 16" using assms(5) quantum_nth [OF l] by simp_all
  show "\<forall>k < n. \<exists>p'. account_ticks k p = Inr (p', False) \<and> plevel p' = plevel p \<and> ticks_used p' = int k"
  proof (intro allI impI)
    fix k
    assume "k < n"
    then have "int k < quantum ! nat (plevel p)" using n(1) by simp
    from account_ticks_within [OF assms(1,2) this assms(3,4)]
    show "\<exists>p'. account_ticks k p = Inr (p', False) \<and> plevel p' = plevel p \<and> ticks_used p' = int k" by blast
  qed
  obtain m where m: "n = Suc m" using n(2) by (cases n) auto
  then have qm: "int m < quantum ! nat (plevel p)" "quantum ! nat (plevel p) = int m + 1" using n(1) by simp_all
  obtain p' where p': "account_ticks m p = Inr (p', False)" "ticks_used p' = int m" "plevel p' = plevel p" "length (pticks p') = 4"
    "syscount p' = syscount p" "last_syscall_count p' = last_syscall_count p" "pticks p' ! nat (plevel p) = pticks p ! nat (plevel p) + int m"
    using account_ticks_within [OF assms(1,2) qm(1) assms(3,4)] by blast
  have c: "c_int (int m + 1) = int m + 1" "c_int (pticks p ! nat (plevel p) + int m + 1) = pticks p ! nat (plevel p) + int m + 1"
    using m n assms(3,4) by (intro c_int_id; simp)+
  have "nat (plevel p) < 4" using l by simp
  then show "\<exists>p'. account_ticks n p = Inr (p', True) \<and> ticks_used p' = 0
      \<and> pticks p' ! nat (plevel p) = pticks p ! nat (plevel p) + int n
      \<and> plevel p' = (if syscount p - last_syscall_count p < of_nat n then min 3 (plevel p + 1) else plevel p)"
    using l p' c by (auto simp: m mlfq_account_def Let_def qm(2) add.commute [of 1] add.assoc)
qed

theorem slice_ends_at_quantum_witness:
  "\<exists>p'. account_ticks 2 proc0 = Inr (p', True) \<and> plevel p' = 1 \<and> pticks p' ! 0 = 2"
proof -
  have "mlfq_ok proc0" "ticks_used proc0 = 0" "nat (quantum ! nat (plevel proc0)) = 2" "plevel proc0 = 0"
    "pticks proc0 ! 0 = 0" "syscount proc0 = 0" "last_syscall_count proc0 = 0"
    by (simp_all add: proc0_def mlfq_ok_def quantum_def)
  with slice_ends_at_quantum [of proc0 2] show ?thesis by auto
qed



end
