(* ===== verification/Phys_Mem.thy ===== *)
theory Phys_Mem
  imports Xv6_Prelude
begin

text \<open>
  Physical memory as the kernel addresses it: pages of 4096 bytes, read by the byte (user data) or by the
  64-bit little-endian word (page-table entries, links of the free list).

  The macros and addresses that \<open>kernel/kalloc.c\<close>, \<open>kernel/vm.c\<close> and \<open>kernel/proc.c\<close> take from the headers
  of the machine are the record \<open>riscv_h\<close>, an argument of every definition that uses them; \<open>sv39\<close> states
  what the architecture and the comments in \<open>vm.c\<close> document of them.
\<close>

unbundle bit_operations_syntax


section \<open>Bytes and words of a page\<close>

abbreviation page_bytes :: nat where
  "page_bytes \<equiv> 4096"

text \<open>\<open>memmove\<close> of some bytes into a page, and out of it.\<close>

definition put_bytes :: "nat \<Rightarrow> u8 list \<Rightarrow> u8 list \<Rightarrow> u8 list" where
  "put_bytes off bs pg = take off pg @ bs @ drop (off + length bs) pg"

definition get_bytes :: "nat \<Rightarrow> nat \<Rightarrow> u8 list \<Rightarrow> u8 list" where
  "get_bytes off n pg = take n (drop off pg)"

lemma length_put_bytes [simp]: "off + length bs \<le> length pg \<Longrightarrow> length (put_bytes off bs pg) = length pg"
  by (simp add: put_bytes_def)

lemma get_put_bytes: "off + length bs \<le> length pg \<Longrightarrow> get_bytes off (length bs) (put_bytes off bs pg) = bs"
  by (simp add: put_bytes_def get_bytes_def)

lemma put_bytes_nth:
  "off + length bs \<le> length pg \<Longrightarrow> k < length pg \<Longrightarrow>
   put_bytes off bs pg ! k = (if off \<le> k \<and> k < off + length bs then bs ! (k - off) else pg ! k)"
  by (auto simp: put_bytes_def nth_append)

text \<open>The 64-bit words.\<close>

definition le64 :: "u8 list \<Rightarrow> u64" where
  "le64 bs = foldr (\<lambda>b w. ucast b OR push_bit 8 w) bs 0"

definition bytes64 :: "u64 \<Rightarrow> u8 list" where
  "bytes64 w = map (\<lambda>k. ucast (drop_bit (8 * k) w)) [0..<8]"

definition get64 :: "u8 list \<Rightarrow> nat \<Rightarrow> u64" where
  "get64 pg i = le64 (get_bytes (8 * i) 8 pg)"

definition put64 :: "nat \<Rightarrow> u64 \<Rightarrow> u8 list \<Rightarrow> u8 list" where
  "put64 i w pg = put_bytes (8 * i) (bytes64 w) pg"

lemma length_bytes64 [simp]: "length (bytes64 w) = 8"
  by (simp add: bytes64_def)

lemma bit_le64: "bit (le64 bs) n \<longleftrightarrow> n < 64 \<and> n < 8 * length bs \<and> bit (bs ! (n div 8)) (n mod 8)"
proof (induction bs arbitrary: n)
  case Nil
  then show ?case by (simp add: le64_def)
next
  case (Cons b bs)
  have le: "le64 (b # bs) = ucast b OR push_bit 8 (le64 bs)" by (simp add: le64_def)
  have b: "bit b k \<Longrightarrow> k < 8" for k using bit_imp_le_length [of b k] by simp
  show ?case
  proof (cases "n < 8")
    case True
    then show ?thesis unfolding le by (auto simp: bit_or_iff bit_ucast_iff bit_push_bit_iff)
  next
    case False
    then obtain k where k: "n = k + 8" by (metis add.commute le_Suc_ex not_less)
    have "(k + 8) div 8 = Suc (k div 8)" by simp
    then show ?thesis unfolding le k using b [of "k + 8"]
      by (auto simp: bit_or_iff bit_ucast_iff bit_push_bit_iff Cons.IH)
  qed
qed

lemma le64_bytes64 [simp]: "le64 (bytes64 w) = w"
proof (rule bit_word_eqI)
  fix n
  assume n: "n < LENGTH(64)"
  then have "n div 8 < 8" "8 * (n div 8) + n mod 8 = n" by simp_all
  then have "bit (bytes64 w ! (n div 8)) (n mod 8) = bit w n"
    by (simp add: bytes64_def bit_ucast_iff bit_drop_bit_eq)
  then show "bit (le64 (bytes64 w)) n = bit w n" using n by (simp add: bit_le64)
qed

lemma length_put64 [simp]: "8 * i + 8 \<le> length pg \<Longrightarrow> length (put64 i w pg) = length pg"
  by (simp add: put64_def)

lemma get64_put64:
  assumes "8 * i + 8 \<le> length pg" "8 * j + 8 \<le> length pg"
  shows "get64 (put64 i w pg) j = (if j = i then w else get64 pg j)"
proof -
  have "get_bytes (8 * j) 8 (put64 i w pg) = get_bytes (8 * j) 8 pg" if "j \<noteq> i"
  proof (rule nth_equalityI)
    fix k
    assume "k < length (get_bytes (8 * j) 8 (put64 i w pg))"
    then have k: "k < 8" by (simp add: get_bytes_def)
    from that have "8 * j + k < 8 * i \<or> 8 * i + 8 \<le> 8 * j + k" using k by (cases "j < i") auto
    then show "get_bytes (8 * j) 8 (put64 i w pg) ! k = get_bytes (8 * j) 8 pg ! k"
      using k assms by (auto simp: put64_def get_bytes_def put_bytes_nth)
  qed (use assms in \<open>simp add: get_bytes_def\<close>)
  moreover have "get_bytes (8 * i) 8 (put64 i w pg) = bytes64 w"
    using get_put_bytes [of "8 * i" "bytes64 w" pg] assms(1) by (simp add: put64_def)
  ultimately show ?thesis by (auto simp: get64_def)
qed

lemma le64_replicate_0 [simp]: "le64 (replicate n 0) = 0"
  by (induction n) (simp_all add: le64_def)

lemma get64_zero_page [simp]: "get64 (replicate n 0) i = 0"
  by (simp add: get64_def get_bytes_def)


section \<open>The machine headers\<close>

record riscv_h =
  PTE_V :: u64
  PTE_R :: u64
  PTE_W :: u64
  PTE_X :: u64
  PTE_U :: u64
  PTE2PA :: "u64 \<Rightarrow> u64"
  PA2PTE :: "u64 \<Rightarrow> u64"
  PTE_FLAGS :: "u64 \<Rightarrow> u64"
  PX :: "nat \<Rightarrow> u64 \<Rightarrow> nat"
  MAXVA :: u64
  TRAMPOLINE :: u64
  TRAPFRAME :: u64
  PGROUNDUP :: "u64 \<Rightarrow> u64"
  PGROUNDDOWN :: "u64 \<Rightarrow> u64"
  kernel_end :: u64
  PHYSTOP :: u64
  trampoline :: u64

definition page_aligned :: "u64 \<Rightarrow> bool" where
  "page_aligned a \<longleftrightarrow> a mod 4096 = 0"

lemma page_aligned_bits: "page_aligned a \<longleftrightarrow> (\<forall>n < 12. \<not> bit a n)"
proof -
  have "a mod 4096 = take_bit 12 a" by (simp add: take_bit_eq_mod)
  then have "page_aligned a \<longleftrightarrow> take_bit 12 a = 0" by (simp add: page_aligned_def)
  also have "\<dots> \<longleftrightarrow> (\<forall>n < 12. \<not> bit a n)" by (auto simp: bit_eq_iff bit_take_bit_iff)
  finally show ?thesis .
qed

lemma page_aligned_unat: "page_aligned a \<longleftrightarrow> 4096 dvd unat a"
proof -
  have "page_aligned a \<longleftrightarrow> unat (a mod 4096) = 0" by (simp add: page_aligned_def unat_eq_zero)
  also have "\<dots> \<longleftrightarrow> 4096 dvd unat a" by (simp add: unat_mod_distrib dvd_eq_mod_eq_0)
  finally show ?thesis .
qed

lemma page_aligned_0 [simp]: "page_aligned 0"
  by (simp add: page_aligned_def)

lemma below_bits:
  assumes "(w::u64) < 2 ^ n" "n \<le> k"
  shows "\<not> bit w k"
proof -
  have n: "n < 64"
  proof (rule ccontr)
    assume "\<not> n < 64"
    then have "(2::u64) ^ n = 0" by (simp add: exp_eq_zero_iff)
    with assms(1) show False by simp
  qed
  then have "(2::nat) ^ n < 2 ^ 64" by (intro power_strict_increasing) simp_all
  then have "unat ((2::u64) ^ n) = 2 ^ n" using unat_of_nat_small [of "2 ^ n", where ?'a = 64] by simp
  then have "unat w < 2 ^ n" using assms(1) by (simp add: word_less_nat_alt)
  also have "(2::nat) ^ n \<le> 2 ^ k" using assms(2) by (intro power_increasing) simp_all
  finally have "\<not> bit (unat w) k" by (simp add: bit_iff_odd)
  then show ?thesis using bit_imp_le_length [of w k] by (auto simp: bit_unsigned_iff)
qed

lemma flags_less_iff: "(w::u64) < 1024 \<longleftrightarrow> (\<forall>n \<ge> 10. \<not> bit w n)"
proof
  assume "w < 1024"
  then show "\<forall>n \<ge> 10. \<not> bit w n" using below_bits [of w 10] by simp
next
  assume "\<forall>n \<ge> 10. \<not> bit w n"
  then have "take_bit 10 w = w" by (intro bit_word_eqI) (metis bit_take_bit_iff not_less)
  then have "unat w = take_bit 10 (unat w)" by (metis unsigned_take_bit_eq)
  also have "\<dots> < 1024" using take_bit_nat_less_exp [of 10 "unat w"] by simp
  finally show "w < 1024" by (simp add: word_less_nat_alt)
qed

lemma flags_or_less: "(v::u64) < 1024 \<Longrightarrow> w < 1024 \<Longrightarrow> v OR w < 1024"
  by (simp add: flags_less_iff bit_or_iff)

lemma page_base_bits: "(a::u64) AND NOT 4095 = push_bit 12 (drop_bit 12 a)"
proof -
  have m: "(4095::u64) = mask 12" by (simp add: mask_eq_exp_minus_1)
  show ?thesis unfolding m
  proof (rule bit_word_eqI)
    fix n
    assume "n < LENGTH(64)"
    then show "bit (a AND NOT (mask 12)) n = bit (push_bit 12 (drop_bit 12 a)) n"
      by (cases "n < 12") (simp_all add: bit_and_iff bit_not_iff bit_mask_iff bit_push_bit_iff bit_drop_bit_eq)
  qed
qed

lemma page_base_unat: "unat ((a::u64) AND NOT 4095) = unat a div 4096 * 4096"
proof -
  have "a div 4096 = of_nat (unat (a div 4096))" by simp
  then have "a div 4096 = of_nat (unat a div 4096)" by (simp only: unat_div_distrib) simp
  then have "push_bit 12 (drop_bit 12 a) = of_nat (unat a div 4096 * 4096)"
    by (simp add: push_bit_eq_mult drop_bit_eq_div)
  moreover have "unat a div 4096 * 4096 < 2 ^ LENGTH(64)"
    using unsigned_less [of a] by (intro le_less_trans [OF div_times_less_eq_dividend])
  ultimately show ?thesis by (simp only: page_base_bits unat_of_nat_small)
qed

text \<open>
  The Sv39 scheme (comment above \<open>walk\<close> in \<open>vm.c\<close>): three levels of 9 bits above a 12-bit offset; an entry
  holds a page address and ten flag bits; the trampoline is the highest user page, the trapframe the page below.
\<close>

locale sv39 =
  fixes h :: riscv_h
  assumes flag_bits: "PTE_V h = 1" "PTE_R h = 2" "PTE_W h = 4" "PTE_X h = 8" "PTE_U h = 16"
    and pte2pa: "page_aligned pa \<Longrightarrow> pa < 2 ^ 56 \<Longrightarrow> fl < 1024 \<Longrightarrow> PTE2PA h (PA2PTE h pa OR fl) = pa"
    and pte_flags: "page_aligned pa \<Longrightarrow> pa < 2 ^ 56 \<Longrightarrow> fl < 1024 \<Longrightarrow> PTE_FLAGS h (PA2PTE h pa OR fl) = fl"
    and pa2pte_flags: "PA2PTE h pa AND 1023 = 0"
    and px: "l \<le> 2 \<Longrightarrow> PX h l va = unat (take_bit 9 (drop_bit (12 + 9 * l) va))"
    and maxva: "2 ^ 20 \<le> MAXVA h" "MAXVA h \<le> 2 ^ 39" "page_aligned (MAXVA h)"
    and top_pages: "TRAMPOLINE h = MAXVA h - 4096" "TRAPFRAME h = MAXVA h - 8192"
    and pgrounddown: "PGROUNDDOWN h a = a AND NOT 4095"
    and pgroundup: "PGROUNDUP h a = (a + 4095) AND NOT 4095"
    and ram: "0 < kernel_end h" "kernel_end h \<le> PHYSTOP h" "PHYSTOP h \<le> 2 ^ 56"
begin

lemma px_less: "l \<le> 2 \<Longrightarrow> PX h l va < 512"
proof -
  have "unat (take_bit 9 w) < 512" for w :: u64
    using take_bit_nat_less_exp [of 9 "unat w"] by (simp add: unsigned_take_bit_eq)
  then show "l \<le> 2 \<Longrightarrow> PX h l va < 512" by (simp add: px)
qed

lemma pgrounddown_unat: "unat (PGROUNDDOWN h a) = unat a div 4096 * 4096"
  unfolding pgrounddown by (rule page_base_unat)

lemma pgrounddown_aligned [simp]: "page_aligned (PGROUNDDOWN h a)"
  by (simp add: page_aligned_unat pgrounddown_unat)

lemma pgrounddown_id: "page_aligned a \<Longrightarrow> PGROUNDDOWN h a = a"
  by (simp add: word_unat_eq_iff pgrounddown_unat page_aligned_unat)

lemma pgrounddown_le: "PGROUNDDOWN h a \<le> a"
  by (simp add: word_le_nat_alt pgrounddown_unat)

lemma pgroundup_unat:
  assumes "a \<le> 2 ^ 56"
  shows "unat (PGROUNDUP h a) = (unat a + 4095) div 4096 * 4096"
proof -
  have "unat (a + 4095) = unat a + 4095" using assms by (subst unat_plus_if') (simp add: word_le_nat_alt)
  then show ?thesis by (simp only: pgroundup page_base_unat)
qed

lemma pgroundup_aligned [simp]: "page_aligned (PGROUNDUP h a)"
  unfolding page_aligned_unat pgroundup page_base_unat by simp

text \<open>A page address below \<open>MAXVA\<close> is determined by its three indices.\<close>

lemma px_inj:
  assumes "page_aligned a" "page_aligned b" "a < MAXVA h" "b < MAXVA h"
    and eq: "PX h 2 a = PX h 2 b" "PX h 1 a = PX h 1 b" "PX h 0 a = PX h 0 b"
  shows "a = b"
proof (rule bit_word_eqI)
  have lev: "bit a (12 + 9 * l + k) = bit b (12 + 9 * l + k)" if "l \<le> 2" "k < 9" for l k
  proof -
    have "PX h l a = PX h l b" using eq that(1) by (auto simp: numeral_2_eq_2 le_Suc_eq)
    then have "take_bit 9 (drop_bit (12 + 9 * l) a) = take_bit 9 (drop_bit (12 + 9 * l) b)"
      using that(1) by (simp add: px word_unat_eq_iff)
    then have "bit (take_bit 9 (drop_bit (12 + 9 * l) a)) k = bit (take_bit 9 (drop_bit (12 + 9 * l) b)) k" by simp
    then show ?thesis using that(2) by (simp add: bit_take_bit_iff bit_drop_bit_eq)
  qed
  have "a < 2 ^ 39" "b < 2 ^ 39" using assms(3,4) maxva(2) by simp_all
  note high = this [THEN below_bits]
  fix n
  assume n: "n < LENGTH(64)"
  consider "n < 12" | "12 \<le> n" "n < 21" | "21 \<le> n" "n < 30" | "30 \<le> n" "n < 39" | "39 \<le> n" by linarith
  then show "bit a n = bit b n"
  proof cases
    case 1
    with assms(1,2) show ?thesis by (simp add: page_aligned_bits)
  next
    case 2
    with lev [of 0 "n - 12"] show ?thesis by simp
  next
    case 3
    with lev [of 1 "n - 21"] show ?thesis by simp
  next
    case 4
    with lev [of 2 "n - 30"] show ?thesis by simp
  next
    case 5
    with high show ?thesis by blast
  qed
qed

end

text \<open>The header values of a 128 MB RISC-V machine.\<close>

definition riscv_std :: riscv_h where
  "riscv_std = \<lparr>PTE_V = 1, PTE_R = 2, PTE_W = 4, PTE_X = 8, PTE_U = 16,
     PTE2PA = (\<lambda>pte. push_bit 12 (drop_bit 10 pte)), PA2PTE = (\<lambda>pa. push_bit 10 (drop_bit 12 pa)),
     PTE_FLAGS = (\<lambda>pte. pte AND 1023), PX = (\<lambda>l va. unat (take_bit 9 (drop_bit (12 + 9 * l) va))),
     MAXVA = 2 ^ 38, TRAMPOLINE = 2 ^ 38 - 4096, TRAPFRAME = 2 ^ 38 - 8192,
     PGROUNDUP = (\<lambda>a. (a + 4095) AND NOT 4095), PGROUNDDOWN = (\<lambda>a. a AND NOT 4095),
     kernel_end = 2147680256, PHYSTOP = 2281701376, trampoline = 2147512320\<rparr>"

interpretation std39: sv39 riscv_std
proof
  have pa: "\<not> bit pa n" if "page_aligned pa" "pa < 2 ^ 56" "n < 12 \<or> 56 \<le> n" for pa :: u64 and n
    using that below_bits [of pa 56 n] by (auto simp: page_aligned_bits)
  have fl: "\<not> bit f n" if "f < 1024" "10 \<le> n" for f :: u64 and n
    using that below_bits [of f 10 n] by simp
  show "PTE2PA riscv_std (PA2PTE riscv_std pa OR f) = pa" if "page_aligned pa" "pa < 2 ^ 56" "f < 1024" for pa f :: u64
  proof (rule bit_word_eqI)
    fix n
    assume "n < LENGTH(64)"
    moreover have "\<not> bit pa n" if "n < 12" using pa [of pa n] that \<open>page_aligned pa\<close> \<open>pa < 2 ^ 56\<close> by blast
    moreover have "\<not> bit f (10 + (n - 12))" using fl [OF that(3)] by simp
    ultimately show "bit (PTE2PA riscv_std (PA2PTE riscv_std pa OR f)) n = bit pa n"
      by (cases "n < 12") (auto simp: riscv_std_def bit_push_bit_iff bit_drop_bit_eq bit_or_iff)
  qed
  have m: "w AND 1023 = take_bit 10 w" for w :: u64
    by (simp add: take_bit_eq_mask mask_eq_exp_minus_1)
  show "PTE_FLAGS riscv_std (PA2PTE riscv_std pa OR f) = f" if "page_aligned pa" "pa < 2 ^ 56" "f < 1024" for pa f :: u64
    using fl [OF that(3)]
    by (intro bit_word_eqI) (auto simp: riscv_std_def m bit_push_bit_iff bit_or_iff bit_take_bit_iff not_less)
  show "PA2PTE riscv_std pa AND 1023 = 0" for pa
    by (intro bit_word_eqI) (auto simp: riscv_std_def m bit_push_bit_iff bit_take_bit_iff)
qed (simp_all add: riscv_std_def page_aligned_def)

end
