(* ===== verification/Kalloc.thy ===== *)
theory Kalloc
  imports Phys_Mem
begin

text \<open>
  The page allocator of \<open>kernel/kalloc.c\<close>: \<open>kfree\<close>, \<open>freerange\<close>, the allocator part of \<open>kinit\<close>, and
  \<open>kalloc\<close>. The free list is the linked list of the code: its head is a page address, the link of a free page is
  the first word of the page. \<open>free_list\<close> relates it to the list of free pages, and the contract
  \<open>page_allocator\<close> is what the users of the allocator rely on.
\<close>

section \<open>Operations\<close>

record kmem =
  pm :: "u64 \<Rightarrow> u8 list"
  freelist :: u64

definition set_page :: "u64 \<Rightarrow> u8 list \<Rightarrow> kmem \<Rightarrow> kmem" where
  "set_page a pg m = m\<lparr>pm := (pm m)(a := pg)\<rparr>"

definition kfree :: "riscv_h \<Rightarrow> u64 \<Rightarrow> kmem \<Rightarrow> kmem res" where
  "kfree h pa m =
     panic_if (pa mod 4096 \<noteq> 0 \<or> pa < kernel_end h \<or> pa \<ge> PHYSTOP h) ''kfree''
       (let m1 = set_page pa (replicate page_bytes 1) m;
            m2 = set_page pa (put64 0 (freelist m) (pm m1 pa)) m1
        in Inr (m2\<lparr>freelist := pa\<rparr>))"

text \<open>The loop of \<open>freerange\<close>; the fuel is the number of pages up to the end of the range, and one more.\<close>

fun freerange_loop :: "riscv_h \<Rightarrow> nat \<Rightarrow> u64 \<Rightarrow> u64 \<Rightarrow> kmem \<Rightarrow> kmem res" where
  "freerange_loop h 0 p pa_end m = Inl OutOfFuel"
| "freerange_loop h (Suc n) p pa_end m =
     (if p + 4096 \<le> pa_end then rbind (kfree h p m) (freerange_loop h n (p + 4096) pa_end) else Inr m)"

definition freerange :: "riscv_h \<Rightarrow> u64 \<Rightarrow> u64 \<Rightarrow> kmem \<Rightarrow> kmem res" where
  "freerange h pa_start pa_end m =
     (let p = PGROUNDUP h pa_start in freerange_loop h (Suc (unat (pa_end - p) div page_bytes)) p pa_end m)"

definition kalloc :: "kmem \<Rightarrow> u64 \<times> kmem" where
  "kalloc m =
     (let r = freelist m
      in if r \<noteq> 0 then (r, set_page r (replicate page_bytes 5) (m\<lparr>freelist := get64 (pm m r) 0\<rparr>)) else (r, m))"


section \<open>The free list\<close>

definition phys_ok :: "riscv_h \<Rightarrow> u64 \<Rightarrow> bool" where
  "phys_ok h a \<longleftrightarrow> page_aligned a \<and> kernel_end h \<le> a \<and> a < PHYSTOP h"

fun free_chain :: "(u64 \<Rightarrow> u8 list) \<Rightarrow> u64 \<Rightarrow> u64 list \<Rightarrow> bool" where
  "free_chain p a [] \<longleftrightarrow> a = 0"
| "free_chain p a (x # xs) \<longleftrightarrow> a = x \<and> x \<noteq> 0 \<and> free_chain p (get64 (p x) 0) xs"

definition free_list :: "riscv_h \<Rightarrow> kmem \<Rightarrow> u64 list \<Rightarrow> bool" where
  "free_list h m xs \<longleftrightarrow> free_chain (pm m) (freelist m) xs \<and> distinct xs \<and> (\<forall>x \<in> set xs. phys_ok h x)"

lemma set_page_sel [simp]:
  "pm (set_page a pg m) = (pm m)(a := pg)" "freelist (set_page a pg m) = freelist m"
  by (simp_all add: set_page_def)

lemma free_chain_cong:
  "(\<And>x. x \<in> set xs \<Longrightarrow> p x = p' x) \<Longrightarrow> free_chain p a xs = free_chain p' a xs"
  by (induction xs arbitrary: a) auto

lemma free_chain_unique: "free_chain p a xs \<Longrightarrow> free_chain p a ys \<Longrightarrow> xs = ys"
proof (induction xs arbitrary: a ys)
  case Nil
  then show ?case by (cases ys) auto
next
  case (Cons x xs)
  then show ?case by (cases ys) auto
qed

lemma free_list_frame:
  "free_list h m xs \<Longrightarrow> freelist m' = freelist m \<Longrightarrow> (\<And>x. x \<in> set xs \<Longrightarrow> pm m' x = pm m x) \<Longrightarrow> free_list h m' xs"
  using free_chain_cong [of xs "pm m'" "pm m"] by (simp add: free_list_def)

lemma free_list_set_page: "free_list h m xs \<Longrightarrow> a \<notin> set xs \<Longrightarrow> free_list h (set_page a pg m) xs"
  by (rule free_list_frame) auto

lemma kalloc_empty:
  assumes "free_list h m []"
  shows "kalloc m = (0, m)"
  using assms by (simp add: free_list_def kalloc_def)

lemma kalloc_pop:
  assumes "free_list h m (x # xs)"
  shows "kalloc m = (x, m\<lparr>freelist := get64 (pm m x) 0, pm := (pm m)(x := replicate page_bytes 5)\<rparr>)"
    and "free_list h (m\<lparr>freelist := get64 (pm m x) 0, pm := (pm m)(x := pg)\<rparr>) xs"
    and "x \<noteq> 0" and "phys_ok h x" and "x \<notin> set xs"
proof -
  show *: "x \<noteq> 0" "phys_ok h x" "x \<notin> set xs" using assms by (auto simp: free_list_def)
  show "kalloc m = (x, m\<lparr>freelist := get64 (pm m x) 0, pm := (pm m)(x := replicate page_bytes 5)\<rparr>)"
    using assms by (simp add: free_list_def kalloc_def set_page_def)
  have "free_chain ((pm m)(x := pg)) (get64 (pm m x) 0) xs = free_chain (pm m) (get64 (pm m x) 0) xs"
    using * by (intro free_chain_cong) auto
  then show "free_list h (m\<lparr>freelist := get64 (pm m x) 0, pm := (pm m)(x := pg)\<rparr>) xs"
    using assms by (simp add: free_list_def)
qed

lemma kfree_push:
  assumes "free_list h m xs" "phys_ok h pa" "pa \<notin> set xs" "0 < kernel_end h"
  shows "\<exists>pg. length pg = page_bytes \<and> kfree h pa m = Inr (m\<lparr>pm := (pm m)(pa := pg), freelist := pa\<rparr>)
    \<and> free_list h (m\<lparr>pm := (pm m)(pa := pg), freelist := pa\<rparr>) (pa # xs)"
proof -
  let ?pg = "put64 0 (freelist m) (replicate page_bytes 1)"
  have "pa \<noteq> 0" using assms(2,4) by (auto simp: phys_ok_def)
  moreover have "free_chain ((pm m)(pa := ?pg)) (freelist m) xs = free_chain (pm m) (freelist m) xs"
    using assms(3) by (intro free_chain_cong) auto
  ultimately have "free_list h (m\<lparr>pm := (pm m)(pa := ?pg), freelist := pa\<rparr>) (pa # xs)"
    using assms by (simp add: free_list_def get64_put64)
  moreover have "kfree h pa m = Inr (m\<lparr>pm := (pm m)(pa := ?pg), freelist := pa\<rparr>)"
    using assms(2) by (auto simp: kfree_def phys_ok_def page_aligned_def [symmetric] panic_if_def set_page_def)
  ultimately show ?thesis by (intro exI [of _ ?pg]) simp
qed

lemma kfree_panics: "\<not> phys_ok h pa \<Longrightarrow> kfree h pa m = Inl (Panic ''kfree'')"
  by (auto simp: kfree_def phys_ok_def page_aligned_def [symmetric] panic_if_def)


section \<open>The contract of the allocator\<close>

text \<open>Several calls in a row.\<close>

fun alloc_n :: "('s \<Rightarrow> u64 \<times> 's) \<Rightarrow> nat \<Rightarrow> 's \<Rightarrow> u64 list \<times> 's" where
  "alloc_n alloc 0 s = ([], s)"
| "alloc_n alloc (Suc n) s = (let (x, s1) = alloc s; (ys, s2) = alloc_n alloc n s1 in (x # ys, s2))"

fun free_all :: "(u64 \<Rightarrow> 's \<Rightarrow> 's res) \<Rightarrow> u64 list \<Rightarrow> 's \<Rightarrow> 's res" where
  "free_all free [] s = Inr s"
| "free_all free (x # xs) s = rbind (free_all free xs s) (free x)"

text \<open>
  \<open>avail s xs\<close>: the pages \<open>xs\<close> are free, the next one first. A page that is not free keeps its content.
\<close>

locale page_allocator =
  fixes alloc :: "'s \<Rightarrow> u64 \<times> 's"
    and free :: "u64 \<Rightarrow> 's \<Rightarrow> 's res"
    and avail :: "'s \<Rightarrow> u64 list \<Rightarrow> bool"
    and content :: "'s \<Rightarrow> u64 \<Rightarrow> u8 list"
    and usable :: "u64 \<Rightarrow> bool"
  assumes avail_pages: "avail s xs \<Longrightarrow> distinct xs \<and> (\<forall>x \<in> set xs. usable x \<and> x \<noteq> 0)"
    and alloc_none: "avail s [] \<Longrightarrow> alloc s = (0, s)"
    and alloc_some: "avail s (x # xs) \<Longrightarrow>
          \<exists>s'. alloc s = (x, s') \<and> avail s' xs \<and> (\<forall>a. a \<noteq> x \<longrightarrow> content s' a = content s a)"
    and free_some: "avail s xs \<Longrightarrow> usable x \<Longrightarrow> x \<notin> set xs \<Longrightarrow>
          \<exists>s'. free x s = Inr s' \<and> avail s' (x # xs) \<and> (\<forall>a. a \<noteq> x \<longrightarrow> content s' a = content s a)"
begin

text \<open>Allocating as many pages as there are gives them all; one more gives the null pointer.\<close>

lemma alloc_n_all:
  assumes "avail s (xs @ ys)"
  shows "\<exists>s'. alloc_n alloc (length xs) s = (xs, s') \<and> avail s' ys \<and> (\<forall>a. a \<notin> set xs \<longrightarrow> content s' a = content s a)"
  using assms
proof (induction xs arbitrary: s)
  case Nil
  then show ?case by simp
next
  case (Cons x xs)
  then obtain s1 where "alloc s = (x, s1)" "avail s1 (xs @ ys)" "\<forall>a. a \<noteq> x \<longrightarrow> content s1 a = content s a"
    using alloc_some [of s x "xs @ ys"] by auto
  with Cons.IH [of s1] show ?case by auto
qed

lemma free_all_gives_back:
  assumes "avail s ys" "distinct (xs @ ys)" "\<forall>x \<in> set xs. usable x"
  shows "\<exists>s'. free_all free xs s = Inr s' \<and> avail s' (xs @ ys) \<and> (\<forall>a. a \<notin> set xs \<longrightarrow> content s' a = content s a)"
  using assms
proof (induction xs)
  case Nil
  then show ?case by simp
next
  case (Cons x xs)
  then obtain s1 where "free_all free xs s = Inr s1" "avail s1 (xs @ ys)" "\<forall>a. a \<notin> set xs \<longrightarrow> content s1 a = content s a"
    by auto
  with free_some [of s1 "xs @ ys" x] Cons.prems show ?case by auto
qed

end

sublocale sv39 \<subseteq> alloc: page_allocator kalloc "kfree h" "free_list h" pm "phys_ok h"
proof
  fix s xs
  assume "free_list h s xs"
  then show "distinct xs \<and> (\<forall>x \<in> set xs. phys_ok h x \<and> x \<noteq> 0)"
    using ram(1) by (auto simp: free_list_def phys_ok_def)
qed (use kalloc_empty kalloc_pop kfree_push ram in fastforce)+


section \<open>Start of the allocator\<close>

text \<open>The pages that \<open>freerange\<close> adds, in address order.\<close>

definition range_pages :: "u64 \<Rightarrow> nat \<Rightarrow> u64 list" where
  "range_pages p k = map (\<lambda>i. p + 4096 * of_nat i) [0..<k]"

lemma range_pages_Suc: "range_pages p (Suc k) = p # range_pages (p + 4096) k"
  by (simp add: range_pages_def upt_conv_Cons map_Suc_upt [symmetric] algebra_simps del: upt_Suc)

lemma unat_next_page: "(p::u64) \<le> 2 ^ 56 \<Longrightarrow> unat (p + 4096) = unat p + 4096"
  by (subst unat_plus_if') (simp add: word_le_nat_alt)

lemma page_aligned_next: "(p::u64) \<le> 2 ^ 56 \<Longrightarrow> page_aligned p \<Longrightarrow> page_aligned (p + 4096)"
  by (simp add: page_aligned_unat unat_next_page)

context sv39
begin

lemma freerange_loop_spec:
  assumes "free_list h m xs" "page_aligned p" "kernel_end h \<le> p" "pa_end \<le> PHYSTOP h" "p \<le> pa_end"
    and "k = (unat pa_end - unat p) div page_bytes" "\<forall>x \<in> set xs. x < p"
  shows "\<exists>m'. freerange_loop h (Suc k) p pa_end m = Inr m' \<and> free_list h m' (rev (range_pages p k) @ xs)
     \<and> (\<forall>a. pa_end \<le> a \<longrightarrow> pm m' a = pm m a)"
  using assms
proof (induction k arbitrary: p m xs)
  case 0
  have "p \<le> 2 ^ 56" using 0 ram(3) by simp
  from unat_next_page [OF this] have "\<not> p + 4096 \<le> pa_end"
    using 0 by (simp add: word_le_nat_alt)
  then show ?case using 0 by (simp add: range_pages_def)
next
  case (Suc k)
  have p: "p \<le> 2 ^ 56" "unat p \<le> unat pa_end" using Suc.prems ram(3) by (simp_all add: word_le_nat_alt)
  note nx = unat_next_page [OF p(1)]
  have fits: "unat p + 4096 \<le> unat pa_end"
  proof (rule ccontr)
    assume "\<not> unat p + 4096 \<le> unat pa_end"
    then have "(unat pa_end - unat p) div page_bytes = 0" by simp
    with Suc.prems(6) show False by simp
  qed
  then have step: "p + 4096 \<le> pa_end" "p < p + 4096" by (simp_all add: word_le_nat_alt word_less_nat_alt nx)
  have "phys_ok h p" using Suc.prems step by (simp add: phys_ok_def)
  moreover have "p \<notin> set xs" using Suc.prems(7) by auto
  ultimately obtain pg where pg: "kfree h p m = Inr (m\<lparr>pm := (pm m)(p := pg), freelist := p\<rparr>)"
    "free_list h (m\<lparr>pm := (pm m)(p := pg), freelist := p\<rparr>) (p # xs)"
    using kfree_push [OF Suc.prems(1)] ram(1) by blast
  have k: "k = (unat pa_end - unat (p + 4096)) div page_bytes"
  proof -
    have "unat pa_end - unat p = (unat pa_end - unat (p + 4096)) + 4096" using fits by (simp add: nx)
    then show ?thesis using Suc.prems(6) by simp
  qed
  have "\<forall>x \<in> set (p # xs). x < p + 4096" using Suc.prems(7) step(2) by auto
  moreover have "kernel_end h \<le> p + 4096" using Suc.prems(3) step(2) by simp
  ultimately
  obtain m' where m': "freerange_loop h (Suc k) (p + 4096) pa_end (m\<lparr>pm := (pm m)(p := pg), freelist := p\<rparr>) = Inr m'"
    "free_list h m' (rev (range_pages (p + 4096) k) @ p # xs)"
    "\<forall>a. pa_end \<le> a \<longrightarrow> pm m' a = ((pm m)(p := pg)) a"
    using Suc.IH [OF pg(2) page_aligned_next [OF p(1) Suc.prems(2)] _ Suc.prems(4) step(1) k] by (auto simp del: freerange_loop.simps)
  have "freerange_loop h (Suc (Suc k)) p pa_end m = Inr m'"
    using m'(1) pg(1) step(1) by (subst freerange_loop.simps) (simp del: freerange_loop.simps)
  moreover have "\<forall>a. pa_end \<le> a \<longrightarrow> pm m' a = pm m a" using m'(3) step by auto
  ultimately show ?case using m'(2) by (simp add: range_pages_Suc del: freerange_loop.simps)
qed

lemmas kalloc_n_all = alloc.alloc_n_all
lemmas kfree_all = alloc.free_all_gives_back

lemma freerange_all:
  assumes "freelist m = 0" "PGROUNDUP h (kernel_end h) \<le> PHYSTOP h"
    and "n = (unat (PHYSTOP h) - unat (PGROUNDUP h (kernel_end h))) div page_bytes"
  shows "\<exists>m'. freerange h (kernel_end h) (PHYSTOP h) m = Inr m'
     \<and> free_list h m' (rev (range_pages (PGROUNDUP h (kernel_end h)) n))"
proof -
  let ?p = "PGROUNDUP h (kernel_end h)"
  have "unat (PHYSTOP h - ?p) = unat (PHYSTOP h) - unat ?p"
    using assms(2) by (simp add: unat_sub)
  moreover have "kernel_end h \<le> ?p" using ram pgroundup_unat [of "kernel_end h"] by (simp add: word_le_nat_alt)
  moreover have "free_list h m []" using assms(1) by (simp add: free_list_def)
  ultimately show ?thesis
    using freerange_loop_spec [of m "[]" ?p "PHYSTOP h" n] assms(2,3) by (auto simp: freerange_def Let_def simp del: freerange_loop.simps)
qed

end

text \<open>
  C12: The allocator starts with every page and hands out each page once. After \<open>freerange\<close> over the memory from
  the end of the kernel to the end of the machine, as many calls of \<open>kalloc\<close> as there are whole
  pages return these pages, all different, the highest first; the next call returns the null pointer.
\<close>

theorem allocator_hands_out_every_page:
  assumes "sv39 h" "freelist m = 0" "PGROUNDUP h (kernel_end h) \<le> PHYSTOP h"
    and "n = (unat (PHYSTOP h) - unat (PGROUNDUP h (kernel_end h))) div page_bytes"
    and "ps = rev (range_pages (PGROUNDUP h (kernel_end h)) n)"
  shows "\<exists>m' m''. freerange h (kernel_end h) (PHYSTOP h) m = Inr m' \<and> alloc_n kalloc n m' = (ps, m'')
     \<and> distinct ps \<and> (\<forall>x \<in> set ps. phys_ok h x) \<and> kalloc m'' = (0, m'')"
proof -
  obtain m' where m': "freerange h (kernel_end h) (PHYSTOP h) m = Inr m'" "free_list h m' ps"
    using sv39.freerange_all [OF assms(1-4)] unfolding assms(5) by blast
  have "length ps = n" by (simp add: assms(5) range_pages_def)
  then obtain m'' where "alloc_n kalloc n m' = (ps, m'')" "free_list h m'' []"
    using sv39.kalloc_n_all [OF assms(1), of m' ps "[]"] m'(2) by auto
  with m' kalloc_empty show ?thesis by (auto simp: free_list_def)
qed

theorem allocator_hands_out_every_page_witness:
  "\<exists>m' m''. freerange riscv_std (kernel_end riscv_std) (PHYSTOP riscv_std) \<lparr>pm = (\<lambda>a. []), freelist = 0\<rparr> = Inr m'
     \<and> alloc_n kalloc 32720 m' = (rev (range_pages 2147680256 32720), m'') \<and> kalloc m'' = (0, m'')"
proof -
  have p: "PGROUNDUP riscv_std (kernel_end riscv_std) = 2147680256" "PHYSTOP riscv_std = 2281701376"
    by (simp_all add: riscv_std_def)
  show ?thesis
    using allocator_hands_out_every_page [OF std39.sv39_axioms, of "\<lparr>pm = (\<lambda>a. []), freelist = 0\<rparr>", OF _ _ refl refl]
    unfolding p by auto
qed

end
