(* ===== verification/Disk_Queue.thy ===== *)
theory Disk_Queue
  imports Xv6_Prelude "HOL-Library.Product_Lexorder"
begin

text \<open>
  The pending disk-request queue of \<open>kernel/bio.c\<close>: the static pool of requests, the singly
  linked list threaded through their \<open>next\<close> fields, and the FCFS and SSTF policies of
  \<open>dequeue_disk_request_locked\<close>. Pointers into \<open>req_pool\<close> are indices, the null pointer is
  \<open>None\<close>. The list the pointers stand for is \<open>queue_of\<close>; enqueue and dequeue are shown to
  append to it and to remove the request the policy asks for.
\<close>

section \<open>State\<close>

datatype req_type = DISK_REQ_READ | DISK_REQ_WRITE

record disk_request =
  rq_b :: nat
  rq_blockno :: int
  rq_type :: req_type
  rq_proc :: "nat option"
  rq_used :: bool
  rq_completed :: bool
  rq_next :: "nat option"

text \<open>
  \<open>disk_queue\<close> holds the queue head and the \<open>busy\<close> flag; the policy, the head position and
  the statistics are the globals that \<open>disk_queue.lock\<close> protects.
\<close>

record disk_queue =
  req_pool :: "disk_request list"
  dq_head :: "nat option"
  dq_busy :: bool
  disk_sched_policy :: int
  current_disk_head :: int
  disk_reads :: u64
  disk_writes :: u64
  disk_total_latency :: u64
  disk_req_count :: u64

definition MAX_DISK_REQS :: nat where
  "MAX_DISK_REQS = 64"

definition DISK_LATENCY_C :: int where
  "DISK_LATENCY_C = 5"

definition upd_req :: "nat \<Rightarrow> (disk_request \<Rightarrow> disk_request) \<Rightarrow> disk_queue \<Rightarrow> disk_queue" where
  "upd_req i f q = q\<lparr>req_pool := (req_pool q)[i := f (req_pool q ! i)]\<rparr>"


section \<open>Operations\<close>

definition alloc_req :: "disk_queue \<Rightarrow> nat option \<times> disk_queue" where
  "alloc_req q =
     (case find_idx (\<lambda>r. \<not> rq_used r) (req_pool q) of
        Some i \<Rightarrow> (Some i, upd_req i (\<lambda>r. r\<lparr>rq_used := True, rq_completed := False, rq_next := None\<rparr>) q)
      | None \<Rightarrow> (None, q))"

definition free_req :: "nat \<Rightarrow> disk_queue \<Rightarrow> disk_queue" where
  "free_req i q = upd_req i (\<lambda>r. r\<lparr>rq_used := False, rq_completed := False, rq_next := None\<rparr>) q"

text \<open>\<open>while (cur->next) cur = cur->next;\<close>\<close>

fun queue_tail :: "nat \<Rightarrow> disk_request list \<Rightarrow> nat \<Rightarrow> nat option" where
  "queue_tail 0 pool cur = None"
| "queue_tail (Suc fuel) pool cur =
     (case rq_next (pool ! cur) of
        None \<Rightarrow> Some cur
      | Some nxt \<Rightarrow> queue_tail fuel pool nxt)"

definition enqueue_disk_request_locked :: "nat \<Rightarrow> disk_queue \<Rightarrow> disk_queue res" where
  "enqueue_disk_request_locked req q =
     (let q1 = upd_req req (\<lambda>r. r\<lparr>rq_next := None\<rparr>) q
      in case dq_head q1 of
           None \<Rightarrow> Inr (q1\<lparr>dq_head := Some req\<rparr>)
         | Some h \<Rightarrow>
             rbind (fuelled (queue_tail (length (req_pool q1)) (req_pool q1) h))
               (\<lambda>cur. Inr (upd_req cur (\<lambda>r. r\<lparr>rq_next := Some req\<rparr>) q1)))"

text \<open>\<open>int dist = blockno - current_disk_head; if (dist < 0) dist = -dist;\<close> on C \<open>int\<close>s.\<close>

definition seek_dist :: "int \<Rightarrow> int \<Rightarrow> int" where
  "seek_dist blockno head =
     (let dist = c_int (blockno - head) in if dist < 0 then c_int (- dist) else dist)"

definition req_level :: "(nat \<Rightarrow> int) \<Rightarrow> disk_request \<Rightarrow> int" where
  "req_level level r = (case rq_proc r of Some p \<Rightarrow> level p | None \<Rightarrow> 3)"

text \<open>
  The scan of the SSTF branch; the arguments are the loop's variables \<open>cur\<close>, \<open>prev\<close>,
  \<open>min_dist\<close>, \<open>selected\<close> and \<open>selected_prev\<close>. \<open>level p\<close> is the MLFQ level of process \<open>p\<close>.
\<close>

fun sstf_scan ::
  "nat \<Rightarrow> (nat \<Rightarrow> int) \<Rightarrow> int \<Rightarrow> disk_request list \<Rightarrow> nat option \<Rightarrow> nat option \<Rightarrow> int \<Rightarrow> nat \<Rightarrow> nat option
   \<Rightarrow> (nat \<times> nat option) option" where
  "sstf_scan 0 level head pool cur prev min_dist selected selected_prev = None"
| "sstf_scan (Suc fuel) level head pool cur prev min_dist selected selected_prev =
     (case cur of
        None \<Rightarrow> Some (selected, selected_prev)
      | Some c \<Rightarrow>
          let dist = seek_dist (rq_blockno (pool ! c)) head;
              better = (dist < min_dist
                        \<or> dist = min_dist \<and> req_level level (pool ! c) < req_level level (pool ! selected))
          in sstf_scan fuel level head pool (rq_next (pool ! c)) (Some c)
               (if better then dist else min_dist)
               (if better then c else selected)
               (if better then prev else selected_prev))"

definition dequeue_disk_request_locked ::
  "(nat \<Rightarrow> int) \<Rightarrow> disk_queue \<Rightarrow> (nat option \<times> disk_queue) res" where
  "dequeue_disk_request_locked level q =
     (case dq_head q of
        None \<Rightarrow> Inr (None, q)
      | Some h \<Rightarrow>
          rbind (if disk_sched_policy q = 1
                 then fuelled (sstf_scan (Suc (length (req_pool q))) level (current_disk_head q)
                                 (req_pool q) (Some h) None 0x7fffffff h None)
                 else Inr (h, None))
            (\<lambda>(selected, selected_prev).
               let nxt = rq_next (req_pool q ! selected);
                   q1 = (case selected_prev of
                           None \<Rightarrow> q\<lparr>dq_head := nxt\<rparr>
                         | Some p \<Rightarrow> upd_req p (\<lambda>r. r\<lparr>rq_next := nxt\<rparr>) q)
               in Inr (Some selected, upd_req selected (\<lambda>r. r\<lparr>rq_next := None\<rparr>) q1)))"

definition set_disk_policy :: "int \<Rightarrow> disk_queue \<Rightarrow> disk_queue" where
  "set_disk_policy policy q = q\<lparr>disk_sched_policy := policy\<rparr>"

definition get_avg_disk_latency :: "disk_queue \<Rightarrow> u64" where
  "get_avg_disk_latency q =
     (if 0 < disk_req_count q then disk_total_latency q div disk_req_count q else 0)"

text \<open>The part of \<open>binit\<close> that sets up the queue and the pool.\<close>

definition init_req :: disk_request where
  "init_req = \<lparr>rq_b = 0, rq_blockno = 0, rq_type = DISK_REQ_READ, rq_proc = None,
               rq_used = False, rq_completed = False, rq_next = None\<rparr>"

definition binit_queue :: "disk_queue \<Rightarrow> disk_queue" where
  "binit_queue q = q\<lparr>dq_head := None, dq_busy := False,
     req_pool := map (\<lambda>r. r\<lparr>rq_used := False, rq_completed := False, rq_next := None\<rparr>) (req_pool q)\<rparr>"

text \<open>
  The bookkeeping that \<open>run_disk_dispatcher\<close> does for a request under the queue lock, before
  the transfer: head movement, latency and the read or write counter.
\<close>

definition account_request :: "disk_request \<Rightarrow> disk_queue \<Rightarrow> disk_queue" where
  "account_request r q =
     (let latency = c_int (seek_dist (rq_blockno r) (current_disk_head q) + DISK_LATENCY_C);
          q1 = q\<lparr>current_disk_head := rq_blockno r,
                 disk_total_latency := disk_total_latency q + of_int latency,
                 disk_req_count := disk_req_count q + 1\<rparr>
      in if rq_type r = DISK_REQ_READ
         then q1\<lparr>disk_reads := disk_reads q1 + 1\<rparr>
         else q1\<lparr>disk_writes := disk_writes q1 + 1\<rparr>)"


section \<open>The list the pointers stand for\<close>

fun path :: "disk_request list \<Rightarrow> nat option \<Rightarrow> nat list \<Rightarrow> nat option \<Rightarrow> bool" where
  "path pool p [] e \<longleftrightarrow> p = e"
| "path pool p (x # xs) e \<longleftrightarrow> p = Some x \<and> x < length pool \<and> path pool (rq_next (pool ! x)) xs e"

definition queue_of :: "disk_queue \<Rightarrow> nat list \<Rightarrow> bool" where
  "queue_of q xs \<longleftrightarrow> path (req_pool q) (dq_head q) xs None \<and> distinct xs"

lemma path_append: "path pool p (xs @ ys) e \<longleftrightarrow> (\<exists>m. path pool p xs m \<and> path pool m ys e)"
  by (induction xs arbitrary: p) auto

lemma path_update: "i \<notin> set xs \<Longrightarrow> path (pool[i := r]) p xs e = path pool p xs e"
  by (induction xs arbitrary: p) auto

lemma path_set: "path pool p xs e \<Longrightarrow> set xs \<subseteq> {..<length pool}"
  by (induction xs arbitrary: p) auto

lemma path_length:
  assumes "path pool p xs e" and "distinct xs"
  shows "length xs \<le> length pool"
  using card_mono [OF _ path_set [OF assms(1)]] distinct_card [OF assms(2)] by simp

lemma path_next_cong:
  assumes "length pool' = length pool"
    and "\<And>x. x \<in> set xs \<Longrightarrow> rq_next (pool' ! x) = rq_next (pool ! x)"
  shows "path pool' p xs e = path pool p xs e"
  using assms by (induction xs arbitrary: p) auto

lemma path_snoc_update:
  assumes "path pool p (xs @ [x]) None" and "x \<notin> set xs"
  shows "path (pool[x := (pool ! x)\<lparr>rq_next := e\<rparr>]) p (xs @ [x]) e"
  using assms by (auto simp: path_append path_update)

lemma path_replace:
  assumes "path pool p (as @ [x]) m" and "x \<notin> set as"
  shows "path (pool[x := (pool ! x)\<lparr>rq_next := e\<rparr>]) p (as @ [x]) e"
  using assms by (auto simp: path_append path_update)

lemma upd_req_simps [simp]:
  "dq_head (upd_req i f q) = dq_head q"
  "dq_busy (upd_req i f q) = dq_busy q"
  "disk_sched_policy (upd_req i f q) = disk_sched_policy q"
  "current_disk_head (upd_req i f q) = current_disk_head q"
  "disk_reads (upd_req i f q) = disk_reads q"
  "disk_writes (upd_req i f q) = disk_writes q"
  "disk_total_latency (upd_req i f q) = disk_total_latency q"
  "disk_req_count (upd_req i f q) = disk_req_count q"
  "length (req_pool (upd_req i f q)) = length (req_pool q)"
  by (simp_all add: upd_req_def)

lemma upd_req_pool: "req_pool (upd_req i f q) = (req_pool q)[i := f (req_pool q ! i)]"
  by (simp add: upd_req_def)


text \<open>Everything of the queue but its links: what linking and unlinking must not change.\<close>

definition unlinked :: "disk_queue \<Rightarrow> disk_queue" where
  "unlinked q = q\<lparr>dq_head := None, req_pool := map (\<lambda>r. r\<lparr>rq_next := None\<rparr>) (req_pool q)\<rparr>"

lemma unlinked_upd_next [simp]: "unlinked (upd_req i (\<lambda>r. r\<lparr>rq_next := e\<rparr>) q) = unlinked q"
proof -
  have "map (\<lambda>r. r\<lparr>rq_next := None\<rparr>) ((req_pool q)[i := (req_pool q ! i)\<lparr>rq_next := e\<rparr>])
      = map (\<lambda>r. r\<lparr>rq_next := None\<rparr>) (req_pool q)"
  proof (rule nth_equalityI)
    fix j assume "j < length (map (\<lambda>r. r\<lparr>rq_next := None\<rparr>) ((req_pool q)[i := (req_pool q ! i)\<lparr>rq_next := e\<rparr>]))"
    then show "map (\<lambda>r. r\<lparr>rq_next := None\<rparr>) ((req_pool q)[i := (req_pool q ! i)\<lparr>rq_next := e\<rparr>]) ! j
      = map (\<lambda>r. r\<lparr>rq_next := None\<rparr>) (req_pool q) ! j"
      by (cases "j = i") auto
  qed simp
  then show ?thesis by (simp add: unlinked_def upd_req_def)
qed

lemma unlinked_head [simp]: "unlinked (q\<lparr>dq_head := h\<rparr>) = unlinked q"
  by (simp add: unlinked_def)

lemma unlinked_length: "unlinked q' = unlinked q \<Longrightarrow> length (req_pool q') = length (req_pool q)"
  by (drule arg_cong [of _ _ "\<lambda>q. length (req_pool q)"]) (simp add: unlinked_def)

lemma unlinked_req:
  assumes "unlinked q' = unlinked q" and "i < length (req_pool q)"
  shows "(req_pool q' ! i)\<lparr>rq_next := None\<rparr> = (req_pool q ! i)\<lparr>rq_next := None\<rparr>"
proof -
  have "map (\<lambda>r. r\<lparr>rq_next := None\<rparr>) (req_pool q') = map (\<lambda>r. r\<lparr>rq_next := None\<rparr>) (req_pool q)"
    using arg_cong [OF assms(1), of req_pool] by (simp add: unlinked_def)
  then show ?thesis
    using assms(2) unlinked_length [OF assms(1)] by (metis nth_map)
qed

lemma unlinked_fields:
  assumes "unlinked q' = unlinked q"
  shows "dq_busy q' = dq_busy q" "disk_sched_policy q' = disk_sched_policy q"
    "current_disk_head q' = current_disk_head q" "disk_reads q' = disk_reads q"
    "disk_writes q' = disk_writes q" "disk_total_latency q' = disk_total_latency q"
    "disk_req_count q' = disk_req_count q"
  using arg_cong [OF assms, of dq_busy] arg_cong [OF assms, of disk_sched_policy]
    arg_cong [OF assms, of current_disk_head] arg_cong [OF assms, of disk_reads]
    arg_cong [OF assms, of disk_writes] arg_cong [OF assms, of disk_total_latency]
    arg_cong [OF assms, of disk_req_count]
  by (simp_all add: unlinked_def)

lemma unlinked_req_fields:
  assumes "unlinked q' = unlinked q" and "i < length (req_pool q)"
  shows "rq_b (req_pool q' ! i) = rq_b (req_pool q ! i)"
    "rq_blockno (req_pool q' ! i) = rq_blockno (req_pool q ! i)"
    "rq_type (req_pool q' ! i) = rq_type (req_pool q ! i)"
    "rq_proc (req_pool q' ! i) = rq_proc (req_pool q ! i)"
    "rq_used (req_pool q' ! i) = rq_used (req_pool q ! i)"
    "rq_completed (req_pool q' ! i) = rq_completed (req_pool q ! i)"
  using arg_cong [OF unlinked_req [OF assms], of rq_b]
    arg_cong [OF unlinked_req [OF assms], of rq_blockno]
    arg_cong [OF unlinked_req [OF assms], of rq_type]
    arg_cong [OF unlinked_req [OF assms], of rq_proc]
    arg_cong [OF unlinked_req [OF assms], of rq_used]
    arg_cong [OF unlinked_req [OF assms], of rq_completed]
  by simp_all


section \<open>Enqueue\<close>

lemma queue_tail_path:
  assumes "path pool (Some h) (xs @ [x]) None" and "length xs < fuel"
  shows "queue_tail fuel pool h = Some x"
  using assms
proof (induction xs arbitrary: h fuel)
  case Nil
  then obtain f where "fuel = Suc f" by (cases fuel) auto
  with Nil show ?case by auto
next
  case (Cons y ys)
  then obtain f where f: "fuel = Suc f" by (cases fuel) auto
  from Cons.prems obtain z where "rq_next (pool ! y) = Some z"
    by (cases ys) auto
  with Cons f show ?case by auto
qed

lemma enqueue_refines:
  assumes q: "queue_of q xs" and req: "req < length (req_pool q)" "req \<notin> set xs"
  shows "\<exists>q'. enqueue_disk_request_locked req q = Inr q' \<and> queue_of q' (xs @ [req])
     \<and> unlinked q' = unlinked q"
proof -
  define q1 where "q1 = upd_req req (\<lambda>r. r\<lparr>rq_next := None\<rparr>) q"
  have pool1: "req_pool q1 = (req_pool q)[req := (req_pool q ! req)\<lparr>rq_next := None\<rparr>]"
    and head1: "dq_head q1 = dq_head q" and un1: "unlinked q1 = unlinked q"
    by (simp_all add: q1_def upd_req_pool)
  have q1: "path (req_pool q1) (dq_head q) xs None" "distinct xs"
    using q req by (auto simp: queue_of_def pool1 path_update)
  have enq: "enqueue_disk_request_locked req q = (case dq_head q1 of
        None \<Rightarrow> Inr (q1\<lparr>dq_head := Some req\<rparr>)
      | Some h \<Rightarrow> rbind (fuelled (queue_tail (length (req_pool q1)) (req_pool q1) h))
          (\<lambda>cur. Inr (upd_req cur (\<lambda>r. r\<lparr>rq_next := Some req\<rparr>) q1)))"
    by (simp only: enqueue_disk_request_locked_def q1_def Let_def)
  show ?thesis
  proof (cases xs rule: rev_cases)
    case Nil
    with q1 have "dq_head q1 = None" by (simp add: head1)
    with Nil req show ?thesis by (simp add: enq un1 queue_of_def pool1)
  next
    case (snoc ys t)
    with q1 obtain h where h: "dq_head q = Some h" by (cases ys) auto
    have tail: "queue_tail (length (req_pool q1)) (req_pool q1) h = Some t"
      using q1 h snoc path_length [OF q1] by (intro queue_tail_path) auto
    have t: "t < length (req_pool q1)" "t \<noteq> req" "t \<notin> set ys"
      using path_set [OF q1(1)] snoc req q1(2) by auto
    define q2 where "q2 = upd_req t (\<lambda>r. r\<lparr>rq_next := Some req\<rparr>) q1"
    have "path (req_pool q2) (dq_head q) (ys @ [t]) (Some req)"
      using path_snoc_update [of "req_pool q1" "dq_head q" ys t "Some req"] q1 snoc t
      by (simp add: q2_def upd_req_pool)
    moreover have "req_pool q2 ! req = (req_pool q ! req)\<lparr>rq_next := None\<rparr>"
      using t req by (simp add: q2_def upd_req_pool pool1)
    ultimately have "path (req_pool q2) (dq_head q) (xs @ [req]) None"
      using snoc req by (subst path_append) (auto simp: q2_def q1_def)
    then have "queue_of q2 (xs @ [req])"
      using req q1(2) by (simp add: queue_of_def q2_def q1_def)
    then show ?thesis using h tail by (simp add: enq head1 q2_def un1)
  qed
qed


section \<open>Dequeue\<close>

text \<open>What SSTF minimises: the seek distance first, then the MLFQ level of the requester.\<close>

definition sstf_key :: "(nat \<Rightarrow> int) \<Rightarrow> int \<Rightarrow> disk_request \<Rightarrow> int \<times> int" where
  "sstf_key level head r = (seek_dist (rq_blockno r) head, req_level level r)"

text \<open>\<open>min_first key as x bs\<close>: \<open>x\<close> is the first of the least elements of \<open>as @ x # bs\<close>.\<close>

definition min_first :: "(nat \<Rightarrow> 'k::linorder) \<Rightarrow> nat list \<Rightarrow> nat \<Rightarrow> nat list \<Rightarrow> bool" where
  "min_first key as x bs \<longleftrightarrow> (\<forall>a \<in> set as. key x < key a) \<and> (\<forall>b \<in> set bs. key x \<le> key b)"

lemma min_first_snoc_keep:
  "min_first key as x bs \<Longrightarrow> \<not> key y < key x \<Longrightarrow> min_first key as x (bs @ [y])"
  by (auto simp: min_first_def)

lemma min_first_snoc_new:
  "min_first key as x bs \<Longrightarrow> key y < key x \<Longrightarrow> min_first key (as @ x # bs) y []"
  by (fastforce simp: min_first_def)

definition last_opt :: "'a list \<Rightarrow> 'a option" where
  "last_opt xs = (if xs = [] then None else Some (last xs))"

lemma last_opt_simps [simp]: "last_opt [] = None" "last_opt (xs @ [x]) = Some x"
  by (simp_all add: last_opt_def)

lemma sstf_scan_min_first:
  assumes "path pool cur xs None" and "length xs < fuel"
    and "prev = last_opt (as @ sel # bs)" and "min_first key as sel bs"
    and key: "key = (\<lambda>i. sstf_key level head (pool ! i))"
  shows "\<exists>sel' as' bs'. sstf_scan fuel level head pool cur prev (fst (key sel)) sel (last_opt as)
             = Some (sel', last_opt as')
           \<and> as @ sel # bs @ xs = as' @ sel' # bs' \<and> min_first key as' sel' bs'"
  using assms(1-4)
proof (induction xs arbitrary: fuel cur prev as sel bs)
  case Nil
  then obtain f where "fuel = Suc f" by (cases fuel) auto
  with Nil show ?case by force
next
  case (Cons x xs)
  then obtain f where f: "fuel = Suc f" "length xs < f" by (cases fuel) auto
  from Cons.prems have cur: "cur = Some x" and rest: "path pool (rq_next (pool ! x)) xs None"
    by auto
  have better: "key x < key sel \<longleftrightarrow>
      seek_dist (rq_blockno (pool ! x)) head < fst (key sel)
      \<or> seek_dist (rq_blockno (pool ! x)) head = fst (key sel)
        \<and> req_level level (pool ! x) < req_level level (pool ! sel)"
    by (auto simp: key sstf_key_def less_prod_def')
  have fst_x: "fst (key x) = seek_dist (rq_blockno (pool ! x)) head"
    by (simp add: key sstf_key_def)
  show ?case
  proof (cases "key x < key sel")
    case True
    have "min_first key (as @ sel # bs) x []"
      using Cons.prems(4) True by (rule min_first_snoc_new)
    moreover have "Some x = last_opt ((as @ sel # bs) @ [x])"
      by (simp only: last_opt_simps)
    ultimately obtain sel' as' bs' where
      "sstf_scan f level head pool (rq_next (pool ! x)) (Some x) (fst (key x)) x (last_opt (as @ sel # bs))
         = Some (sel', last_opt as')"
      "(as @ sel # bs) @ x # [] @ xs = as' @ sel' # bs'" "min_first key as' sel' bs'"
      using Cons.IH [OF rest f(2)] by blast
    then show ?thesis using True Cons.prems(3)
      by (intro exI [of _ sel'] exI [of _ as'] exI [of _ bs'])
        (simp add: f cur better [symmetric] fst_x Let_def)
  next
    case False
    have "min_first key as sel (bs @ [x])"
      using Cons.prems(4) False by (rule min_first_snoc_keep)
    moreover have "Some x = last_opt (as @ sel # (bs @ [x]))"
      by (simp add: last_opt_def)
    ultimately obtain sel' as' bs' where
      "sstf_scan f level head pool (rq_next (pool ! x)) (Some x) (fst (key sel)) sel (last_opt as)
         = Some (sel', last_opt as')"
      "as @ sel # (bs @ [x]) @ xs = as' @ sel' # bs'" "min_first key as' sel' bs'"
      using Cons.IH [OF rest f(2)] by blast
    then show ?thesis using False
      by (intro exI [of _ sel'] exI [of _ as'] exI [of _ bs'])
        (simp add: f cur better [symmetric] Let_def)
  qed
qed

lemma seek_dist_le: "seek_dist b h \<le> 0x7fffffff"
  using c_int_range [of "b - h"] c_int_range [of "- c_int (b - h)"]
  by (auto simp: seek_dist_def Let_def)

lemma sstf_scan_from_head:
  assumes "path pool (Some h) xs None" and "length xs < fuel"
    and key: "key = (\<lambda>i. sstf_key level head (pool ! i))"
  shows "\<exists>sel as bs. sstf_scan fuel level head pool (Some h) None 0x7fffffff h None = Some (sel, last_opt as)
           \<and> xs = as @ sel # bs \<and> min_first key as sel bs"
proof -
  from assms obtain ys where xs: "xs = h # ys" and rest: "path pool (rq_next (pool ! h)) ys None"
    by (cases xs) auto
  from assms(2) xs obtain f where f: "fuel = Suc f" "length ys < f" by (cases fuel) auto
  have step: "sstf_scan fuel level head pool (Some h) None 0x7fffffff h None
            = sstf_scan f level head pool (rq_next (pool ! h)) (Some h) (fst (key h)) h (last_opt [])"
    using seek_dist_le [of "rq_blockno (pool ! h)" head] by (auto simp: f key sstf_key_def Let_def)
  have "min_first key [] h []" by (simp add: min_first_def)
  from sstf_scan_min_first [OF rest f(2) _ this key, of "Some h"] show ?thesis
    unfolding step xs by (simp add: last_opt_def)
qed

text \<open>Unlinking the selected request: its predecessor, or the head, skips it.\<close>

definition unlink_req :: "nat \<Rightarrow> nat option \<Rightarrow> disk_queue \<Rightarrow> disk_queue" where
  "unlink_req sel selp q =
     (let nxt = rq_next (req_pool q ! sel);
          q1 = (case selp of
                  None \<Rightarrow> q\<lparr>dq_head := nxt\<rparr>
                | Some p \<Rightarrow> upd_req p (\<lambda>r. r\<lparr>rq_next := nxt\<rparr>) q)
      in upd_req sel (\<lambda>r. r\<lparr>rq_next := None\<rparr>) q1)"

lemma unlink_req_refines:
  assumes "queue_of q (as @ sel # bs)"
  shows "queue_of (unlink_req sel (last_opt as) q) (as @ bs)"
    and "unlinked (unlink_req sel (last_opt as) q) = unlinked q"
proof -
  let ?pool = "req_pool q" and ?nxt = "rq_next (req_pool q ! sel)"
  have dist: "distinct (as @ sel # bs)" and p: "path ?pool (dq_head q) (as @ sel # bs) None"
    using assms by (auto simp: queue_of_def)
  have bs: "path ?pool ?nxt bs None" and as: "path ?pool (dq_head q) as (Some sel)"
    using p by (auto simp: path_append)
  show "queue_of (unlink_req sel (last_opt as) q) (as @ bs)"
  proof (cases as rule: rev_cases)
    case Nil
    with bs dist show ?thesis
      by (auto simp: unlink_req_def Let_def queue_of_def upd_req_pool path_update)
  next
    case (snoc cs c)
    let ?pool1 = "?pool[c := (?pool ! c)\<lparr>rq_next := ?nxt\<rparr>]"
    have "path ?pool1 (dq_head q) (cs @ [c]) ?nxt"
      using as dist snoc by (intro path_replace) auto
    moreover have "path ?pool1 ?nxt bs None"
      using bs dist snoc by (simp add: path_update)
    ultimately have "path ?pool1 (dq_head q) (as @ bs) None"
      using snoc by (subst path_append) blast
    then show ?thesis using dist snoc
      by (simp add: unlink_req_def Let_def queue_of_def upd_req_pool path_update)
  qed
  show "unlinked (unlink_req sel (last_opt as) q) = unlinked q"
    by (simp add: unlink_req_def Let_def split: option.splits)
qed

lemma dequeue_empty: "queue_of q [] \<Longrightarrow> dequeue_disk_request_locked level q = Inr (None, q)"
  by (simp add: queue_of_def dequeue_disk_request_locked_def)

lemma dequeue_fcfs:
  assumes "queue_of q (x # xs)" and "disk_sched_policy q \<noteq> 1"
  shows "\<exists>q'. dequeue_disk_request_locked level q = Inr (Some x, q') \<and> queue_of q' xs
     \<and> unlinked q' = unlinked q"
proof -
  have "dequeue_disk_request_locked level q = Inr (Some x, unlink_req x (last_opt []) q)"
    using assms
    by (simp add: queue_of_def dequeue_disk_request_locked_def unlink_req_def Let_def)
  moreover have "queue_of (unlink_req x (last_opt []) q) ([] @ xs)"
    by (rule unlink_req_refines) (use assms in simp)
  moreover have "unlinked (unlink_req x (last_opt []) q) = unlinked q"
    by (rule unlink_req_refines [of q "[]" x xs]) (use assms in simp)
  ultimately show ?thesis by simp
qed

lemma dequeue_sstf:
  assumes q: "queue_of q xs" "xs \<noteq> []" and pol: "disk_sched_policy q = 1"
  shows "\<exists>x as bs q'. dequeue_disk_request_locked level q = Inr (Some x, q')
     \<and> xs = as @ x # bs
     \<and> min_first (\<lambda>i. sstf_key level (current_disk_head q) (req_pool q ! i)) as x bs
     \<and> queue_of q' (as @ bs) \<and> unlinked q' = unlinked q"
proof -
  from q obtain h where h: "dq_head q = Some h" by (cases xs) (auto simp: queue_of_def)
  have p: "path (req_pool q) (Some h) xs None" "distinct xs"
    using q h by (auto simp: queue_of_def)
  have len: "length xs < Suc (length (req_pool q))"
    using path_length [OF p] by simp
  obtain x as bs where scan:
    "sstf_scan (Suc (length (req_pool q))) level (current_disk_head q) (req_pool q) (Some h) None
       0x7fffffff h None = Some (x, last_opt as)"
    "xs = as @ x # bs" "min_first (\<lambda>i. sstf_key level (current_disk_head q) (req_pool q ! i)) as x bs"
    using sstf_scan_from_head [OF p(1) len refl] by blast
  have "dequeue_disk_request_locked level q = Inr (Some x, unlink_req x (last_opt as) q)"
    using pol scan(1) h
    by (simp add: dequeue_disk_request_locked_def unlink_req_def Let_def del: sstf_scan.simps)
  then show ?thesis
    using scan(2,3) unlink_req_refines [of q as x bs] q(1) by auto
qed

text \<open>Under either policy a non-empty queue gives one of its requests and keeps the others in order.\<close>

lemma dequeue_some:
  assumes "queue_of q xs" "xs \<noteq> []"
  shows "\<exists>x as bs q'. dequeue_disk_request_locked level q = Inr (Some x, q') \<and> xs = as @ x # bs
     \<and> queue_of q' (as @ bs) \<and> unlinked q' = unlinked q"
proof (cases "disk_sched_policy q = 1")
  case True
  with dequeue_sstf [OF assms True] show ?thesis by blast
next
  case False
  from assms(2) obtain x ys where xs: "xs = x # ys" by (cases xs) auto
  with assms(1) obtain q' where "dequeue_disk_request_locked level q = Inr (Some x, q')"
    "queue_of q' ys" "unlinked q' = unlinked q"
    using dequeue_fcfs [of q x ys level] False by auto
  then show ?thesis using xs
    by (intro exI [of _ x] exI [of _ "[]"] exI [of _ ys] exI [of _ q']) simp
qed


section \<open>Order of service\<close>

text \<open>A run of enqueues, and a run of dequeues until the queue is empty.\<close>

fun enqueue_all :: "nat list \<Rightarrow> disk_queue \<Rightarrow> disk_queue res" where
  "enqueue_all [] q = Inr q"
| "enqueue_all (r # rs) q = rbind (enqueue_disk_request_locked r q) (enqueue_all rs)"

fun dequeue_all :: "nat \<Rightarrow> (nat \<Rightarrow> int) \<Rightarrow> disk_queue \<Rightarrow> (nat list \<times> disk_queue) res" where
  "dequeue_all 0 level q = Inl OutOfFuel"
| "dequeue_all (Suc fuel) level q =
     rbind (dequeue_disk_request_locked level q)
       (\<lambda>(r, q1). case r of
          None \<Rightarrow> Inr ([], q1)
        | Some i \<Rightarrow> rbind (dequeue_all fuel level q1) (\<lambda>(is, q2). Inr (i # is, q2)))"

lemma enqueue_all_refines:
  assumes "queue_of q xs" "distinct (xs @ rs)" "set rs \<subseteq> {..<length (req_pool q)}"
  shows "\<exists>q'. enqueue_all rs q = Inr q' \<and> queue_of q' (xs @ rs) \<and> unlinked q' = unlinked q"
  using assms
proof (induction rs arbitrary: q xs)
  case Nil
  then show ?case by simp
next
  case (Cons r rs)
  then obtain q1 where q1: "enqueue_disk_request_locked r q = Inr q1" "queue_of q1 (xs @ [r])" "unlinked q1 = unlinked q"
    using enqueue_refines [of q xs r] by auto
  with Cons.IH [OF q1(2)] Cons.prems unlinked_length [OF q1(3)] show ?case by auto
qed

lemma dequeue_all_fcfs:
  assumes "queue_of q xs" "length xs < fuel" "disk_sched_policy q \<noteq> 1"
  shows "\<exists>q'. dequeue_all fuel level q = Inr (xs, q') \<and> queue_of q' [] \<and> unlinked q' = unlinked q"
  using assms
proof (induction xs arbitrary: q fuel)
  case Nil
  then obtain f where "fuel = Suc f" by (cases fuel) auto
  with Nil show ?case by (simp add: dequeue_empty)
next
  case (Cons x xs)
  then obtain f where f: "fuel = Suc f" "length xs < f" by (cases fuel) auto
  from Cons.prems obtain q1 where q1: "dequeue_disk_request_locked level q = Inr (Some x, q1)" "queue_of q1 xs"
    "unlinked q1 = unlinked q"
    using dequeue_fcfs [of q x xs level] by auto
  with Cons.IH [OF q1(2) f(2)] Cons.prems(3) unlinked_fields(2) [OF q1(3)] show ?case by (auto simp: f)
qed

text \<open>
  C17: First come, first served. Requests enqueued on an empty queue are dequeued in the order of
  their arrival under every policy but 1, until the queue is empty again, and nothing but
  the links of the pool has changed.
\<close>

theorem fcfs_serves_in_arrival_order:
  assumes "queue_of q []" "distinct rs" "set rs \<subseteq> {..<length (req_pool q)}" "disk_sched_policy q \<noteq> 1"
  shows "\<exists>q1 q2. enqueue_all rs q = Inr q1 \<and> dequeue_all (Suc (length rs)) level q1 = Inr (rs, q2)
     \<and> queue_of q2 [] \<and> unlinked q2 = unlinked q"
proof -
  obtain q1 where q1: "enqueue_all rs q = Inr q1" "queue_of q1 rs" "unlinked q1 = unlinked q"
    using enqueue_all_refines [of q "[]" rs] assms by auto
  then obtain q2 where "dequeue_all (Suc (length rs)) level q1 = Inr (rs, q2)" "queue_of q2 []" "unlinked q2 = unlinked q1"
    using dequeue_all_fcfs [OF q1(2), of "Suc (length rs)" level] unlinked_fields(2) [OF q1(3)] assms(4) by auto
  with q1 show ?thesis by auto
qed

text \<open>Three requests, for blocks 10, 70 and 30, linked in this order; the head is at block 60.\<close>

definition three_requests :: "int \<Rightarrow> disk_queue" where
  "three_requests policy =
     \<lparr>req_pool = [init_req\<lparr>rq_blockno := 10, rq_used := True, rq_next := Some 1\<rparr>,
                  init_req\<lparr>rq_blockno := 70, rq_used := True, rq_next := Some 2\<rparr>,
                  init_req\<lparr>rq_blockno := 30, rq_used := True\<rparr>],
      dq_head = Some 0, dq_busy = True, disk_sched_policy = policy, current_disk_head = 60,
      disk_reads = 0, disk_writes = 0, disk_total_latency = 0, disk_req_count = 0\<rparr>"

theorem fcfs_serves_in_arrival_order_witness:
  "\<exists>q1 q2. enqueue_all [2, 0, 1] ((three_requests 0)\<lparr>dq_head := None\<rparr>) = Inr q1
     \<and> dequeue_all 4 (\<lambda>p. 0) q1 = Inr ([2, 0, 1], q2) \<and> queue_of q2 []"
  using fcfs_serves_in_arrival_order [of "(three_requests 0)\<lparr>dq_head := None\<rparr>" "[2, 0, 1]" "\<lambda>p. 0"]
  by (auto simp: queue_of_def three_requests_def numeral_eq_Suc)

text \<open>
  C13: Shortest seek time first. Under policy 1 the dequeued request has the least seek
  distance of all queued requests, among those the lowest MLFQ level, among those the
  earliest arrival; the others stay queued in their order.
\<close>

theorem sstf_serves_nearest:
  assumes "queue_of q xs" "xs \<noteq> []" "disk_sched_policy q = 1"
  shows "\<exists>x as bs q'. dequeue_disk_request_locked level q = Inr (Some x, q') \<and> xs = as @ x # bs \<and> queue_of q' (as @ bs)
     \<and> (\<forall>y \<in> set xs. sstf_key level (current_disk_head q) (req_pool q ! x) \<le> sstf_key level (current_disk_head q) (req_pool q ! y))
     \<and> (\<forall>y \<in> set as. sstf_key level (current_disk_head q) (req_pool q ! x) < sstf_key level (current_disk_head q) (req_pool q ! y))"
proof -
  obtain x as bs q' where "dequeue_disk_request_locked level q = Inr (Some x, q')" "xs = as @ x # bs"
    "min_first (\<lambda>i. sstf_key level (current_disk_head q) (req_pool q ! i)) as x bs" "queue_of q' (as @ bs)"
    using dequeue_sstf [OF assms] by blast
  then show ?thesis
    by (intro exI [of _ x] exI [of _ as] exI [of _ bs] exI [of _ q']) (fastforce simp: min_first_def intro: less_imp_le)
qed

theorem sstf_serves_nearest_witness:
  "\<exists>q'. dequeue_disk_request_locked (\<lambda>p. 0) (three_requests 1) = Inr (Some 1, q') \<and> queue_of q' [0, 2]"
proof -
  have q: "queue_of (three_requests 1) [0, 1, 2]" by (simp add: queue_of_def three_requests_def init_req_def)
  have key: "sstf_key (\<lambda>p. 0) 60 (req_pool (three_requests 1) ! 0) = (50, 3)"
    "sstf_key (\<lambda>p. 0) 60 (req_pool (three_requests 1) ! 1) = (10, 3)"
    "sstf_key (\<lambda>p. 0) 60 (req_pool (three_requests 1) ! 2) = (30, 3)"
    by (simp_all add: sstf_key_def seek_dist_def req_level_def three_requests_def init_req_def)
  have head: "current_disk_head (three_requests 1) = 60" "disk_sched_policy (three_requests 1) = 1"
    by (simp_all add: three_requests_def)
  obtain x as bs q' where d: "dequeue_disk_request_locked (\<lambda>p. 0) (three_requests 1) = Inr (Some x, q')"
      "[0, 1, 2] = as @ x # bs" "queue_of q' (as @ bs)"
    and least: "sstf_key (\<lambda>p. 0) 60 (req_pool (three_requests 1) ! x) \<le> sstf_key (\<lambda>p. 0) 60 (req_pool (three_requests 1) ! 1)"
    using sstf_serves_nearest [OF q _ head(2), of "\<lambda>p. 0"] unfolding head(1) by auto
  from d(2) have "x \<in> {0, 1, 2}" by (metis in_set_conv_decomp list.set empty_set)
  with least [unfolded key(2)] have "x = 1" by (auto simp: key)
  with d(2) have "as = [0]" "bs = [2]" by (auto simp: Cons_eq_append_conv)
  with d \<open>x = 1\<close> show ?thesis by auto
qed

end
