(* ===== verification/Buffer_Cache.thy ===== *)
theory Buffer_Cache
  imports Disk_Queue
begin

text \<open>
  The buffer cache of \<open>kernel/bio.c\<close> on top of the request queue: the doubly linked LRU list
  of buffers with its sentinel \<open>bcache.head\<close>, \<open>bget\<close>, \<open>bread\<close>, \<open>bwrite\<close>, \<open>brelse\<close>, \<open>bpin\<close>,
  \<open>bunpin\<close>, and the dispatcher that serves queued requests through the disk driver.

  A buffer pointer is its index in \<open>bcache.buf\<close>; the index one past the end is
  \<open>&bcache.head\<close>. \<open>b->lock\<close> is a flag: \<open>acquiresleep\<close> on a held lock is \<open>Blocked\<close>, since
  the caller then waits for another process. \<open>b->disk\<close> is written by the driver only and lives in the
  driver's state. The spinlocks delimit the atomic sections; here one call runs to its end.

  The driver entry point \<open>virtio_disk_rw\<close> is the argument \<open>rw\<close> of the definitions; what the
  cache relies on is the locale \<open>block_driver\<close>. The cache itself provides the contract
  \<open>block_store\<close> to the swap code.
\<close>

section \<open>State\<close>

type_synonym block = "u8 list"

record buf =
  b_valid :: bool
  b_dev :: u32
  b_blockno :: u32
  b_locked :: bool
  b_refcnt :: u32
  b_prev :: nat
  b_next :: nat
  b_data :: block

record bcache =
  bc_buf :: "buf list"
  head_next :: nat
  head_prev :: nat

record 'v bio =
  bc :: bcache
  dq :: disk_queue
  drv :: 'v

text \<open>\<open>virtio_disk_rw(b, write)\<close>: the buffer, its block number, the direction, its data.\<close>

type_synonym 'v driver = "nat \<Rightarrow> u32 \<Rightarrow> bool \<Rightarrow> block \<Rightarrow> 'v \<Rightarrow> (block \<times> 'v) res"

abbreviation nbuf :: "bcache \<Rightarrow> nat" where
  "nbuf c \<equiv> length (bc_buf c)"

definition upd_buf :: "nat \<Rightarrow> (buf \<Rightarrow> buf) \<Rightarrow> bcache \<Rightarrow> bcache" where
  "upd_buf i f c = c\<lparr>bc_buf := (bc_buf c)[i := f (bc_buf c ! i)]\<rparr>"


section \<open>The LRU list\<close>

definition bnext :: "bcache \<Rightarrow> nat \<Rightarrow> nat" where
  "bnext c i = (if i < nbuf c then b_next (bc_buf c ! i) else head_next c)"

definition bprev :: "bcache \<Rightarrow> nat \<Rightarrow> nat" where
  "bprev c i = (if i < nbuf c then b_prev (bc_buf c ! i) else head_prev c)"

definition set_next :: "nat \<Rightarrow> nat \<Rightarrow> bcache \<Rightarrow> bcache" where
  "set_next i v c =
     (if i < nbuf c then upd_buf i (\<lambda>b. b\<lparr>b_next := v\<rparr>) c else c\<lparr>head_next := v\<rparr>)"

definition set_prev :: "nat \<Rightarrow> nat \<Rightarrow> bcache \<Rightarrow> bcache" where
  "set_prev i v c =
     (if i < nbuf c then upd_buf i (\<lambda>b. b\<lparr>b_prev := v\<rparr>) c else c\<lparr>head_prev := v\<rparr>)"

text \<open>
  \<open>b->next = bcache.head.next; b->prev = &bcache.head;
   bcache.head.next->prev = b; bcache.head.next = b;\<close>
\<close>

definition link_front :: "nat \<Rightarrow> bcache \<Rightarrow> bcache" where
  "link_front b c =
     (let c1 = set_next b (head_next c) c;
          c2 = set_prev b (nbuf c1) c1;
          c3 = set_prev (head_next c2) b c2
      in c3\<lparr>head_next := b\<rparr>)"

text \<open>\<open>b->next->prev = b->prev; b->prev->next = b->next;\<close>\<close>

definition unlink_buf :: "nat \<Rightarrow> bcache \<Rightarrow> bcache" where
  "unlink_buf b c =
     (let c1 = set_prev (bnext c b) (bprev c b) c
      in set_next (bprev c1 b) (bnext c1 b) c1)"

text \<open>The \<open>bcache\<close> half of \<open>binit\<close>.\<close>

definition binit_cache :: "bcache \<Rightarrow> bcache" where
  "binit_cache c =
     fold (\<lambda>b c. upd_buf b (\<lambda>r. r\<lparr>b_locked := False\<rparr>) (link_front b c)) [0..<nbuf c]
       (c\<lparr>head_prev := nbuf c, head_next := nbuf c\<rparr>)"

text \<open>
  \<open>for (b = start; b != &bcache.head; b = b->next) if (P b) ...\<close>, and the same loop over \<open>prev\<close>:
  \<open>Some b\<close> for the first buffer that satisfies \<open>P\<close>, \<open>None\<close> when the sentinel is reached.
\<close>

fun list_walk :: "nat \<Rightarrow> (nat \<Rightarrow> nat) \<Rightarrow> nat \<Rightarrow> (nat \<Rightarrow> bool) \<Rightarrow> nat \<Rightarrow> nat option option" where
  "list_walk 0 nxt sentinel P b = None"
| "list_walk (Suc fuel) nxt sentinel P b =
     (if b = sentinel then Some None
      else if P b then Some (Some b)
      else list_walk fuel nxt sentinel P (nxt b))"


section \<open>Operations\<close>

definition acquiresleep :: "nat \<Rightarrow> bcache \<Rightarrow> bcache res" where
  "acquiresleep b c =
     (if b_locked (bc_buf c ! b) then Inl Blocked
      else Inr (upd_buf b (\<lambda>r. r\<lparr>b_locked := True\<rparr>) c))"

definition bget :: "u32 \<Rightarrow> u32 \<Rightarrow> bcache \<Rightarrow> (nat \<times> bcache) res" where
  "bget dev blockno c =
     rbind (fuelled (list_walk (Suc (nbuf c)) (bnext c) (nbuf c)
              (\<lambda>b. b_dev (bc_buf c ! b) = dev \<and> b_blockno (bc_buf c ! b) = blockno) (head_next c)))
       (\<lambda>found. case found of
          Some b \<Rightarrow>
            rbind (acquiresleep b (upd_buf b (\<lambda>r. r\<lparr>b_refcnt := b_refcnt r + 1\<rparr>) c)) (\<lambda>c'. Inr (b, c'))
        | None \<Rightarrow>
            rbind (fuelled (list_walk (Suc (nbuf c)) (bprev c) (nbuf c)
                     (\<lambda>b. b_refcnt (bc_buf c ! b) = 0) (head_prev c)))
              (\<lambda>victim. case victim of
                 Some b \<Rightarrow>
                   rbind (acquiresleep b
                     (upd_buf b (\<lambda>r. r\<lparr>b_dev := dev, b_blockno := blockno, b_valid := False, b_refcnt := 1\<rparr>) c))
                     (\<lambda>c'. Inr (b, c'))
               | None \<Rightarrow> Inl (Panic ''bget: no buffers'')))"

text \<open>One round of the loop of \<open>run_disk_dispatcher\<close> for a dequeued request.\<close>

definition serve_request :: "'v driver \<Rightarrow> nat \<Rightarrow> 'v bio \<Rightarrow> 'v bio res" where
  "serve_request rw i s =
     (let r = req_pool (dq s) ! i;
          q1 = account_request r (dq s);
          b = bc_buf (bc s) ! rq_b r
      in rbind (rw (rq_b r) (b_blockno b) (rq_type r = DISK_REQ_WRITE) (b_data b) (drv s))
           (\<lambda>(data, v).
              Inr (s\<lparr>bc := upd_buf (rq_b r) (\<lambda>b. b\<lparr>b_data := data\<rparr>) (bc s),
                     dq := upd_req i (\<lambda>r. r\<lparr>rq_completed := True\<rparr>) q1,
                     drv := v\<rparr>)))"

fun run_disk_dispatcher :: "nat \<Rightarrow> 'v driver \<Rightarrow> (nat \<Rightarrow> int) \<Rightarrow> 'v bio \<Rightarrow> 'v bio res" where
  "run_disk_dispatcher 0 rw level s = Inl OutOfFuel"
| "run_disk_dispatcher (Suc fuel) rw level s =
     rbind (dequeue_disk_request_locked level (dq s))
       (\<lambda>(r, q). case r of
          None \<Rightarrow> Inr (s\<lparr>dq := q\<lparr>dq_busy := False\<rparr>\<rparr>)
        | Some i \<Rightarrow> rbind (serve_request rw i (s\<lparr>dq := q\<rparr>)) (run_disk_dispatcher fuel rw level))"

text \<open>\<open>me\<close> is \<open>myproc()\<close>. Waiting for a request that no dispatcher serves is \<open>Blocked\<close>.\<close>

definition submit_disk_request ::
  "'v driver \<Rightarrow> (nat \<Rightarrow> int) \<Rightarrow> nat option \<Rightarrow> nat \<Rightarrow> req_type \<Rightarrow> 'v bio \<Rightarrow> 'v bio res" where
  "submit_disk_request rw level me b ty s =
     (case alloc_req (dq s) of
        (None, q) \<Rightarrow> Inl (Panic ''submit_disk_request: request pool exhausted'')
      | (Some req, q) \<Rightarrow>
          rbind (enqueue_disk_request_locked req
                   (upd_req req (\<lambda>r. r\<lparr>rq_b := b, rq_blockno := int_of_uint (b_blockno (bc_buf (bc s) ! b)),
                                       rq_type := ty, rq_proc := me\<rparr>) q))
            (\<lambda>q1.
               rbind (if dq_busy q1 then Inr (s\<lparr>dq := q1\<rparr>)
                      else run_disk_dispatcher (Suc (Suc (length (req_pool q1)))) rw level
                             (s\<lparr>dq := q1\<lparr>dq_busy := True\<rparr>\<rparr>))
                 (\<lambda>s1. if rq_completed (req_pool (dq s1) ! req)
                       then Inr (s1\<lparr>dq := free_req req (dq s1)\<rparr>)
                       else Inl Blocked)))"

definition bread ::
  "'v driver \<Rightarrow> (nat \<Rightarrow> int) \<Rightarrow> nat option \<Rightarrow> u32 \<Rightarrow> u32 \<Rightarrow> 'v bio \<Rightarrow> (nat \<times> 'v bio) res" where
  "bread rw level me dev blockno s =
     rbind (bget dev blockno (bc s))
       (\<lambda>(b, c). let s1 = s\<lparr>bc := c\<rparr>
                 in if b_valid (bc_buf c ! b) then Inr (b, s1)
                    else rbind (submit_disk_request rw level me b DISK_REQ_READ s1)
                           (\<lambda>s2. Inr (b, s2\<lparr>bc := upd_buf b (\<lambda>r. r\<lparr>b_valid := True\<rparr>) (bc s2)\<rparr>)))"

definition bwrite :: "'v driver \<Rightarrow> (nat \<Rightarrow> int) \<Rightarrow> nat option \<Rightarrow> nat \<Rightarrow> 'v bio \<Rightarrow> 'v bio res" where
  "bwrite rw level me b s =
     panic_if (\<not> b_locked (bc_buf (bc s) ! b)) ''bwrite''
       (submit_disk_request rw level me b DISK_REQ_WRITE s)"

definition brelse_cache :: "nat \<Rightarrow> bcache \<Rightarrow> bcache res" where
  "brelse_cache b c =
     panic_if (\<not> b_locked (bc_buf c ! b)) ''brelse''
       (let c1 = upd_buf b (\<lambda>r. r\<lparr>b_locked := False\<rparr>) c;
            c2 = upd_buf b (\<lambda>r. r\<lparr>b_refcnt := b_refcnt r - 1\<rparr>) c1
        in Inr (if b_refcnt (bc_buf c2 ! b) = 0 then link_front b (unlink_buf b c2) else c2))"

definition brelse :: "nat \<Rightarrow> 'v bio \<Rightarrow> 'v bio res" where
  "brelse b s = rbind (brelse_cache b (bc s)) (\<lambda>c. Inr (s\<lparr>bc := c\<rparr>))"

definition bpin :: "nat \<Rightarrow> bcache \<Rightarrow> bcache" where
  "bpin b c = upd_buf b (\<lambda>r. r\<lparr>b_refcnt := b_refcnt r + 1\<rparr>) c"

definition bunpin :: "nat \<Rightarrow> bcache \<Rightarrow> bcache" where
  "bunpin b c = upd_buf b (\<lambda>r. r\<lparr>b_refcnt := b_refcnt r - 1\<rparr>) c"

text \<open>
  The two shapes in which the swap code uses the cache: read a block and copy it out
  (\<open>bread; memmove; brelse\<close>), and read a block, overwrite it and write it back
  (\<open>bread; memmove; bwrite; brelse\<close>).
\<close>

definition block_read ::
  "'v driver \<Rightarrow> (nat \<Rightarrow> int) \<Rightarrow> nat option \<Rightarrow> u32 \<Rightarrow> u32 \<Rightarrow> 'v bio \<Rightarrow> (block \<times> 'v bio) res" where
  "block_read rw level me dev n s =
     rbind (bread rw level me dev n s)
       (\<lambda>(b, s1). let data = b_data (bc_buf (bc s1) ! b)
                  in rbind (brelse b s1) (\<lambda>s2. Inr (data, s2)))"

definition block_write ::
  "'v driver \<Rightarrow> (nat \<Rightarrow> int) \<Rightarrow> nat option \<Rightarrow> u32 \<Rightarrow> u32 \<Rightarrow> block \<Rightarrow> 'v bio \<Rightarrow> 'v bio res" where
  "block_write rw level me dev n d s =
     rbind (bread rw level me dev n s)
       (\<lambda>(b, s1). rbind (bwrite rw level me b (s1\<lparr>bc := upd_buf b (\<lambda>r. r\<lparr>b_data := d\<rparr>) (bc s1)\<rparr>))
          (brelse b))"


section \<open>The list the links stand for\<close>

fun dlist :: "bcache \<Rightarrow> nat \<Rightarrow> nat list \<Rightarrow> nat \<Rightarrow> bool" where
  "dlist c p [] n \<longleftrightarrow> bnext c p = n \<and> bprev c n = p"
| "dlist c p (x # xs) n \<longleftrightarrow> bnext c p = x \<and> bprev c x = p \<and> dlist c x xs n"

text \<open>\<open>lru c xs\<close>: following \<open>next\<close> from the sentinel visits \<open>xs\<close>, following \<open>prev\<close> visits it backwards.\<close>

definition lru :: "bcache \<Rightarrow> nat list \<Rightarrow> bool" where
  "lru c xs \<longleftrightarrow> dlist c (nbuf c) xs (nbuf c) \<and> distinct xs \<and> set xs \<subseteq> {..<nbuf c}"

lemma upd_buf_simps [simp]:
  "head_next (upd_buf i f c) = head_next c"
  "head_prev (upd_buf i f c) = head_prev c"
  "length (bc_buf (upd_buf i f c)) = nbuf c"
  by (simp_all add: upd_buf_def)

lemma upd_buf_nth:
  "j < nbuf c \<Longrightarrow> bc_buf (upd_buf i f c) ! j = (if i = j then f (bc_buf c ! j) else bc_buf c ! j)"
  by (simp add: upd_buf_def)

lemma nbuf_set [simp]:
  "nbuf (set_next i v c) = nbuf c" "nbuf (set_prev i v c) = nbuf c"
  by (simp_all add: set_next_def set_prev_def)

lemma links_set_next [simp]:
  assumes "i \<le> nbuf c" and "j \<le> nbuf c"
  shows "bnext (set_next i v c) j = (if j = i then v else bnext c j)"
    and "bprev (set_next i v c) j = bprev c j"
  using assms by (auto simp: bnext_def bprev_def set_next_def upd_buf_nth)

lemma links_set_prev [simp]:
  assumes "i \<le> nbuf c" and "j \<le> nbuf c"
  shows "bprev (set_prev i v c) j = (if j = i then v else bprev c j)"
    and "bnext (set_prev i v c) j = bnext c j"
  using assms by (auto simp: bnext_def bprev_def set_prev_def upd_buf_nth)

lemma dlist_append: "dlist c p (xs @ y # ys) n \<longleftrightarrow> dlist c p xs y \<and> dlist c y ys n"
  by (induction xs arbitrary: p) auto

lemma dlist_cong:
  assumes "\<And>a. a \<in> set (p # xs) \<Longrightarrow> bnext c' a = bnext c a"
    and "\<And>b. b \<in> insert n (set xs) \<Longrightarrow> bprev c' b = bprev c b"
  shows "dlist c' p xs n = dlist c p xs n"
  using assms by (induction xs arbitrary: p) auto

lemma head_links: "head_next c = bnext c (nbuf c)" "head_prev c = bprev c (nbuf c)"
  by (simp_all add: bnext_def bprev_def)


lemma link_front_links:
  assumes "b < nbuf c" "head_next c \<le> nbuf c" "j \<le> nbuf c" "b \<noteq> head_next c"
  shows "bnext (link_front b c) j = (if j = nbuf c then b else if j = b then head_next c else bnext c j)"
    and "bprev (link_front b c) j = (if j = head_next c then b else if j = b then nbuf c else bprev c j)"
    and "nbuf (link_front b c) = nbuf c"
proof -
  define c1 where "c1 = set_next b (head_next c) c"
  define c2 where "c2 = set_prev b (nbuf c1) c1"
  define c3 where "c3 = set_prev (head_next c2) b c2"
  have lf: "link_front b c = c3\<lparr>head_next := b\<rparr>"
    by (simp add: link_front_def c1_def c2_def c3_def Let_def)
  have h2: "head_next c2 = head_next c"
    using assms by (simp add: c1_def c2_def set_next_def set_prev_def)
  have c3: "c3 = set_prev (head_next c) b c2" by (simp add: c3_def h2)
  have n3: "nbuf c3 = nbuf c" by (simp add: c1_def c2_def c3_def)
  have bn: "bnext (c3\<lparr>head_next := b\<rparr>) j = (if j = nbuf c then b else bnext c3 j)"
    using assms n3 by (auto simp: bnext_def)
  have bp: "bprev (c3\<lparr>head_next := b\<rparr>) j = bprev c3 j"
    by (simp add: bprev_def)
  show "bnext (link_front b c) j = (if j = nbuf c then b else if j = b then head_next c else bnext c j)"
    unfolding lf bn unfolding c3 using assms by (simp add: c2_def c1_def)
  show "bprev (link_front b c) j = (if j = head_next c then b else if j = b then nbuf c else bprev c j)"
    unfolding lf bp unfolding c3 using assms by (simp add: c2_def c1_def)
  show "nbuf (link_front b c) = nbuf c" by (simp add: lf n3)
qed

lemma lru_head_next: "lru c xs \<Longrightarrow> head_next c = (case xs of [] \<Rightarrow> nbuf c | x # _ \<Rightarrow> x)"
  by (cases xs) (auto simp: lru_def head_links)

lemma link_front_lru:
  assumes "lru c xs" and "b < nbuf c" and "b \<notin> set xs"
  shows "lru (link_front b c) (b # xs)" and "nbuf (link_front b c) = nbuf c"
proof -
  have hn: "head_next c \<le> nbuf c" "b \<noteq> head_next c"
    using assms by (auto simp: lru_def lru_head_next [OF assms(1)] split: list.splits)
  note L = link_front_links [OF assms(2) hn(1) _ hn(2)]
  show n: "nbuf (link_front b c) = nbuf c" using L(3) [of 0] by simp
  have "dlist (link_front b c) b xs (nbuf c)"
  proof (cases xs)
    case Nil
    with assms show ?thesis by (simp add: L lru_head_next [OF assms(1)])
  next
    case (Cons f ys)
    from assms(1) Cons have d: "dlist c f ys (nbuf c)" "distinct (f # ys)" "set (f # ys) \<subseteq> {..<nbuf c}"
      by (auto simp: lru_def)
    have "dlist (link_front b c) f ys (nbuf c) = dlist c f ys (nbuf c)"
      by (rule dlist_cong) (use d assms Cons lru_head_next [OF assms(1)] in \<open>auto simp: L less_imp_le\<close>)
    with d assms Cons show ?thesis
      by (simp add: L lru_head_next [OF assms(1)] less_imp_le)
  qed
  then show "lru (link_front b c) (b # xs)"
    using assms by (auto simp: lru_def n L less_imp_le lru_head_next [OF assms(1)] split: list.splits)
qed

lemma dlist_last: "dlist c p xs n \<Longrightarrow> bnext c (last (p # xs)) = n \<and> bprev c n = last (p # xs)"
  by (induction xs arbitrary: p) auto

lemma unlink_buf_lru:
  assumes "lru c (as @ b # bs)"
  shows "lru (unlink_buf b c) (as @ bs)" and "nbuf (unlink_buf b c) = nbuf c"
proof -
  let ?N = "nbuf c"
  define pr nx where "pr = bprev c b" and "nx = bnext c b"
  from assms have d1: "dlist c ?N as b" and d2: "dlist c b bs ?N"
    and dist: "distinct (as @ b # bs)" and sub: "set (as @ b # bs) \<subseteq> {..<?N}"
    by (auto simp: lru_def dlist_append)
  have pr: "pr = last (?N # as)" using dlist_last [OF d1] by (simp add: pr_def)
  have nx: "nx = hd (bs @ [?N])" using d2 by (cases bs) (auto simp: nx_def)
  have le: "b < ?N" "pr \<le> ?N" "nx \<le> ?N"
    using sub by (cases as rule: rev_cases; cases bs; auto simp: pr nx less_imp_le)+
  have nb: "nx \<noteq> b" "pr \<noteq> b"
    using dist le by (cases as rule: rev_cases; cases bs; auto simp: pr nx)+
  let ?c = "unlink_buf b c"
  have uc: "?c = set_next pr nx (set_prev nx pr c)"
    using le nb by (simp add: unlink_buf_def Let_def pr_def [symmetric] nx_def [symmetric])
  have n: "nbuf ?c = ?N" by (simp add: uc)
  have L: "bnext ?c j = (if j = pr then nx else bnext c j)"
          "bprev ?c j = (if j = nx then pr else bprev c j)" if "j \<le> ?N" for j
    using le that by (simp_all add: uc)
  have "dlist ?c ?N (as @ bs) ?N"
  proof (cases as rule: rev_cases)
    case Nil
    have p: "pr = ?N" using Nil pr by simp
    show ?thesis
    proof (cases bs)
      case Nil
      with \<open>as = []\<close> p nx show ?thesis by (simp add: L)
    next
      case (Cons f fs)
      have "dlist ?c f fs ?N = dlist c f fs ?N"
        by (rule dlist_cong) (use sub dist Cons nx p in \<open>auto simp: L less_imp_le\<close>)
      with d2 Cons \<open>as = []\<close> p nx sub show ?thesis by (simp add: L less_imp_le)
    qed
  next
    case (snoc cs e)
    have p: "pr = e" using snoc pr by simp
    have dcs: "dlist c ?N cs e" using d1 snoc by (simp add: dlist_append)
    have nxcs: "nx \<notin> set (cs @ [e])" using dist sub snoc nx by (cases bs) auto
    have "dlist ?c ?N cs e = dlist c ?N cs e"
      by (rule dlist_cong) (use sub dist snoc nxcs p in \<open>auto simp: L less_imp_le\<close>)
    moreover have "dlist ?c e bs ?N"
    proof (cases bs)
      case Nil
      with p nx le show ?thesis by (simp add: L)
    next
      case (Cons f fs)
      have "dlist ?c f fs ?N = dlist c f fs ?N"
        by (rule dlist_cong) (use sub dist Cons nx p snoc in \<open>auto simp: L less_imp_le\<close>)
      with d2 Cons p nx sub snoc show ?thesis by (simp add: L less_imp_le)
    qed
    ultimately show ?thesis using dcs snoc by (simp add: dlist_append)
  qed
  then show "lru ?c (as @ bs)" using dist sub by (auto simp: lru_def n)
  show "nbuf ?c = ?N" by (rule n)
qed

text \<open>Links are all that these two change.\<close>

definition unlinked_buf :: "buf \<Rightarrow> buf" where
  "unlinked_buf b = b\<lparr>b_prev := 0, b_next := 0\<rparr>"

abbreviation contents :: "bcache \<Rightarrow> buf list" where
  "contents c \<equiv> map unlinked_buf (bc_buf c)"

lemma map_unlinked_update:
  assumes "\<And>b. unlinked_buf (f b) = unlinked_buf b"
  shows "map unlinked_buf (xs[i := f (xs ! i)]) = map unlinked_buf xs"
  by (metis assms list_update_id map_update)

lemma contents_set [simp]:
  "contents (set_next i v c) = contents c" "contents (set_prev i v c) = contents c"
  by (auto simp: set_next_def set_prev_def upd_buf_def unlinked_buf_def intro!: map_unlinked_update)

lemma contents_link [simp]:
  "contents (link_front b c) = contents c" "contents (unlink_buf b c) = contents c"
  by (simp_all add: link_front_def unlink_buf_def Let_def)


lemma list_walk_dlist:
  assumes "dlist c p xs n" and "n \<notin> set xs" and "length xs < fuel"
  shows "list_walk fuel (bnext c) n P (bnext c p) = Some (find P xs)"
  using assms
proof (induction xs arbitrary: p fuel)
  case Nil
  then show ?case by (cases fuel) auto
next
  case (Cons x xs)
  then obtain f where "fuel = Suc f" by (cases fuel) auto
  with Cons show ?case by auto
qed

lemma list_walk_dlist_back:
  assumes "dlist c p xs n" and "p \<notin> set xs" and "length xs < fuel"
  shows "list_walk fuel (bprev c) p P (bprev c n) = Some (find P (rev xs))"
  using assms
proof (induction xs arbitrary: n fuel rule: rev_induct)
  case Nil
  then show ?case by (cases fuel) auto
next
  case (snoc x xs)
  then obtain f where "fuel = Suc f" by (cases fuel) auto
  with snoc show ?case by (auto simp: dlist_append)
qed

declare list_walk.simps(2) [simp del]

lemma lru_bounds:
  assumes "lru c xs"
  shows "length xs < Suc (nbuf c)" and "nbuf c \<notin> set xs"
proof -
  have "card (set xs) \<le> card {..<nbuf c}"
    using assms by (intro card_mono) (auto simp: lru_def)
  then show "length xs < Suc (nbuf c)"
    using assms distinct_card [of xs] by (simp add: lru_def)
  show "nbuf c \<notin> set xs" using assms by (auto simp: lru_def)
qed

lemma lru_walk:
  assumes "lru c xs"
  shows "list_walk (Suc (nbuf c)) (bnext c) (nbuf c) P (head_next c) = Some (find P xs)"
    and "list_walk (Suc (nbuf c)) (bprev c) (nbuf c) P (head_prev c) = Some (find P (rev xs))"
  using assms lru_bounds [OF assms] unfolding lru_def head_links
  by (auto intro: list_walk_dlist list_walk_dlist_back)

text \<open>The list and the links do not see a change of the other fields.\<close>

lemma lru_upd_buf:
  assumes "\<And>r. b_next (f r) = b_next r" and "\<And>r. b_prev (f r) = b_prev r"
  shows "lru (upd_buf i f c) xs = lru c xs"
proof -
  have "bnext (upd_buf i f c) j = bnext c j" "bprev (upd_buf i f c) j = bprev c j" for j
    using assms by (auto simp: bnext_def bprev_def upd_buf_nth)
  then show ?thesis
    using dlist_cong [of "nbuf c" xs "upd_buf i f c" c "nbuf c"] by (simp add: lru_def)
qed

text \<open>\<open>binit\<close> builds the list of all buffers, the last one in front.\<close>

lemma binit_fold_lru:
  assumes "lru c []" and "k \<le> nbuf c"
  shows "lru (fold (\<lambda>b c. upd_buf b (\<lambda>r. r\<lparr>b_locked := False\<rparr>) (link_front b c)) [0..<k] c) (rev [0..<k])
       \<and> nbuf (fold (\<lambda>b c. upd_buf b (\<lambda>r. r\<lparr>b_locked := False\<rparr>) (link_front b c)) [0..<k] c) = nbuf c"
  using assms(2)
proof (induction k)
  case 0
  with assms show ?case by simp
next
  case (Suc k)
  then have IH: "lru (fold (\<lambda>b c. upd_buf b (\<lambda>r. r\<lparr>b_locked := False\<rparr>) (link_front b c)) [0..<k] c) (rev [0..<k])"
    "nbuf (fold (\<lambda>b c. upd_buf b (\<lambda>r. r\<lparr>b_locked := False\<rparr>) (link_front b c)) [0..<k] c) = nbuf c"
    by auto
  from link_front_lru [OF IH(1), of k] Suc.prems IH(2) show ?case
    by (simp add: lru_upd_buf)
qed

lemma binit_cache_lru: "lru (binit_cache c) (rev [0..<nbuf c])"
proof -
  have "lru (c\<lparr>head_prev := nbuf c, head_next := nbuf c\<rparr>) []"
    by (simp add: lru_def bnext_def bprev_def)
  from binit_fold_lru [OF this, of "nbuf c"] show ?thesis
    by (simp add: binit_cache_def)
qed


section \<open>\<open>bget\<close> and \<open>brelse\<close>\<close>

text \<open>
  \<open>cached c dev n b\<close>: buffer \<open>b\<close> holds block \<open>n\<close> of \<open>dev\<close>. The cache is \<open>single\<close> for a device
  when no block of it is held twice.
\<close>

definition cached :: "bcache \<Rightarrow> u32 \<Rightarrow> u32 \<Rightarrow> nat \<Rightarrow> bool" where
  "cached c dev n b \<longleftrightarrow> b < nbuf c \<and> b_dev (bc_buf c ! b) = dev \<and> b_blockno (bc_buf c ! b) = n"

definition single :: "bcache \<Rightarrow> u32 \<Rightarrow> bool" where
  "single c dev \<longleftrightarrow> (\<forall>n b b'. cached c dev n b \<longrightarrow> cached c dev n b' \<longrightarrow> b = b')"

text \<open>\<open>full_lru c xs\<close>: the list has every buffer.\<close>

definition full_lru :: "bcache \<Rightarrow> nat list \<Rightarrow> bool" where
  "full_lru c xs \<longleftrightarrow> lru c xs \<and> set xs = {..<nbuf c}"

lemma full_lru_upd_buf:
  assumes "\<And>r. b_next (f r) = b_next r" and "\<And>r. b_prev (f r) = b_prev r"
  shows "full_lru (upd_buf i f c) xs = full_lru c xs"
  by (simp add: full_lru_def lru_upd_buf [OF assms])

lemma find_eq_None: "find P xs = None \<longleftrightarrow> (\<forall>x \<in> set xs. \<not> P x)"
  by (induction xs) auto

lemma find_eq_SomeD: "find P xs = Some x \<Longrightarrow> x \<in> set xs \<and> P x"
  by (induction xs) (auto split: if_splits)

lemma bget_hit:
  assumes "full_lru c xs" and "single c dev" and "cached c dev n b"
  shows "bget dev n c = (if b_locked (bc_buf c ! b) then Inl Blocked
           else Inr (b, upd_buf b (\<lambda>r. r\<lparr>b_refcnt := b_refcnt r + 1, b_locked := True\<rparr>) c))"
proof -
  have lru: "lru c xs" using assms by (simp add: full_lru_def)
  let ?P = "\<lambda>b. b_dev (bc_buf c ! b) = dev \<and> b_blockno (bc_buf c ! b) = n"
  have "find ?P xs \<noteq> None"
    using assms by (auto simp: find_eq_None full_lru_def cached_def)
  then obtain b' where "find ?P xs = Some b'" by auto
  with assms have f: "find ?P xs = Some b"
    by (auto dest!: find_eq_SomeD simp: single_def cached_def full_lru_def)
  have b: "b < nbuf c" using assms by (simp add: cached_def)
  show ?thesis
    using b by (simp add: bget_def lru_walk [OF lru] f acquiresleep_def upd_buf_nth)
      (simp add: upd_buf_def)
qed

text \<open>On a miss the least recently used free buffer is taken; with none free the kernel panics.\<close>

lemma bget_miss:
  assumes "full_lru c xs" and "\<nexists>b. cached c dev n b"
  shows "bget dev n c = (case find (\<lambda>b. b_refcnt (bc_buf c ! b) = 0) (rev xs) of
           None \<Rightarrow> Inl (Panic ''bget: no buffers'')
         | Some b \<Rightarrow> if b_locked (bc_buf c ! b) then Inl Blocked
             else Inr (b, upd_buf b (\<lambda>r. r\<lparr>b_dev := dev, b_blockno := n, b_valid := False,
                                          b_refcnt := 1, b_locked := True\<rparr>) c))"
proof -
  have lru: "lru c xs" using assms by (simp add: full_lru_def)
  have f: "find (\<lambda>b. b_dev (bc_buf c ! b) = dev \<and> b_blockno (bc_buf c ! b) = n) xs = None"
    using assms by (auto simp: find_eq_None full_lru_def cached_def)
  have lt: "b < nbuf c" if "find (\<lambda>b. b_refcnt (bc_buf c ! b) = 0) (rev xs) = Some b" for b
    using that assms by (auto dest!: find_eq_SomeD simp: full_lru_def)
  show ?thesis
    by (auto simp: bget_def lru_walk [OF lru] f acquiresleep_def upd_buf_nth lt split: option.splits)
      (simp_all add: upd_buf_def lt)
qed


lemma contents_fields:
  assumes "contents c' = contents c" and "j < nbuf c"
  shows "b_valid (bc_buf c' ! j) = b_valid (bc_buf c ! j)" "b_dev (bc_buf c' ! j) = b_dev (bc_buf c ! j)"
    "b_blockno (bc_buf c' ! j) = b_blockno (bc_buf c ! j)" "b_locked (bc_buf c' ! j) = b_locked (bc_buf c ! j)"
    "b_refcnt (bc_buf c' ! j) = b_refcnt (bc_buf c ! j)" "b_data (bc_buf c' ! j) = b_data (bc_buf c ! j)"
proof -
  have "unlinked_buf (bc_buf c' ! j) = unlinked_buf (bc_buf c ! j)"
    using assms by (metis length_map nth_map)
  then show "b_valid (bc_buf c' ! j) = b_valid (bc_buf c ! j)" "b_dev (bc_buf c' ! j) = b_dev (bc_buf c ! j)"
    "b_blockno (bc_buf c' ! j) = b_blockno (bc_buf c ! j)" "b_locked (bc_buf c' ! j) = b_locked (bc_buf c ! j)"
    "b_refcnt (bc_buf c' ! j) = b_refcnt (bc_buf c ! j)" "b_data (bc_buf c' ! j) = b_data (bc_buf c ! j)"
    by (auto simp: unlinked_buf_def dest: arg_cong [of _ _ b_valid] arg_cong [of _ _ b_dev]
        arg_cong [of _ _ b_blockno] arg_cong [of _ _ b_locked] arg_cong [of _ _ b_refcnt] arg_cong [of _ _ b_data])
qed

text \<open>The last reference moves the buffer to the front of the list.\<close>

lemma brelse_cache_spec:
  assumes full: "full_lru c xs" and b: "b < nbuf c" and locked: "b_locked (bc_buf c ! b)"
  shows "\<exists>c'. brelse_cache b c = Inr c'
     \<and> full_lru c' (if b_refcnt (bc_buf c ! b) = 1 then b # remove1 b xs else xs)
     \<and> contents c' = contents (upd_buf b (\<lambda>r. r\<lparr>b_locked := False, b_refcnt := b_refcnt r - 1\<rparr>) c)
     \<and> nbuf c' = nbuf c"
proof -
  define c2 where "c2 = upd_buf b (\<lambda>r. r\<lparr>b_locked := False, b_refcnt := b_refcnt r - 1\<rparr>) c"
  have n2: "nbuf c2 = nbuf c" by (simp add: c2_def)
  have "upd_buf b (\<lambda>r. r\<lparr>b_refcnt := b_refcnt r - 1\<rparr>) (upd_buf b (\<lambda>r. r\<lparr>b_locked := False\<rparr>) c) = c2"
    using b by (simp add: c2_def upd_buf_def)
  then have eq: "brelse_cache b c
      = Inr (if b_refcnt (bc_buf c2 ! b) = 0 then link_front b (unlink_buf b c2) else c2)"
    using locked by (simp add: brelse_cache_def)
  have zero: "b_refcnt (bc_buf c2 ! b) = 0 \<longleftrightarrow> b_refcnt (bc_buf c ! b) = 1"
    using b by (simp add: c2_def upd_buf_nth)
  have full2: "full_lru c2 xs" using full by (simp add: c2_def full_lru_upd_buf)
  have "b \<in> set xs" using full b by (auto simp: full_lru_def)
  then obtain as bs where xs: "xs = as @ b # bs" "b \<notin> set as" by (meson split_list_first)
  have rm: "remove1 b xs = as @ bs" using xs by (simp add: remove1_append)
  have l2: "lru c2 (as @ b # bs)" using full2 xs by (simp add: full_lru_def)
  then have nb: "b \<notin> set (as @ bs)" by (auto simp: lru_def)
  have l3: "lru (link_front b (unlink_buf b c2)) (b # as @ bs)"
    "nbuf (link_front b (unlink_buf b c2)) = nbuf c"
    using link_front_lru [OF unlink_buf_lru(1) [OF l2], of b] nb b unlink_buf_lru(2) [OF l2] n2 by auto
  have "full_lru (link_front b (unlink_buf b c2)) (b # remove1 b xs)"
    using l3 full xs unfolding full_lru_def rm by auto
  then show ?thesis
    using full2 l3(2) n2 by (auto simp: eq zero c2_def [symmetric])
qed


section \<open>What the cache relies on: the disk driver\<close>

text \<open>
  \<open>dsk v n\<close> is the content of block \<open>n\<close>. A read returns it, a write replaces it, and no other
  block changes. Every block has \<open>bs\<close> (\<open>BSIZE\<close>) bytes.
\<close>

locale block_driver =
  fixes bs :: nat
    and rw :: "'v driver"
    and dsk :: "'v \<Rightarrow> u32 \<Rightarrow> block"
    and vinv :: "'v \<Rightarrow> bool"
    and valid :: "u32 \<Rightarrow> bool"
  assumes block_length: "vinv v \<Longrightarrow> length (dsk v n) = bs"
    and rw_read: "vinv v \<Longrightarrow> valid n \<Longrightarrow> length d = bs \<Longrightarrow>
          \<exists>v'. rw b n False d v = Inr (dsk v n, v') \<and> vinv v' \<and> dsk v' = dsk v"
    and rw_write: "vinv v \<Longrightarrow> valid n \<Longrightarrow> length d = bs \<Longrightarrow>
          \<exists>v'. rw b n True d v = Inr (d, v') \<and> vinv v' \<and> dsk v' = (dsk v)(n := d)"

definition bufs_sized :: "nat \<Rightarrow> bcache \<Rightarrow> bool" where
  "bufs_sized bs c \<longleftrightarrow> (\<forall>b \<in> set (bc_buf c). length (b_data b) = bs)"

lemma bufs_sized_nth: "bufs_sized bs c \<Longrightarrow> j < nbuf c \<Longrightarrow> length (b_data (bc_buf c ! j)) = bs"
  by (simp add: bufs_sized_def)

lemma bufs_sized_upd:
  "bufs_sized bs c \<Longrightarrow> (i < nbuf c \<Longrightarrow> length (b_data (f (bc_buf c ! i))) = bs) \<Longrightarrow> bufs_sized bs (upd_buf i f c)"
  by (cases "i < nbuf c") (auto simp: bufs_sized_def all_set_conv_all_nth upd_buf_def nth_list_update
      list_update_beyond not_less)

lemma bufs_sized_contents:
  assumes "contents c' = contents c" and "bufs_sized bs c"
  shows "bufs_sized bs c'"
proof -
  have "nbuf c' = nbuf c" using assms(1) by (metis length_map)
  then show ?thesis
    using assms contents_fields(6) [OF assms(1)] by (simp add: bufs_sized_def all_set_conv_all_nth)
qed

text \<open>Bookkeeping leaves the links alone.\<close>

lemma account_request_simps [simp]:
  "req_pool (account_request r q) = req_pool q"
  "dq_head (account_request r q) = dq_head q"
  "dq_busy (account_request r q) = dq_busy q"
  "disk_sched_policy (account_request r q) = disk_sched_policy q"
  "current_disk_head (account_request r q) = rq_blockno r"
  "disk_req_count (account_request r q) = disk_req_count q + 1"
  "disk_reads (account_request r q) = disk_reads q + (if rq_type r = DISK_REQ_READ then 1 else 0)"
  "disk_writes (account_request r q) = disk_writes q + (if rq_type r = DISK_REQ_READ then 0 else 1)"
  by (simp_all add: account_request_def Let_def)

lemma queue_of_cong:
  assumes "dq_head q' = dq_head q" and "length (req_pool q') = length (req_pool q)"
    and "\<And>x. x \<in> set xs \<Longrightarrow> rq_next (req_pool q' ! x) = rq_next (req_pool q ! x)"
  shows "queue_of q' xs = queue_of q xs"
  using path_next_cong [of "req_pool q'" "req_pool q" xs] assms by (simp add: queue_of_def)

lemma upd_req_nth:
  "j < length (req_pool q) \<Longrightarrow> req_pool (upd_req i f q) ! j = (if i = j then f (req_pool q ! j) else req_pool q ! j)"
  by (simp add: upd_req_pool)

lemma queue_of_upd_req:
  assumes "\<And>r. rq_next (f r) = rq_next r"
  shows "queue_of (upd_req i f q) xs = queue_of q xs"
proof (rule queue_of_cong)
  fix x
  show "rq_next (req_pool (upd_req i f q) ! x) = rq_next (req_pool q ! x)"
    by (cases "i < length (req_pool q)")
      (auto simp: upd_req_pool nth_list_update assms list_update_beyond not_less)
qed simp_all

lemma queue_of_account [simp]: "queue_of (account_request r q) xs = queue_of q xs"
  by (rule queue_of_cong) simp_all

context block_driver
begin

lemma serve_request_spec:
  assumes "vinv (drv s)" and "bufs_sized bs (bc s)" and b: "rq_b (req_pool (dq s) ! i) < nbuf (bc s)"
    and r_def: "r = req_pool (dq s) ! i"
    and n_def: "n = b_blockno (bc_buf (bc s) ! rq_b r)"
    and d_def: "d = (if rq_type r = DISK_REQ_WRITE then b_data (bc_buf (bc s) ! rq_b r) else dsk (drv s) n)"
    and n: "valid n"
  shows "\<exists>v'. serve_request rw i s
      = Inr (s\<lparr>bc := upd_buf (rq_b r) (\<lambda>b. b\<lparr>b_data := d\<rparr>) (bc s),
               dq := upd_req i (\<lambda>r. r\<lparr>rq_completed := True\<rparr>) (account_request r (dq s)), drv := v'\<rparr>)
    \<and> vinv v' \<and> length d = bs
    \<and> dsk v' = (if rq_type r = DISK_REQ_WRITE then (dsk (drv s))(n := d) else dsk (drv s))"
proof -
  have len: "length (b_data (bc_buf (bc s) ! rq_b r)) = bs"
    using assms(2) b by (simp add: bufs_sized_nth r_def)
  show ?thesis
  proof (cases "rq_type r = DISK_REQ_WRITE")
    case True
    with rw_write [OF assms(1) n len, of "rq_b r"] len show ?thesis
      by (auto simp: serve_request_def Let_def r_def [symmetric] n_def [symmetric] d_def)
  next
    case False
    with rw_read [OF assms(1) n len, of "rq_b r"] block_length [OF assms(1)] show ?thesis
      by (auto simp: serve_request_def Let_def r_def [symmetric] n_def [symmetric] d_def)
  qed
qed

text \<open>
  The dispatcher empties the queue: with more fuel than there are requests it returns, every
  queued request is completed and counted once, and no other request is touched.
\<close>

lemma dispatcher_drains:
  assumes "queue_of (dq s) xs" and "length xs < fuel" and "vinv (drv s)" and "bufs_sized bs (bc s)"
    and "\<And>i. i \<in> set xs \<Longrightarrow> rq_b (req_pool (dq s) ! i) < nbuf (bc s)
          \<and> valid (b_blockno (bc_buf (bc s) ! rq_b (req_pool (dq s) ! i)))"
  shows "\<exists>s'. run_disk_dispatcher fuel rw level s = Inr s'
     \<and> queue_of (dq s') [] \<and> \<not> dq_busy (dq s') \<and> vinv (drv s') \<and> bufs_sized bs (bc s')
     \<and> length (req_pool (dq s')) = length (req_pool (dq s))
     \<and> disk_req_count (dq s') = disk_req_count (dq s) + of_nat (length xs)
     \<and> (\<forall>i < length (req_pool (dq s)). rq_used (req_pool (dq s') ! i) = rq_used (req_pool (dq s) ! i)
          \<and> rq_completed (req_pool (dq s') ! i) = (rq_completed (req_pool (dq s) ! i) \<or> i \<in> set xs))"
  using assms
proof (induction fuel arbitrary: s xs)
  case 0
  then show ?case by simp
next
  case (Suc fuel)
  show ?case
  proof (cases "xs = []")
    case True
    with Suc.prems show ?thesis by (auto simp: dequeue_empty queue_of_def)
  next
    case False
    then obtain x as' bs' q' where deq: "dequeue_disk_request_locked level (dq s) = Inr (Some x, q')"
      and xs: "xs = as' @ x # bs'" and q': "queue_of q' (as' @ bs')" and un: "unlinked q' = unlinked (dq s)"
      using dequeue_some [OF Suc.prems(1)] by blast
    note pool = unlinked_length [OF un] unlinked_req_fields [OF un] unlinked_fields [OF un]
    have lt: "i < length (req_pool (dq s))" if "i \<in> set xs" for i
      using that path_set Suc.prems(1) by (fastforce simp: queue_of_def)
    have x: "x \<in> set xs" using xs by simp
    define s1 where "s1 = s\<lparr>dq := q'\<rparr>"
    have rb: "rq_b (req_pool (dq s1) ! i) < nbuf (bc s1)"
      "valid (b_blockno (bc_buf (bc s1) ! rq_b (req_pool (dq s1) ! i)))" if "i \<in> set xs" for i
      using Suc.prems(5) [OF that] lt [OF that] by (simp_all add: s1_def pool)
    obtain v' d where serve: "serve_request rw x s1 = Inr (s1\<lparr>
        bc := upd_buf (rq_b (req_pool (dq s1) ! x)) (\<lambda>b. b\<lparr>b_data := d\<rparr>) (bc s1),
        dq := upd_req x (\<lambda>r. r\<lparr>rq_completed := True\<rparr>) (account_request (req_pool (dq s1) ! x) (dq s1)),
        drv := v'\<rparr>)" and v': "vinv v'" and d: "length d = bs"
      using serve_request_spec [OF _ _ rb(1) [OF x] refl refl refl rb(2) [OF x]] Suc.prems(3,4) by (auto simp: s1_def)
    define s2 where "s2 = s1\<lparr>
        bc := upd_buf (rq_b (req_pool (dq s1) ! x)) (\<lambda>b. b\<lparr>b_data := d\<rparr>) (bc s1),
        dq := upd_req x (\<lambda>r. r\<lparr>rq_completed := True\<rparr>) (account_request (req_pool (dq s1) ! x) (dq s1)),
        drv := v'\<rparr>"
    have "queue_of (dq s2) (as' @ bs')"
      using q' by (simp add: s2_def s1_def queue_of_upd_req)
    moreover have "bufs_sized bs (bc s2)"
      using Suc.prems(4) d by (simp add: s2_def s1_def bufs_sized_upd)
    moreover have "rq_b (req_pool (dq s2) ! i) < nbuf (bc s2)
        \<and> valid (b_blockno (bc_buf (bc s2) ! rq_b (req_pool (dq s2) ! i)))" if "i \<in> set (as' @ bs')" for i
      using rb [of i] lt [of i] that xs by (simp add: s2_def s1_def upd_req_nth upd_buf_nth pool)
    moreover have "length (as' @ bs') < fuel" using Suc.prems(2) xs by simp
    ultimately obtain s' where s': "run_disk_dispatcher fuel rw level s2 = Inr s'"
      "queue_of (dq s') []" "\<not> dq_busy (dq s')" "vinv (drv s')" "bufs_sized bs (bc s')"
      "length (req_pool (dq s')) = length (req_pool (dq s2))"
      "disk_req_count (dq s') = disk_req_count (dq s2) + of_nat (length (as' @ bs'))"
      "\<forall>i < length (req_pool (dq s2)). rq_used (req_pool (dq s') ! i) = rq_used (req_pool (dq s2) ! i)
          \<and> rq_completed (req_pool (dq s') ! i) = (rq_completed (req_pool (dq s2) ! i) \<or> i \<in> set (as' @ bs'))"
      using Suc.IH [of s2 "as' @ bs'"] v' by (auto simp: s2_def)
    have "run_disk_dispatcher (Suc fuel) rw level s = Inr s'"
      using s'(1) serve by (simp add: deq s1_def [symmetric] s2_def [symmetric])
    then show ?thesis
      using s'(2-) lt [OF x] xs by (auto simp: s2_def s1_def pool upd_req_nth)
  qed
qed

end


section \<open>The cache invariant\<close>

text \<open>
  \<open>cache_inv bs disk region dev ex c\<close>: the list holds every buffer, no block of \<open>dev\<close> is cached
  twice, and an unreferenced buffer is unlocked and, if valid, equal to its block on \<open>disk\<close>.
  \<open>region\<close> are the blocks used by the swap code only: outside of a call nobody holds them. \<open>ex\<close>
  is the buffer a caller holds, between \<open>bread\<close> and \<open>brelse\<close>; with none held, some buffer is free.
\<close>

definition free_buf_ok :: "(u32 \<Rightarrow> block) \<Rightarrow> (u32 \<Rightarrow> bool) \<Rightarrow> u32 \<Rightarrow> buf \<Rightarrow> bool" where
  "free_buf_ok disk region dev b \<longleftrightarrow>
     (b_refcnt b = 0 \<longrightarrow> \<not> b_locked b \<and> (b_valid b \<longrightarrow> b_dev b = dev \<and> b_data b = disk (b_blockno b)))
   \<and> (region (b_blockno b) \<and> b_dev b = dev \<longrightarrow> b_refcnt b = 0)"

definition held_buf_ok :: "(u32 \<Rightarrow> bool) \<Rightarrow> u32 \<Rightarrow> buf \<Rightarrow> bool" where
  "held_buf_ok region dev b \<longleftrightarrow>
     b_refcnt b = 1 \<and> b_locked b \<and> b_dev b = dev \<and> region (b_blockno b)"

definition cache_inv ::
  "nat \<Rightarrow> (u32 \<Rightarrow> block) \<Rightarrow> (u32 \<Rightarrow> bool) \<Rightarrow> u32 \<Rightarrow> nat option \<Rightarrow> bcache \<Rightarrow> bool" where
  "cache_inv bs disk region dev ex c \<longleftrightarrow>
     (\<exists>xs. full_lru c xs) \<and> bufs_sized bs c \<and> single c dev
   \<and> (\<forall>j < nbuf c. ex \<noteq> Some j \<longrightarrow> free_buf_ok disk region dev (bc_buf c ! j))
   \<and> (case ex of
        None \<Rightarrow> \<exists>j < nbuf c. b_refcnt (bc_buf c ! j) = 0
      | Some b \<Rightarrow> b < nbuf c \<and> held_buf_ok region dev (bc_buf c ! b))"

lemma single_upd:
  assumes "single c dev" and "\<And>r. b_dev (f r) = b_dev r" and "\<And>r. b_blockno (f r) = b_blockno r"
  shows "single (upd_buf i f c) dev"
proof -
  have "cached (upd_buf i f c) dev n b = cached c dev n b" for n b
    using assms(2,3) by (auto simp: cached_def upd_buf_nth)
  then show ?thesis using assms(1) by (simp add: single_def)
qed

lemma single_new:
  assumes "single c dev" and "\<nexists>b. cached c dev n b"
    and "\<And>r. b_dev (f r) = dev" and "\<And>r. b_blockno (f r) = n"
  shows "single (upd_buf i f c) dev"
  unfolding single_def
proof (intro allI impI)
  fix m b b'
  assume A: "cached (upd_buf i f c) dev m b" "cached (upd_buf i f c) dev m b'"
  have c: "cached (upd_buf i f c) dev m j \<longleftrightarrow> (if j = i \<and> j < nbuf c then m = n else cached c dev m j)" for j
    using assms(3,4) by (auto simp: cached_def upd_buf_nth)
  show "b = b'" using A assms(1,2) unfolding c single_def by (metis cached_def)
qed

lemma cache_inv_take:
  assumes "cache_inv bs disk region dev None c" and "b < nbuf c"
    and "single (upd_buf b f c) dev" and "held_buf_ok region dev (f (bc_buf c ! b))"
    and "\<And>r. b_next (f r) = b_next r" "\<And>r. b_prev (f r) = b_prev r" "\<And>r. b_data (f r) = b_data r"
  shows "cache_inv bs disk region dev (Some b) (upd_buf b f c)"
  using assms
  by (simp add: cache_inv_def full_lru_upd_buf bufs_sized_upd bufs_sized_nth upd_buf_nth)

lemma cache_inv_bget:
  assumes inv: "cache_inv bs disk region dev None c" and n: "region n"
  shows "\<exists>b c'. bget dev n c = Inr (b, c') \<and> cache_inv bs disk region dev (Some b) c'
     \<and> b_blockno (bc_buf c' ! b) = n \<and> (b_valid (bc_buf c' ! b) \<longrightarrow> b_data (bc_buf c' ! b) = disk n)"
proof -
  from inv obtain xs where full: "full_lru c xs" and single: "single c dev"
    by (auto simp: cache_inv_def)
  have ok: "free_buf_ok disk region dev (bc_buf c ! j)" if "j < nbuf c" for j
    using inv that by (simp add: cache_inv_def)
  show ?thesis
  proof (cases "\<exists>b. cached c dev n b")
    case True
    then obtain b where b: "cached c dev n b" by blast
    then have lt: "b < nbuf c" by (simp add: cached_def)
    have r0: "b_refcnt (bc_buf c ! b) = 0" "\<not> b_locked (bc_buf c ! b)"
      "b_valid (bc_buf c ! b) \<longrightarrow> b_data (bc_buf c ! b) = disk n"
      using ok [OF lt] b n by (auto simp: free_buf_ok_def cached_def)
    let ?c = "upd_buf b (\<lambda>r. r\<lparr>b_refcnt := b_refcnt r + 1, b_locked := True\<rparr>) c"
    have "cache_inv bs disk region dev (Some b) ?c"
      by (rule cache_inv_take [OF inv lt])
        (use b n r0 single in \<open>simp_all add: single_upd held_buf_ok_def cached_def\<close>)
    then show ?thesis
      using bget_hit [OF full single b] b r0(2,3) by (simp add: cached_def upd_buf_nth)
  next
    case False
    from inv obtain j where j: "j < nbuf c" "b_refcnt (bc_buf c ! j) = 0" by (auto simp: cache_inv_def)
    have "find (\<lambda>b. b_refcnt (bc_buf c ! b) = 0) (rev xs) \<noteq> None"
      using j full by (auto simp: find_eq_None full_lru_def)
    then obtain b where b: "find (\<lambda>b. b_refcnt (bc_buf c ! b) = 0) (rev xs) = Some b" by auto
    have lt: "b < nbuf c" and r0: "b_refcnt (bc_buf c ! b) = 0"
      using find_eq_SomeD [OF b] full by (auto simp: full_lru_def)
    have nl: "\<not> b_locked (bc_buf c ! b)" using ok [OF lt] r0 by (simp add: free_buf_ok_def)
    let ?c = "upd_buf b (\<lambda>r. r\<lparr>b_dev := dev, b_blockno := n, b_valid := False,
                                   b_refcnt := 1, b_locked := True\<rparr>) c"
    have "single ?c dev" by (rule single_new [OF single False]) simp_all
    then have "cache_inv bs disk region dev (Some b) ?c"
      by (rule cache_inv_take [OF inv lt]) (use n in \<open>simp_all add: held_buf_ok_def\<close>)
    then show ?thesis
      using bget_miss [OF full False] b nl lt by (simp add: upd_buf_nth)
  qed
qed

lemma cache_inv_upd_held:
  assumes "cache_inv bs disk region dev (Some b) c"
    and "\<And>r. b_next (f r) = b_next r" "\<And>r. b_prev (f r) = b_prev r" "\<And>r. b_dev (f r) = b_dev r"
      "\<And>r. b_blockno (f r) = b_blockno r" "\<And>r. b_refcnt (f r) = b_refcnt r" "\<And>r. b_locked (f r) = b_locked r"
    and "\<And>r. length (b_data r) = bs \<Longrightarrow> length (b_data (f r)) = bs"
  shows "cache_inv bs disk region dev (Some b) (upd_buf b f c)"
  using assms
  by (auto simp: cache_inv_def full_lru_upd_buf single_upd bufs_sized_upd bufs_sized_nth upd_buf_nth held_buf_ok_def)

lemma cache_inv_upd_disk:
  assumes "cache_inv bs disk region dev (Some b) c" and "b_blockno (bc_buf c ! b) = n"
  shows "cache_inv bs (disk(n := d)) region dev (Some b) c"
proof -
  have b: "cached c dev n b" using assms by (auto simp: cache_inv_def held_buf_ok_def cached_def)
  have "free_buf_ok (disk(n := d)) region dev (bc_buf c ! j)" if "j < nbuf c" "j \<noteq> b" for j
  proof -
    have "\<not> cached c dev n j" using b that assms(1) by (auto simp: cache_inv_def single_def)
    then show ?thesis using that assms(1) by (auto simp: cache_inv_def free_buf_ok_def cached_def)
  qed
  then show ?thesis using assms(1) by (simp add: cache_inv_def)
qed

lemma cache_inv_brelse:
  assumes inv: "cache_inv bs disk region dev (Some b) c"
    and data: "b_data (bc_buf c ! b) = disk (b_blockno (bc_buf c ! b))"
  shows "\<exists>c'. brelse_cache b c = Inr c' \<and> cache_inv bs disk region dev None c' \<and> nbuf c' = nbuf c"
proof -
  from inv obtain xs where full: "full_lru c xs" and b: "b < nbuf c" and held: "held_buf_ok region dev (bc_buf c ! b)"
    by (auto simp: cache_inv_def)
  define c1 where "c1 = upd_buf b (\<lambda>r. r\<lparr>b_locked := False, b_refcnt := b_refcnt r - 1\<rparr>) c"
  obtain c' xs' where c': "brelse_cache b c = Inr c'" "full_lru c' xs'" "contents c' = contents c1" "nbuf c' = nbuf c"
    using brelse_cache_spec [OF full b] held by (auto simp: held_buf_ok_def c1_def)
  have n1: "nbuf c1 = nbuf c" by (simp add: c1_def)
  have c1_ok: "free_buf_ok disk region dev (bc_buf c1 ! j)" if "j < nbuf c" for j
    using that inv held data by (auto simp: c1_def upd_buf_nth cache_inv_def free_buf_ok_def held_buf_ok_def)
  note fields = contents_fields [OF c'(3)]
  have ok: "free_buf_ok disk region dev (bc_buf c' ! j)" if "j < nbuf c" for j
    using c1_ok [OF that] fields [of j] that by (simp add: free_buf_ok_def n1)
  have "single c1 dev" using inv by (auto simp: c1_def cache_inv_def intro: single_upd)
  moreover have "cached c' dev n j = cached c1 dev n j" for n j
    using fields [of j] c'(4) by (auto simp: cached_def n1)
  ultimately have single: "single c' dev" by (simp add: single_def)
  have "bufs_sized bs c1" using inv by (auto simp: c1_def cache_inv_def bufs_sized_upd bufs_sized_nth)
  then have sized: "bufs_sized bs c'" using bufs_sized_contents [OF c'(3)] by blast
  have "b_refcnt (bc_buf c' ! b) = 0"
    using fields(5) [of b] b held by (simp add: n1) (simp add: c1_def upd_buf_nth held_buf_ok_def)
  then show ?thesis using c' ok single sized b by (auto simp: cache_inv_def)
qed


section \<open>A request from start to end\<close>

text \<open>No request is pending and the pool has room: the state between two calls.\<close>

definition queue_idle :: "disk_queue \<Rightarrow> bool" where
  "queue_idle q \<longleftrightarrow> queue_of q [] \<and> \<not> dq_busy q \<and> (\<exists>r \<in> set (req_pool q). \<not> rq_used r)"

lemma queue_of_Nil [simp]: "queue_of q [] \<longleftrightarrow> dq_head q = None"
  by (simp add: queue_of_def)

declare run_disk_dispatcher.simps(2) [simp del]

lemma alloc_req_idle:
  assumes "\<exists>r \<in> set (req_pool q). \<not> rq_used r"
  shows "\<exists>i. i < length (req_pool q) \<and> \<not> rq_used (req_pool q ! i)
     \<and> alloc_req q = (Some i, upd_req i (\<lambda>r. r\<lparr>rq_used := True, rq_completed := False, rq_next := None\<rparr>) q)"
proof -
  obtain i where "find_idx (\<lambda>r. \<not> rq_used r) (req_pool q) = Some i"
    using assms find_idx_exists [of _ "req_pool q" "\<lambda>r. \<not> rq_used r"] by auto
  then show ?thesis by (auto simp: alloc_req_def dest: find_idx_SomeD)
qed

context block_driver
begin

lemma dispatch_one:
  assumes q: "queue_of (dq s) [i]" and v: "vinv (drv s)" and sized: "bufs_sized bs (bc s)"
    and b: "rq_b (req_pool (dq s) ! i) < nbuf (bc s)"
    and r_def: "r = req_pool (dq s) ! i"
    and n_def: "n = b_blockno (bc_buf (bc s) ! rq_b r)"
    and d_def: "d = (if rq_type r = DISK_REQ_WRITE then b_data (bc_buf (bc s) ! rq_b r) else dsk (drv s) n)"
    and n: "valid n"
  shows "\<exists>s'. run_disk_dispatcher (Suc (Suc fuel)) rw level s = Inr s'
     \<and> bc s' = upd_buf (rq_b r) (\<lambda>b. b\<lparr>b_data := d\<rparr>) (bc s)
     \<and> vinv (drv s') \<and> length d = bs
     \<and> dsk (drv s') = (if rq_type r = DISK_REQ_WRITE then (dsk (drv s))(n := d) else dsk (drv s))
     \<and> dq_head (dq s') = None \<and> \<not> dq_busy (dq s')
     \<and> length (req_pool (dq s')) = length (req_pool (dq s)) \<and> rq_completed (req_pool (dq s') ! i)"
proof -
  obtain q' where deq: "dequeue_disk_request_locked level (dq s) = Inr (Some i, q')"
    and q': "queue_of q' []" and un: "unlinked q' = unlinked (dq s)"
    using dequeue_some [OF q, of level] by (auto simp: Cons_eq_append_conv)
  have i: "i < length (req_pool (dq s))" using q by (simp add: queue_of_def)
  have r': "rq_b (req_pool q' ! i) = rq_b r" "rq_type (req_pool q' ! i) = rq_type r"
    using unlinked_req_fields [OF un i] by (simp_all add: r_def)
  let ?r = "req_pool q' ! i" and ?s = "s\<lparr>dq := q'\<rparr>"
  have "\<exists>v'. serve_request rw i ?s = Inr (?s\<lparr>bc := upd_buf (rq_b ?r) (\<lambda>b. b\<lparr>b_data := d\<rparr>) (bc ?s),
               dq := upd_req i (\<lambda>r. r\<lparr>rq_completed := True\<rparr>) (account_request ?r (dq ?s)), drv := v'\<rparr>)
    \<and> vinv v' \<and> length d = bs
    \<and> dsk v' = (if rq_type ?r = DISK_REQ_WRITE then (dsk (drv ?s))(n := d) else dsk (drv ?s))"
    by (rule serve_request_spec) (use v sized b n in \<open>simp_all add: r' r_def [symmetric] n_def d_def\<close>)
  then obtain v' where serve: "serve_request rw i ?s = Inr (s\<lparr>
        bc := upd_buf (rq_b r) (\<lambda>b. b\<lparr>b_data := d\<rparr>) (bc s),
        dq := upd_req i (\<lambda>r. r\<lparr>rq_completed := True\<rparr>) (account_request ?r q'),
        drv := v'\<rparr>)" and v': "vinv v'" "length d = bs"
      "dsk v' = (if rq_type r = DISK_REQ_WRITE then (dsk (drv s))(n := d) else dsk (drv s))"
    by (auto simp: r')
  have head: "dq_head q' = None" using q' by simp
  then show ?thesis
    using v' i unlinked_length [OF un]
    by (simp add: run_disk_dispatcher.simps deq serve dequeue_empty upd_req_nth)
qed

lemma submit_idle:
  assumes idle: "queue_idle (dq s)" and v: "vinv (drv s)" and sized: "bufs_sized bs (bc s)" and b: "b < nbuf (bc s)"
    and n_def: "n = b_blockno (bc_buf (bc s) ! b)"
    and d_def: "d = (if ty = DISK_REQ_WRITE then b_data (bc_buf (bc s) ! b) else dsk (drv s) n)"
    and n: "valid n"
  shows "\<exists>s'. submit_disk_request rw level me b ty s = Inr s'
     \<and> bc s' = upd_buf b (\<lambda>b. b\<lparr>b_data := d\<rparr>) (bc s) \<and> vinv (drv s') \<and> length d = bs
     \<and> dsk (drv s') = (if ty = DISK_REQ_WRITE then (dsk (drv s))(n := d) else dsk (drv s))
     \<and> queue_idle (dq s')"
proof -
  obtain i where i: "i < length (req_pool (dq s))"
    and alloc: "alloc_req (dq s) = (Some i, upd_req i (\<lambda>r. r\<lparr>rq_used := True, rq_completed := False, rq_next := None\<rparr>) (dq s))"
    using alloc_req_idle idle unfolding queue_idle_def by blast
  define q1 where "q1 = upd_req i (\<lambda>r. r\<lparr>rq_b := b, rq_blockno := int_of_uint n, rq_type := ty, rq_proc := me\<rparr>)
      (upd_req i (\<lambda>r. r\<lparr>rq_used := True, rq_completed := False, rq_next := None\<rparr>) (dq s))"
  have len1: "length (req_pool q1) = length (req_pool (dq s))" by (simp add: q1_def)
  have r1: "rq_b (req_pool q1 ! i) = b" "rq_type (req_pool q1 ! i) = ty"
    using i by (simp_all add: q1_def upd_req_nth)
  have "queue_of q1 []" "\<not> dq_busy q1"
    using idle by (simp_all add: q1_def queue_idle_def)
  then obtain q2 where enq: "enqueue_disk_request_locked i q1 = Inr q2" and q2: "queue_of q2 [i]"
    and un: "unlinked q2 = unlinked q1"
    using enqueue_refines [of q1 "[]" i] i len1 by auto
  have len2: "length (req_pool q2) = length (req_pool (dq s))" using unlinked_length [OF un] len1 by simp
  have busy2: "\<not> dq_busy q2" using unlinked_fields(1) [OF un] \<open>\<not> dq_busy q1\<close> by simp
  have r2: "rq_b (req_pool q2 ! i) = b" "rq_type (req_pool q2 ! i) = ty"
    using unlinked_req_fields [OF un] i r1 by (simp_all add: len1)
  let ?s = "s\<lparr>dq := q2\<lparr>dq_busy := True\<rparr>\<rparr>"
  have q2': "queue_of (dq ?s) [i]" using q2 by (simp add: queue_of_def)
  let ?r = "req_pool q2 ! i"
  have "\<exists>s'. run_disk_dispatcher (Suc (Suc (length (req_pool q2)))) rw level ?s = Inr s'
     \<and> bc s' = upd_buf (rq_b ?r) (\<lambda>b. b\<lparr>b_data := d\<rparr>) (bc ?s)
     \<and> vinv (drv s') \<and> length d = bs
     \<and> dsk (drv s') = (if rq_type ?r = DISK_REQ_WRITE then (dsk (drv ?s))(n := d) else dsk (drv ?s))
     \<and> dq_head (dq s') = None \<and> \<not> dq_busy (dq s')
     \<and> length (req_pool (dq s')) = length (req_pool (dq ?s)) \<and> rq_completed (req_pool (dq s') ! i)"
    by (rule dispatch_one [OF q2']) (use v sized b n in \<open>simp_all add: r2 n_def d_def\<close>)
  then obtain s1 where s1: "run_disk_dispatcher (Suc (Suc (length (req_pool q2)))) rw level ?s = Inr s1"
     "bc s1 = upd_buf b (\<lambda>b. b\<lparr>b_data := d\<rparr>) (bc s)" "vinv (drv s1)" "length d = bs"
     "dsk (drv s1) = (if ty = DISK_REQ_WRITE then (dsk (drv s))(n := d) else dsk (drv s))"
     "dq_head (dq s1) = None" "\<not> dq_busy (dq s1)"
     "length (req_pool (dq s1)) = length (req_pool q2)" "rq_completed (req_pool (dq s1) ! i)"
    by (auto simp: r2)
  have "submit_disk_request rw level me b ty s = Inr (s1\<lparr>dq := free_req i (dq s1)\<rparr>)"
    using alloc enq busy2 s1(1,9)
    by (simp add: submit_disk_request_def q1_def [symmetric] n_def [symmetric])
  moreover have "queue_idle (free_req i (dq s1))"
    using s1(6-8) i len2
    by (auto simp: queue_idle_def free_req_def in_set_conv_nth upd_req_nth intro!: bexI [of _ "req_pool (free_req i (dq s1)) ! i"] exI [of _ i])
  ultimately show ?thesis using s1(2-5) by simp
qed

end


section \<open>What the cache provides: a block store\<close>

text \<open>
  Reading a block returns its content and changes no block; writing replaces that block only.
  The contract is for the blocks of a region.
\<close>

locale block_store =
  fixes bs :: nat
    and get :: "u32 \<Rightarrow> 's \<Rightarrow> (block \<times> 's) res"
    and put :: "u32 \<Rightarrow> block \<Rightarrow> 's \<Rightarrow> 's res"
    and blk :: "'s \<Rightarrow> u32 \<Rightarrow> block"
    and sinv :: "'s \<Rightarrow> bool"
    and region :: "u32 \<Rightarrow> bool"
  assumes blk_length: "sinv s \<Longrightarrow> region n \<Longrightarrow> length (blk s n) = bs"
    and get_spec: "sinv s \<Longrightarrow> region n \<Longrightarrow>
          \<exists>s'. get n s = Inr (blk s n, s') \<and> sinv s' \<and> blk s' = blk s"
    and put_spec: "sinv s \<Longrightarrow> region n \<Longrightarrow> length d = bs \<Longrightarrow>
          \<exists>s'. put n d s = Inr s' \<and> sinv s' \<and> blk s' = (blk s)(n := d)"

definition bio_inv ::
  "nat \<Rightarrow> ('v \<Rightarrow> u32 \<Rightarrow> block) \<Rightarrow> ('v \<Rightarrow> bool) \<Rightarrow> (u32 \<Rightarrow> bool) \<Rightarrow> u32 \<Rightarrow> 'v bio \<Rightarrow> bool" where
  "bio_inv bs dsk vinv region dev s \<longleftrightarrow>
     vinv (drv s) \<and> queue_idle (dq s) \<and> cache_inv bs (dsk (drv s)) region dev None (bc s)"

locale block_cache = block_driver +
  fixes level :: "nat \<Rightarrow> int"
    and me :: "nat option"
    and dev :: u32
    and region :: "u32 \<Rightarrow> bool"
  assumes region_valid: "region n \<Longrightarrow> valid n"
begin

lemma bread_spec:
  assumes inv: "bio_inv bs dsk vinv region dev s" and n: "region n"
  shows "\<exists>b s'. bread rw level me dev n s = Inr (b, s')
     \<and> vinv (drv s') \<and> dsk (drv s') = dsk (drv s) \<and> queue_idle (dq s')
     \<and> cache_inv bs (dsk (drv s)) region dev (Some b) (bc s')
     \<and> b_blockno (bc_buf (bc s') ! b) = n \<and> b_data (bc_buf (bc s') ! b) = dsk (drv s) n"
proof -
  obtain b c where get: "bget dev n (bc s) = Inr (b, c)"
    and c: "cache_inv bs (dsk (drv s)) region dev (Some b) c" "b_blockno (bc_buf c ! b) = n"
      "b_valid (bc_buf c ! b) \<longrightarrow> b_data (bc_buf c ! b) = dsk (drv s) n"
    using cache_inv_bget [of bs "dsk (drv s)" region dev "bc s" n] inv n by (auto simp: bio_inv_def)
  have b: "b < nbuf c" and sized: "bufs_sized bs c" using c(1) by (auto simp: cache_inv_def)
  show ?thesis
  proof (cases "b_valid (bc_buf c ! b)")
    case True
    with get c inv show ?thesis by (simp add: bread_def bio_inv_def)
  next
    case False
    obtain s1 where s1: "submit_disk_request rw level me b DISK_REQ_READ (s\<lparr>bc := c\<rparr>) = Inr s1"
      "bc s1 = upd_buf b (\<lambda>b. b\<lparr>b_data := dsk (drv s) n\<rparr>) c" "vinv (drv s1)"
      "dsk (drv s1) = dsk (drv s)" "queue_idle (dq s1)" "length (dsk (drv s) n) = bs"
      using submit_idle [of "s\<lparr>bc := c\<rparr>" b n "dsk (drv s) n" DISK_REQ_READ level me] inv sized b c(2) region_valid [OF n]
      by (auto simp: bio_inv_def)
    have "cache_inv bs (dsk (drv s)) region dev (Some b) (bc s1)"
      unfolding s1(2) by (rule cache_inv_upd_held [OF c(1)]) (simp_all add: s1(6))
    then have "cache_inv bs (dsk (drv s)) region dev (Some b) (upd_buf b (\<lambda>r. r\<lparr>b_valid := True\<rparr>) (bc s1))"
      by (rule cache_inv_upd_held) simp_all
    with False get s1 b c(2) show ?thesis
      by (simp add: bread_def upd_buf_nth)
  qed
qed

lemma brelse_spec:
  assumes "cache_inv bs (dsk (drv s)) region dev (Some b) (bc s)"
    and "b_data (bc_buf (bc s) ! b) = dsk (drv s) (b_blockno (bc_buf (bc s) ! b))"
    and "vinv (drv s)" "queue_idle (dq s)"
  shows "\<exists>s'. brelse b s = Inr s' \<and> bio_inv bs dsk vinv region dev s' \<and> drv s' = drv s"
  using cache_inv_brelse [OF assms(1,2)] assms(3,4) by (auto simp: brelse_def bio_inv_def)

lemma block_read_spec:
  assumes "bio_inv bs dsk vinv region dev s" and "region n"
  shows "\<exists>s'. block_read rw level me dev n s = Inr (dsk (drv s) n, s')
     \<and> bio_inv bs dsk vinv region dev s' \<and> dsk (drv s') = dsk (drv s)"
proof -
  obtain b s1 where s1: "bread rw level me dev n s = Inr (b, s1)"
     "vinv (drv s1)" "dsk (drv s1) = dsk (drv s)" "queue_idle (dq s1)"
     "cache_inv bs (dsk (drv s)) region dev (Some b) (bc s1)"
     "b_blockno (bc_buf (bc s1) ! b) = n" "b_data (bc_buf (bc s1) ! b) = dsk (drv s) n"
    using bread_spec [OF assms] by blast
  obtain s2 where "brelse b s1 = Inr s2" "bio_inv bs dsk vinv region dev s2" "drv s2 = drv s1"
    using brelse_spec [of s1 b] s1 by auto
  with s1 show ?thesis by (simp add: block_read_def)
qed

lemma block_write_spec:
  assumes inv: "bio_inv bs dsk vinv region dev s" and n: "region n" and d: "length d = bs"
  shows "\<exists>s'. block_write rw level me dev n d s = Inr s'
     \<and> bio_inv bs dsk vinv region dev s' \<and> dsk (drv s') = (dsk (drv s))(n := d)"
proof -
  obtain b s1 where s1: "bread rw level me dev n s = Inr (b, s1)"
     "vinv (drv s1)" "dsk (drv s1) = dsk (drv s)" "queue_idle (dq s1)"
     "cache_inv bs (dsk (drv s)) region dev (Some b) (bc s1)" "b_blockno (bc_buf (bc s1) ! b) = n"
    using bread_spec [OF inv n] by blast
  let ?c = "upd_buf b (\<lambda>r. r\<lparr>b_data := d\<rparr>) (bc s1)"
  have c: "cache_inv bs (dsk (drv s)) region dev (Some b) ?c"
    by (rule cache_inv_upd_held [OF s1(5)]) (simp_all add: d)
  have b: "b < nbuf (bc s1)" "b_locked (bc_buf (bc s1) ! b)" and sized: "bufs_sized bs ?c"
    using s1(5) c by (auto simp: cache_inv_def held_buf_ok_def)
  obtain s2 where s2: "submit_disk_request rw level me b DISK_REQ_WRITE (s1\<lparr>bc := ?c\<rparr>) = Inr s2"
      "bc s2 = upd_buf b (\<lambda>b. b\<lparr>b_data := d\<rparr>) ?c" "vinv (drv s2)"
      "dsk (drv s2) = (dsk (drv s))(n := d)" "queue_idle (dq s2)"
    using submit_idle [of "s1\<lparr>bc := ?c\<rparr>" b n d DISK_REQ_WRITE level me] s1 sized b region_valid [OF n]
    by (auto simp: upd_buf_nth)
  have bn: "b_blockno (bc_buf (bc s2) ! b) = n" "b_data (bc_buf (bc s2) ! b) = d"
    using b s1(6) by (simp_all add: s2(2) upd_buf_nth)
  have "cache_inv bs (dsk (drv s)) region dev (Some b) (bc s2)"
    unfolding s2(2) by (rule cache_inv_upd_held [OF c]) (simp_all add: d)
  then have "cache_inv bs (dsk (drv s2)) region dev (Some b) (bc s2)"
    unfolding s2(4) using bn(1) by (rule cache_inv_upd_disk)
  then obtain s3 where "brelse b s2 = Inr s3" "bio_inv bs dsk vinv region dev s3" "drv s3 = drv s2"
    using brelse_spec [of s2 b] s2 bn by auto
  with s1 s2 b show ?thesis by (simp add: block_write_def bwrite_def upd_buf_nth)
qed

end

sublocale block_cache \<subseteq> store: block_store bs "block_read rw level me dev" "block_write rw level me dev"
  "\<lambda>s. dsk (drv s)" "bio_inv bs dsk vinv region dev" region
proof unfold_locales
  fix s :: "'a bio" and n
  assume "bio_inv bs dsk vinv region dev s"
  then show "length (dsk (drv s) n) = bs" by (simp add: bio_inv_def block_length)
qed (rule block_read_spec block_write_spec; assumption)+


section \<open>The initial cache\<close>

text \<open>What \<open>binit\<close> writes of a buffer are its links and its lock.\<close>

lemma upd_buf_all:
  "\<forall>b \<in> set (bc_buf c). Q b \<Longrightarrow> (\<And>b. Q b \<Longrightarrow> Q (f b)) \<Longrightarrow> \<forall>b \<in> set (bc_buf (upd_buf i f c)). Q b"
  by (cases "i < nbuf c") (auto simp: upd_buf_def list_update_beyond not_less dest!: subsetD [OF set_update_subset_insert])

lemma link_front_all:
  assumes "\<forall>b \<in> set (bc_buf c). Q b" "\<And>b v. Q b \<Longrightarrow> Q (b\<lparr>b_next := v\<rparr>)" "\<And>b v. Q b \<Longrightarrow> Q (b\<lparr>b_prev := v\<rparr>)"
  shows "\<forall>b \<in> set (bc_buf (link_front i c)). Q b"
proof -
  have n: "\<forall>b \<in> set (bc_buf (set_next i v c)). Q b" if "\<forall>b \<in> set (bc_buf c). Q b" for i v c
    using upd_buf_all [OF that assms(2)] that by (auto simp: set_next_def)
  have p: "\<forall>b \<in> set (bc_buf (set_prev i v c)). Q b" if "\<forall>b \<in> set (bc_buf c). Q b" for i v c
    using upd_buf_all [OF that assms(3)] that by (auto simp: set_prev_def)
  show ?thesis unfolding link_front_def Let_def using p [OF p [OF n [OF assms(1)]]] by simp
qed

lemma binit_cache_all:
  assumes "\<forall>b \<in> set (bc_buf c). Q b" "\<And>b v. Q b \<Longrightarrow> Q (b\<lparr>b_next := v\<rparr>)" "\<And>b v. Q b \<Longrightarrow> Q (b\<lparr>b_prev := v\<rparr>)"
    "\<And>b. Q b \<Longrightarrow> Q (b\<lparr>b_locked := False\<rparr>)"
  shows "\<forall>b \<in> set (bc_buf (binit_cache c)). Q b"
proof -
  have "\<forall>b \<in> set (bc_buf (fold (\<lambda>b c. upd_buf b (\<lambda>r. r\<lparr>b_locked := False\<rparr>) (link_front b c)) is c)). Q b"
    if "\<forall>b \<in> set (bc_buf c). Q b" for "is" c
    using that
  proof (induction "is" arbitrary: c)
    case (Cons i "is")
    from Cons.IH [OF upd_buf_all [OF link_front_all [OF Cons.prems assms(2,3)] assms(4)]] show ?case by simp
  qed simp
  note all = this
  show ?thesis unfolding binit_cache_def by (rule all) (simp add: assms(1))
qed

text \<open>The buffers before \<open>binit\<close>: unreferenced, empty, of no block of \<open>dev\<close>.\<close>

definition blank_buf :: "nat \<Rightarrow> u32 \<Rightarrow> buf \<Rightarrow> bool" where
  "blank_buf bs dev b \<longleftrightarrow>
     b_refcnt b = 0 \<and> \<not> b_valid b \<and> \<not> b_locked b \<and> b_dev b \<noteq> dev \<and> length (b_data b) = bs"

lemma nbuf_binit [simp]: "nbuf (binit_cache c) = nbuf c"
proof -
  have "nbuf (link_front b c) = nbuf c" for b c by (simp add: link_front_def Let_def)
  then have "nbuf (fold (\<lambda>b c. upd_buf b (\<lambda>r. r\<lparr>b_locked := False\<rparr>) (link_front b c)) is c) = nbuf c" for "is" c
    by (induction "is" arbitrary: c) simp_all
  then show ?thesis by (simp add: binit_cache_def)
qed

lemma binit_full_lru: "full_lru (binit_cache c) (rev [0..<nbuf c])"
  using binit_cache_lru [of c] by (auto simp: full_lru_def)

lemma binit_blank:
  assumes "\<forall>b \<in> set (bc_buf c). blank_buf bs dev b" "j < nbuf c"
  shows "blank_buf bs dev (bc_buf (binit_cache c) ! j)"
  using binit_cache_all [OF assms(1)] assms(2) by (simp add: blank_buf_def)

lemma binit_cache_inv:
  assumes "\<forall>b \<in> set (bc_buf c). blank_buf bs dev b" "0 < nbuf c"
  shows "cache_inv bs disk region dev None (binit_cache c)"
proof -
  have blank: "blank_buf bs dev (bc_buf (binit_cache c) ! j)" if "j < nbuf c" for j
    using assms(1) that by (rule binit_blank)
  then have "single (binit_cache c) dev"
    by (auto simp: single_def cached_def blank_buf_def)
  moreover have "bufs_sized bs (binit_cache c)"
    using blank by (auto simp: bufs_sized_def in_set_conv_nth blank_buf_def)
  ultimately show ?thesis
    using blank assms(2) binit_full_lru [of c]
    by (auto simp: cache_inv_def free_buf_ok_def blank_buf_def)
qed

lemma binit_queue_idle: "req_pool q \<noteq> [] \<Longrightarrow> queue_idle (binit_queue q)"
  by (cases "req_pool q") (auto simp: queue_idle_def binit_queue_def)


section \<open>Replacement policy\<close>

lemma find_skip: "\<forall>z \<in> set zs. \<not> P z \<Longrightarrow> P b \<Longrightarrow> find P (zs @ b # ys) = Some b"
  by (induction zs) auto

text \<open>
  C14: \<open>bget\<close> and the LRU list. With every buffer on the list and no block of the device cached
  twice: a cached block gives its buffer, with one reference more; a block that is not cached takes the
  unreferenced buffer that is nearest to the tail of the list, the least recently used one;
  the kernel panics exactly when every buffer is referenced. A locked buffer makes the caller wait.
\<close>

theorem bget_replacement:
  assumes "full_lru c xs" "single c dev"
  shows "(\<forall>b. cached c dev n b \<longrightarrow>
             bget dev n c = (if b_locked (bc_buf c ! b) then Inl Blocked
               else Inr (b, upd_buf b (\<lambda>r. r\<lparr>b_refcnt := b_refcnt r + 1, b_locked := True\<rparr>) c)))
       \<and> ((\<nexists>b. cached c dev n b) \<longrightarrow>
            (\<forall>ys b zs. xs = ys @ b # zs \<and> b_refcnt (bc_buf c ! b) = 0 \<and> (\<forall>z \<in> set zs. b_refcnt (bc_buf c ! z) \<noteq> 0) \<longrightarrow>
               bget dev n c = (if b_locked (bc_buf c ! b) then Inl Blocked
                 else Inr (b, upd_buf b (\<lambda>r. r\<lparr>b_dev := dev, b_blockno := n, b_valid := False,
                                              b_refcnt := 1, b_locked := True\<rparr>) c)))
          \<and> (bget dev n c = Inl (Panic ''bget: no buffers'') \<longleftrightarrow> (\<forall>b < nbuf c. b_refcnt (bc_buf c ! b) \<noteq> 0)))"
proof (intro conjI allI impI; (elim conjE)?)
  fix b
  assume "cached c dev n b"
  then show "bget dev n c = (if b_locked (bc_buf c ! b) then Inl Blocked
               else Inr (b, upd_buf b (\<lambda>r. r\<lparr>b_refcnt := b_refcnt r + 1, b_locked := True\<rparr>) c))"
    by (rule bget_hit [OF assms])
next
  fix ys b zs
  assume A: "\<nexists>b. cached c dev n b" "xs = ys @ b # zs" "b_refcnt (bc_buf c ! b) = 0" "\<forall>z \<in> set zs. b_refcnt (bc_buf c ! z) \<noteq> 0"
  then have "find (\<lambda>b. b_refcnt (bc_buf c ! b) = 0) (rev xs) = Some b"
    by (simp add: find_skip)
  then show "bget dev n c = (if b_locked (bc_buf c ! b) then Inl Blocked
                 else Inr (b, upd_buf b (\<lambda>r. r\<lparr>b_dev := dev, b_blockno := n, b_valid := False,
                                              b_refcnt := 1, b_locked := True\<rparr>) c))"
    by (simp add: bget_miss [OF assms(1) A(1)])
next
  assume A: "\<nexists>b. cached c dev n b"
  have "find (\<lambda>b. b_refcnt (bc_buf c ! b) = 0) (rev xs) = None \<longleftrightarrow> (\<forall>b < nbuf c. b_refcnt (bc_buf c ! b) \<noteq> 0)"
    using assms(1) by (auto simp: find_eq_None full_lru_def)
  then show "bget dev n c = Inl (Panic ''bget: no buffers'') \<longleftrightarrow> (\<forall>b < nbuf c. b_refcnt (bc_buf c ! b) \<noteq> 0)"
    by (auto simp: bget_miss [OF assms(1) A] split: option.splits if_splits)
qed

definition blank :: "nat \<Rightarrow> buf" where
  "blank bs = \<lparr>b_valid = False, b_dev = 0, b_blockno = 0, b_locked = False, b_refcnt = 0,
               b_prev = 0, b_next = 0, b_data = replicate bs 0\<rparr>"

definition cold_cache :: "nat \<Rightarrow> nat \<Rightarrow> bcache" where
  "cold_cache bs n = binit_cache \<lparr>bc_buf = replicate n (blank bs), head_next = 0, head_prev = 0\<rparr>"

lemma cold_cache_inv: "0 < n \<Longrightarrow> dev \<noteq> 0 \<Longrightarrow> cache_inv bs disk region dev None (cold_cache bs n)"
  unfolding cold_cache_def by (rule binit_cache_inv) (auto simp: blank_buf_def blank_def)

lemma cold_cache_lru: "full_lru (cold_cache bs n) (rev [0..<n])"
  using binit_full_lru [of "\<lparr>bc_buf = replicate n (blank bs), head_next = 0, head_prev = 0\<rparr>"]
  by (simp add: cold_cache_def)

lemma cold_cache_blank: "j < n \<Longrightarrow> dev \<noteq> 0 \<Longrightarrow> blank_buf bs dev (bc_buf (cold_cache bs n) ! j)"
  unfolding cold_cache_def by (intro binit_blank) (auto simp: blank_buf_def blank_def)

theorem bget_replacement_witness:
  "bget 1 7 (cold_cache 4 3) = Inr (0, upd_buf 0 (\<lambda>r. r\<lparr>b_dev := 1, b_blockno := 7, b_valid := False,
      b_refcnt := 1, b_locked := True\<rparr>) (cold_cache 4 3))"
proof -
  let ?c = "cold_cache 4 3"
  note bufs = cold_cache_blank [of _ 3 1 4]
  have n: "nbuf ?c = 3" by (simp add: cold_cache_def)
  have "full_lru ?c [2, 1, 0]"
    using cold_cache_lru [of 4 3] by (simp add: upt_rec eval_nat_numeral)
  moreover have s: "single ?c 1" "\<nexists>b. cached ?c 1 7 b"
    using bufs n by (auto simp: single_def cached_def blank_buf_def)
  ultimately show ?thesis
    using bget_replacement [of ?c "[2, 1, 0]" 1 7, THEN conjunct2, THEN mp, OF _ _ s(2), THEN conjunct1,
        THEN spec [of _ "[2, 1]"], THEN spec [of _ 0], THEN spec [of _ "[]"]] bufs [of 0]
    by (simp add: blank_buf_def)
qed

text \<open>
  C21: \<open>brelse\<close>. Releasing a held buffer unlocks it and drops one reference; with the last
  reference gone the buffer becomes the most recently used one and the order of the others is
  kept, otherwise the list is as before. Nothing else of any buffer changes.
\<close>

theorem brelse_makes_most_recent:
  assumes "full_lru c xs" "b < nbuf c" "b_locked (bc_buf c ! b)"
  shows "\<exists>c'. brelse_cache b c = Inr c'
     \<and> full_lru c' (if b_refcnt (bc_buf c ! b) = 1 then b # remove1 b xs else xs)
     \<and> contents c' = contents (upd_buf b (\<lambda>r. r\<lparr>b_locked := False, b_refcnt := b_refcnt r - 1\<rparr>) c)"
  using brelse_cache_spec [OF assms] by blast

theorem brelse_makes_most_recent_witness:
  "\<exists>b c c'. bget 1 7 (cold_cache 4 3) = Inr (b, c) \<and> brelse_cache b c = Inr c' \<and> full_lru c' [0, 2, 1]"
proof -
  let ?f = "\<lambda>r. r\<lparr>b_dev := 1, b_blockno := 7, b_valid := False, b_refcnt := 1, b_locked := True\<rparr>"
  let ?c = "upd_buf 0 ?f (cold_cache 4 3)"
  have full: "full_lru (cold_cache 4 3) [2, 1, 0]"
    using cold_cache_lru [of 4 3] by (simp add: upt_rec eval_nat_numeral)
  have "\<nexists>b. cached (cold_cache 4 3) 1 7 b"
    using cold_cache_blank [of _ 3 1 4] by (auto simp: cached_def blank_buf_def cold_cache_def)
  from bget_miss [OF full this] cold_cache_blank [of 0 3 1 4]
  have get: "bget 1 7 (cold_cache 4 3) = Inr (0, ?c)" by (simp add: blank_buf_def)
  have "full_lru ?c [2, 1, 0]" using full by (simp add: full_lru_upd_buf)
  moreover have "nbuf ?c = 3" by (simp add: cold_cache_def)
  ultimately show ?thesis
    using brelse_makes_most_recent [of ?c "[2, 1, 0]" 0] get by (auto simp: upd_buf_nth)
qed

end
