(* ===== verification/Raid_Swap.thy ===== *)
theory Raid_Swap
  imports Buffer_Cache "HOL-Library.Signed_Division"
begin

text \<open>
  RAID-backed swap, the first half of \<open>kernel/virtio_disk.c\<close>: the three layouts over four
  simulated disks and \<open>swap_disk_read\<close> / \<open>swap_disk_write\<close>, which move one page between memory
  and a swap slot. The block layer they call (\<open>bread\<close>, \<open>bwrite\<close>, \<open>brelse\<close> of \<open>bio.c\<close>) enters as the two
  arguments \<open>get\<close> and \<open>put\<close>, which \<open>Buffer_Cache\<close> provides as \<open>block_read\<close> and \<open>block_write\<close>
  under the contract \<open>block_store\<close>. The theory provides the contract \<open>swap_device\<close>:
  a slot is a page of bytes, reading returns it, writing replaces it and no other slot.

  \<open>bs\<close> is \<open>BSIZE\<close>; a page has \<open>PGSIZE div bs\<close> blocks. The scratch buffers \<open>raid5_*\<close> hold
  intermediate values and are let-bound here.
\<close>

section \<open>Constants and state\<close>

definition PGSIZE :: nat where
  "PGSIZE = 4096"

definition MAX_SWAP_PAGES :: nat where
  "MAX_SWAP_PAGES = 256"

definition NDISKS :: int where
  "NDISKS = 4"

definition RAID0 :: int where
  "RAID0 = 0"

definition RAID1 :: int where
  "RAID1 = 1"

definition RAID5 :: int where
  "RAID5 = 2"

definition FAILED_DISK :: int where
  "FAILED_DISK = 2"

definition SWAP_START_BLOCK :: int where
  "SWAP_START_BLOCK = 1000"

definition BLOCKS_PER_PAGE :: "nat \<Rightarrow> nat" where
  "BLOCKS_PER_PAGE bs = PGSIZE div bs"

record 's raid =
  raid_mode :: int
  rstore :: 's

definition set_raid_mode :: "int \<Rightarrow> 's raid \<Rightarrow> 's raid" where
  "set_raid_mode mode r = r\<lparr>raid_mode := mode\<rparr>"

definition current_failed_disk :: "int \<Rightarrow> int" where
  "current_failed_disk mode = (if mode = RAID5 then FAILED_DISK else -1)"


section \<open>Block mapping\<close>

definition swap_phys_block :: "int \<Rightarrow> int \<Rightarrow> u32" where
  "swap_phys_block disk disk_block = word_of_int (c_int (SWAP_START_BLOCK + disk_block * NDISKS + disk))"

text \<open>The results of the \<open>_map\<close> functions are their out-parameters, in order.\<close>

definition raid1_map :: "int \<Rightarrow> int \<times> int \<times> int" where
  "raid1_map logical_block =
     (let pair = logical_block smod (NDISKS sdiv 2);
          disk1 = pair * 2;
          disk2 = disk1 + 1
      in (disk1, disk2, logical_block sdiv (NDISKS sdiv 2)))"

definition raid5_map :: "int \<Rightarrow> int \<times> int \<times> int" where
  "raid5_map logical_block =
     (let stripe = logical_block sdiv (NDISKS - 1);
          data_index = logical_block smod (NDISKS - 1);
          parity_disk = stripe smod NDISKS;
          disk_block = stripe;
          data_disk = (if data_index \<ge> parity_disk then data_index + 1 else data_index)
      in (data_disk, parity_disk, disk_block))"


section \<open>Reading and writing one logical block\<close>

type_synonym 's getter = "u32 \<Rightarrow> 's \<Rightarrow> (block \<times> 's) res"
type_synonym 's putter = "u32 \<Rightarrow> block \<Rightarrow> 's \<Rightarrow> 's res"

definition xor_block :: "block \<Rightarrow> block \<Rightarrow> block" where
  "xor_block a b = map2 (xor) a b"

text \<open>
  \<open>for (d = 0; d < NDISKS; d++) { if (d == failed_disk) continue; ... acc[j] ^= b->data[j]; }\<close>,
  over the list of disks still to visit.
\<close>

fun xor_survivors :: "'s getter \<Rightarrow> int \<Rightarrow> int \<Rightarrow> int list \<Rightarrow> block \<Rightarrow> 's \<Rightarrow> (block \<times> 's) res" where
  "xor_survivors get failed disk_block [] acc s = Inr (acc, s)"
| "xor_survivors get failed disk_block (d # ds) acc s =
     (if d = failed then xor_survivors get failed disk_block ds acc s
      else rbind (get (swap_phys_block d disk_block) s)
             (\<lambda>(data, s1). xor_survivors get failed disk_block ds (xor_block acc data) s1))"

definition all_disks :: "int list" where
  "all_disks = [0, 1, 2, 3]"

definition raid0_read :: "'s getter \<Rightarrow> int \<Rightarrow> 's \<Rightarrow> (block \<times> 's) res" where
  "raid0_read get logical_block s =
     (let disk = logical_block smod NDISKS;
          disk_block = logical_block sdiv NDISKS
      in get (swap_phys_block disk disk_block) s)"

definition raid1_read :: "'s getter \<Rightarrow> int \<Rightarrow> int \<Rightarrow> 's \<Rightarrow> (block \<times> 's) res" where
  "raid1_read get failed_disk logical_block s =
     (let (d1, d2, disk_block) = raid1_map logical_block;
          use_disk = (if d1 = failed_disk then d2 else d1)
      in get (swap_phys_block use_disk disk_block) s)"

definition raid5_read :: "nat \<Rightarrow> 's getter \<Rightarrow> int \<Rightarrow> int \<Rightarrow> 's \<Rightarrow> (block \<times> 's) res" where
  "raid5_read bs get failed_disk logical_block s =
     (let (data_disk, parity_disk, disk_block) = raid5_map logical_block
      in if failed_disk = -1 then get (swap_phys_block data_disk disk_block) s
         else if failed_disk \<noteq> data_disk then get (swap_phys_block data_disk disk_block) s
         else xor_survivors get failed_disk disk_block all_disks (replicate bs 0) s)"

definition raid0_write :: "'s putter \<Rightarrow> int \<Rightarrow> block \<Rightarrow> 's \<Rightarrow> 's res" where
  "raid0_write put logical_block src s =
     (let disk = logical_block smod NDISKS;
          disk_block = logical_block sdiv NDISKS
      in put (swap_phys_block disk disk_block) src s)"

definition raid1_write :: "'s putter \<Rightarrow> int \<Rightarrow> int \<Rightarrow> block \<Rightarrow> 's \<Rightarrow> 's res" where
  "raid1_write put failed_disk logical_block src s =
     (let (d1, d2, disk_block) = raid1_map logical_block
      in rbind (if d1 \<noteq> failed_disk then put (swap_phys_block d1 disk_block) src s else Inr s)
           (\<lambda>s1. if d2 \<noteq> failed_disk then put (swap_phys_block d2 disk_block) src s1 else Inr s1))"

definition raid5_write :: "nat \<Rightarrow> 's getter \<Rightarrow> 's putter \<Rightarrow> int \<Rightarrow> int \<Rightarrow> block \<Rightarrow> 's \<Rightarrow> 's res" where
  "raid5_write bs get put failed_disk logical_block src s =
     (let (data_disk, parity_disk, disk_block) = raid5_map logical_block
      in if failed_disk = -1 \<or> failed_disk \<noteq> data_disk \<and> failed_disk \<noteq> parity_disk then
           rbind (get (swap_phys_block data_disk disk_block) s) (\<lambda>(old_data, s1).
           rbind (get (swap_phys_block parity_disk disk_block) s1) (\<lambda>(old_parity, s2).
           let new_parity = xor_block (xor_block old_parity old_data) src
           in rbind (put (swap_phys_block data_disk disk_block) src s2)
                (put (swap_phys_block parity_disk disk_block) new_parity)))
         else if failed_disk = parity_disk then
           put (swap_phys_block data_disk disk_block) src s
         else
           rbind (xor_survivors get failed_disk disk_block all_disks (replicate bs 0) s) (\<lambda>(old_data, s1).
           rbind (get (swap_phys_block parity_disk disk_block) s1) (\<lambda>(old_parity, s2).
           let new_parity = xor_block (xor_block old_parity old_data) src
           in put (swap_phys_block parity_disk disk_block) new_parity s2)))"

definition swap_read_block :: "nat \<Rightarrow> 's getter \<Rightarrow> int \<Rightarrow> int \<Rightarrow> 's \<Rightarrow> (block \<times> 's) res" where
  "swap_read_block bs get mode logical_block s =
     (let failed_disk = current_failed_disk mode
      in if mode = RAID0 then raid0_read get logical_block s
         else if mode = RAID1 then raid1_read get failed_disk logical_block s
         else raid5_read bs get failed_disk logical_block s)"

definition swap_write_block :: "nat \<Rightarrow> 's getter \<Rightarrow> 's putter \<Rightarrow> int \<Rightarrow> int \<Rightarrow> block \<Rightarrow> 's \<Rightarrow> 's res" where
  "swap_write_block bs get put mode logical_block src s =
     (let failed_disk = current_failed_disk mode
      in if mode = RAID0 then raid0_write put logical_block src s
         else if mode = RAID1 then raid1_write put failed_disk logical_block src s
         else raid5_write bs get put failed_disk logical_block src s)"


section \<open>Reading and writing one page\<close>

text \<open>
  The loops over \<open>i < BLOCKS_PER_PAGE\<close>. The page is the byte string at \<open>dst\<close> or \<open>src\<close>; the read
  appends block after block, which is the copy to \<open>dst + i * BSIZE\<close>. The results carry the
  functions' return value, 0.
\<close>

fun read_blocks :: "nat \<Rightarrow> 's getter \<Rightarrow> int \<Rightarrow> int \<Rightarrow> nat list \<Rightarrow> 's \<Rightarrow> (u8 list \<times> 's) res" where
  "read_blocks bs get mode swap_slot [] s = Inr ([], s)"
| "read_blocks bs get mode swap_slot (i # is) s =
     rbind (swap_read_block bs get mode (swap_slot * int (BLOCKS_PER_PAGE bs) + int i) s) (\<lambda>(data, s1).
     rbind (read_blocks bs get mode swap_slot is s1) (\<lambda>(rest, s2). Inr (data @ rest, s2)))"

fun write_blocks :: "nat \<Rightarrow> 's getter \<Rightarrow> 's putter \<Rightarrow> int \<Rightarrow> int \<Rightarrow> nat list \<Rightarrow> u8 list \<Rightarrow> 's \<Rightarrow> 's res" where
  "write_blocks bs get put mode swap_slot [] src s = Inr s"
| "write_blocks bs get put mode swap_slot (i # is) src s =
     rbind (swap_write_block bs get put mode (swap_slot * int (BLOCKS_PER_PAGE bs) + int i)
              (take bs (drop (i * bs) src)) s)
       (write_blocks bs get put mode swap_slot is src)"

definition swap_disk_read ::
  "nat \<Rightarrow> 's getter \<Rightarrow> int \<Rightarrow> 's raid \<Rightarrow> (int \<times> u8 list \<times> 's raid) res" where
  "swap_disk_read bs get swap_slot r =
     rbind (read_blocks bs get (raid_mode r) swap_slot [0..<BLOCKS_PER_PAGE bs] (rstore r))
       (\<lambda>(dst, s). Inr (0, dst, r\<lparr>rstore := s\<rparr>))"

definition swap_disk_write ::
  "nat \<Rightarrow> 's getter \<Rightarrow> 's putter \<Rightarrow> int \<Rightarrow> u8 list \<Rightarrow> 's raid \<Rightarrow> (int \<times> 's raid) res" where
  "swap_disk_write bs get put swap_slot src r =
     rbind (write_blocks bs get put (raid_mode r) swap_slot [0..<BLOCKS_PER_PAGE bs] src (rstore r))
       (\<lambda>s. Inr (0, r\<lparr>rstore := s\<rparr>))"


section \<open>Arithmetic of the layouts\<close>

lemma sdiv_smod_nonneg:
  assumes "0 \<le> (a::int)" and "0 < b"
  shows "a sdiv b = a div b" and "a smod b = a mod b"
  using assms
  by (auto simp: signed_divide_int_def signed_modulo_int_def sgn_if minus_div_mult_eq_mod)

lemma raid1_map_eq:
  assumes "0 \<le> l"
  shows "raid1_map l = (l mod 2 * 2, l mod 2 * 2 + 1, l div 2)"
proof -
  have "(4::int) sdiv 2 = 2" by (simp add: signed_divide_int_def)
  then show ?thesis using assms by (simp add: raid1_map_def NDISKS_def sdiv_smod_nonneg Let_def)
qed

lemma raid5_map_eq:
  assumes "0 \<le> l"
  shows "raid5_map l = (if l mod 3 \<ge> l div 3 mod 4 then l mod 3 + 1 else l mod 3, l div 3 mod 4, l div 3)"
  using assms by (simp add: raid5_map_def NDISKS_def sdiv_smod_nonneg pos_imp_zdiv_nonneg_iff Let_def)

text \<open>
  \<open>max_row\<close> bounds the rows in which the block numbers stay inside a C \<open>int\<close>; a page has at most
  4096 blocks and there are 256 slots, so every row in use is below it.
\<close>

definition max_row :: int where
  "max_row = 2 ^ 28"

lemma swap_phys_block_uint:
  assumes "0 \<le> d" "d < 4" "0 \<le> r" "r < max_row"
  shows "uint (swap_phys_block d r) = 1000 + r * 4 + d"
proof -
  have "c_int (1000 + r * 4 + d) = 1000 + r * 4 + d"
    using assms by (intro c_int_id) (simp_all add: max_row_def)
  then have "swap_phys_block d r = word_of_int (1000 + r * 4 + d)"
    by (simp only: swap_phys_block_def SWAP_START_BLOCK_def NDISKS_def)
  then have "uint (swap_phys_block d r) = take_bit 32 (1000 + r * 4 + d)"
    by (simp only: uint_word_of_int_eq) simp
  also have "\<dots> = 1000 + r * 4 + d"
    using assms by (intro take_bit_int_eq_self) (simp_all add: max_row_def)
  finally show ?thesis .
qed

lemma swap_phys_block_inj:
  assumes "0 \<le> d" "d < 4" "0 \<le> r" "r < max_row" "0 \<le> d'" "d' < 4" "0 \<le> r'" "r' < max_row"
  shows "swap_phys_block d r = swap_phys_block d' r' \<longleftrightarrow> d = d' \<and> r = r'"
proof
  assume "swap_phys_block d r = swap_phys_block d' r'"
  then have "uint (swap_phys_block d r) = uint (swap_phys_block d' r')" by simp
  then have "1000 + r * 4 + d = 1000 + r' * 4 + d'"
    using assms by (simp only: swap_phys_block_uint)
  with assms(1,2,5,6) show "d = d' \<and> r = r'" by presburger
qed simp

text \<open>The position inside the stripe moves past the parity disk.\<close>

definition data_disk :: "int \<Rightarrow> int \<Rightarrow> int" where
  "data_disk i pd = (if i \<ge> pd then i + 1 else i)"

lemma data_disk_props:
  assumes "0 \<le> i" "i < 3"
  shows "0 \<le> data_disk i pd" "data_disk i pd < 4" "data_disk i pd \<noteq> pd"
    "data_disk i pd = data_disk i' pd \<longleftrightarrow> i = i'"
  using assms by (auto simp: data_disk_def)

lemma raid5_map_data_disk:
  "0 \<le> l \<Longrightarrow> raid5_map l = (data_disk (l mod 3) (l div 3 mod 4), l div 3 mod 4, l div 3)"
  by (simp only: raid5_map_eq data_disk_def)

lemma raid5_map_props:
  assumes "raid5_map l = (dd, pd, row)" and "0 \<le> l"
  shows "0 \<le> dd" "dd < 4" "0 \<le> pd" "pd < 4" "dd \<noteq> pd" "row = l div 3" "pd = l div 3 mod 4"
proof -
  have *: "dd = data_disk (l mod 3) pd" "pd = l div 3 mod 4" "row = l div 3"
    using raid5_map_data_disk [OF assms(2)] assms(1) by simp_all
  show "0 \<le> dd" "dd < 4" "dd \<noteq> pd"
    unfolding *(1) by (rule data_disk_props; simp)+
  show "0 \<le> pd" "pd < 4" "row = l div 3" "pd = l div 3 mod 4" by (simp_all add: *(2,3))
qed

lemma raid5_map_inj:
  assumes "raid5_map l = (dd, pd, row)" "raid5_map l' = (dd, pd', row)" "0 \<le> l" "0 \<le> l'"
  shows "l = l'"
proof -
  have row: "l div 3 = l' div 3" using raid5_map_props(6) assms by metis
  have "data_disk (l mod 3) (l' div 3 mod 4) = data_disk (l' mod 3) (l' div 3 mod 4)"
    using raid5_map_data_disk [OF assms(3)] raid5_map_data_disk [OF assms(4)] assms(1,2) row by simp
  then have "l mod 3 = l' mod 3" by (subst (asm) data_disk_props) simp_all
  with row show ?thesis by (metis div_mult_mod_eq)
qed


section \<open>What the layouts mean\<close>

text \<open>The exclusive or of a stripe row over some disks.\<close>

definition stripe_xor :: "nat \<Rightarrow> (u32 \<Rightarrow> block) \<Rightarrow> int list \<Rightarrow> int \<Rightarrow> block" where
  "stripe_xor bs blk ds row =
     fold (\<lambda>d acc. xor_block acc (blk (swap_phys_block d row))) ds (replicate bs 0)"

definition survivors :: "int \<Rightarrow> int list" where
  "survivors failed = filter (\<lambda>d. d \<noteq> failed) all_disks"

text \<open>
  The content of a logical block. In RAID5 with a failed disk, the blocks of that disk are what
  the surviving disks of the row add up to.
\<close>

definition raid5_view :: "nat \<Rightarrow> int \<Rightarrow> (u32 \<Rightarrow> block) \<Rightarrow> int \<Rightarrow> block" where
  "raid5_view bs failed blk l =
     (case raid5_map l of (dd, pd, row) \<Rightarrow>
        if dd = failed then stripe_xor bs blk (survivors failed) row else blk (swap_phys_block dd row))"

definition raid_view :: "nat \<Rightarrow> int \<Rightarrow> (u32 \<Rightarrow> block) \<Rightarrow> int \<Rightarrow> block" where
  "raid_view bs mode blk l =
     (if mode = RAID0 then blk (swap_phys_block (l smod NDISKS) (l sdiv NDISKS))
      else if mode = RAID1 then (case raid1_map l of (d1, d2, row) \<Rightarrow> blk (swap_phys_block d1 row))
      else raid5_view bs (current_failed_disk mode) blk l)"

text \<open>What the RAID5 write does to the blocks, on each of its three branches.\<close>

definition raid5_effect :: "nat \<Rightarrow> int \<Rightarrow> (u32 \<Rightarrow> block) \<Rightarrow> int \<Rightarrow> block \<Rightarrow> u32 \<Rightarrow> block" where
  "raid5_effect bs failed blk l src =
     (case raid5_map l of (dd, pd, row) \<Rightarrow>
        if failed \<noteq> dd \<and> failed \<noteq> pd then
          blk(swap_phys_block dd row := src,
              swap_phys_block pd row := xor_block (xor_block (blk (swap_phys_block pd row)) (blk (swap_phys_block dd row))) src)
        else if failed = pd then blk(swap_phys_block dd row := src)
        else blk(swap_phys_block pd row :=
               xor_block (xor_block (blk (swap_phys_block pd row)) (stripe_xor bs blk (survivors failed) row)) src))"

lemma length_xor_block [simp]: "length (xor_block a b) = min (length a) (length b)"
  by (simp add: xor_block_def)

lemma nth_xor_block [simp]: "j < length a \<Longrightarrow> j < length b \<Longrightarrow> xor_block a b ! j = xor (a ! j) (b ! j)"
  by (simp add: xor_block_def)

lemma stripe_xor_general:
  assumes "\<And>d. d \<in> set ds \<Longrightarrow> length (blk (swap_phys_block d row)) = bs" and "length acc = bs"
  shows "length (fold (\<lambda>d acc. xor_block acc (blk (swap_phys_block d row))) ds acc) = bs"
    and "j < bs \<Longrightarrow> fold (\<lambda>d acc. xor_block acc (blk (swap_phys_block d row))) ds acc ! j
           = fold (\<lambda>d x. xor x (blk (swap_phys_block d row) ! j)) ds (acc ! j)"
  using assms by (induction ds arbitrary: acc) auto

lemma stripe_xor_nth:
  assumes "\<And>d. d \<in> set ds \<Longrightarrow> length (blk (swap_phys_block d row)) = bs"
  shows "length (stripe_xor bs blk ds row) = bs"
    and "j < bs \<Longrightarrow> stripe_xor bs blk ds row ! j = fold (\<lambda>d x. xor x (blk (swap_phys_block d row) ! j)) ds 0"
  using stripe_xor_general [of ds blk row bs "replicate bs 0"] assms by (simp_all add: stripe_xor_def)

lemma disk_cases:
  assumes "0 \<le> (d::int)" "d < 4"
  obtains "d = 0" | "d = 1" | "d = 2" | "d = 3"
  using assms by linarith

lemma xor_cancel_u8 [simp]: "xor (xor x a) (a::u8) = x" "xor a (xor a x) = (x::u8)"
  by (simp_all add: xor.assoc)

lemmas xor_ac_u8 = xor.assoc [where 'a = u8] xor.commute [where 'a = u8] xor.left_commute [where 'a = u8]

text \<open>The exclusive or of one byte position over the four disks.\<close>

definition xor4 :: "(int \<Rightarrow> u8) \<Rightarrow> u8" where
  "xor4 g = xor (xor (xor (g 0) (g 1)) (g 2)) (g 3)"

lemma xor4_survivors:
  assumes "0 \<le> f" "f < 4"
  shows "fold (\<lambda>d x. xor x (g d)) (survivors f) 0 = xor (xor4 g) (g f)"
  by (cases rule: disk_cases [OF assms]) (simp_all add: survivors_def all_disks_def xor4_def xor_ac_u8)

lemma xor4_upd:
  assumes "0 \<le> d" "d < 4" and "\<And>e. 0 \<le> e \<Longrightarrow> e < 4 \<Longrightarrow> g' e = (if e = d then v else g e)"
  shows "xor4 g' = xor (xor (xor4 g) (g d)) v"
proof -
  have "xor4 g' = xor4 (\<lambda>e. if e = d then v else g e)" using assms(3) by (simp add: xor4_def)
  also have "\<dots> = xor (xor (xor4 g) (g d)) v"
    by (cases rule: disk_cases [OF assms(1,2)]) (simp_all add: xor4_def xor_ac_u8)
  finally show ?thesis .
qed

text \<open>The core of the RAID5 argument: a row of four blocks, one of them written.\<close>

lemma raid5_effect_row:
  assumes l: "0 \<le> l" "raid5_map l = (dd, pd, row)" and row: "row < max_row"
    and len: "\<And>d. 0 \<le> d \<Longrightarrow> d < 4 \<Longrightarrow> length (blk (swap_phys_block d row)) = bs" "length src = bs"
    and f: "0 \<le> f" "f < 4"
  shows "f = dd \<Longrightarrow> stripe_xor bs (raid5_effect bs f blk l src) (survivors f) row = src"
    and "f \<noteq> dd \<Longrightarrow> f \<noteq> pd \<Longrightarrow>
      stripe_xor bs (raid5_effect bs f blk l src) (survivors f) row = stripe_xor bs blk (survivors f) row"
proof -
  note p = raid5_map_props [OF l(2,1)]
  have r0: "0 \<le> row" using p l by simp
  have inj: "swap_phys_block d row = swap_phys_block d' row \<longleftrightarrow> d = d'"
    if "0 \<le> d" "d < 4" "0 \<le> d'" "d' < 4" for d d'
    using that r0 row swap_phys_block_inj by simp
  have sv: "\<forall>d \<in> set (survivors f). 0 \<le> d \<and> d < 4"
    by (auto simp: survivors_def all_disks_def split: if_splits)
  have X: "length (stripe_xor bs b (survivors f) row) = bs"
      "j < bs \<Longrightarrow> stripe_xor bs b (survivors f) row ! j
         = xor (xor4 (\<lambda>d. b (swap_phys_block d row) ! j)) (b (swap_phys_block f row) ! j)"
    if "\<forall>d. 0 \<le> d \<and> d < 4 \<longrightarrow> length (b (swap_phys_block d row)) = bs" for j b
    using that sv stripe_xor_nth(1) [of "survivors f" b row bs] stripe_xor_nth(2) [of "survivors f" b row bs j]
      xor4_survivors [OF f, of "\<lambda>d. b (swap_phys_block d row) ! j"] by simp_all
  have lb: "\<forall>d. 0 \<le> d \<and> d < 4 \<longrightarrow> length (blk (swap_phys_block d row)) = bs"
    using len(1) by simp
  note Xb = X [OF lb]
  let ?e = "raid5_effect bs f blk l src"
  have le: "\<forall>d. 0 \<le> d \<and> d < 4 \<longrightarrow> length (?e (swap_phys_block d row)) = bs"
    using len Xb(1) p(1-5) by (auto simp: raid5_effect_def l)
  note Xe = X [OF le]
  show "stripe_xor bs ?e (survivors f) row = src" if "f = dd"
  proof (rule nth_equalityI)
    fix j assume "j < length (stripe_xor bs ?e (survivors f) row)"
    then have j: "j < bs" using Xe(1) by simp
    have "xor4 (\<lambda>d. ?e (swap_phys_block d row) ! j) = xor (xor (xor4 (\<lambda>d. blk (swap_phys_block d row) ! j))
        (blk (swap_phys_block pd row) ! j)) (?e (swap_phys_block pd row) ! j)"
      using p(1-5) that by (intro xor4_upd) (simp_all add: raid5_effect_def l inj)
    moreover have "?e (swap_phys_block pd row) ! j = xor (xor (blk (swap_phys_block pd row) ! j)
        (stripe_xor bs blk (survivors f) row ! j)) (src ! j)"
      using p(1-5) that j len Xb(1) by (simp add: raid5_effect_def l)
    moreover have "?e (swap_phys_block f row) = blk (swap_phys_block f row)"
      using p(1-5) that by (simp add: raid5_effect_def l inj)
    ultimately show "stripe_xor bs ?e (survivors f) row ! j = src ! j"
      by (simp add: Xe(2) [OF j] Xb(2) [OF j] xor_ac_u8)
  qed (simp add: Xe(1) len)
  show "stripe_xor bs ?e (survivors f) row = stripe_xor bs blk (survivors f) row" if "f \<noteq> dd" "f \<noteq> pd"
  proof (rule nth_equalityI)
    fix j assume "j < length (stripe_xor bs ?e (survivors f) row)"
    then have j: "j < bs" using Xe(1) by simp
    let ?g = "\<lambda>d. if d = dd then src ! j else blk (swap_phys_block d row) ! j"
    have "xor4 (\<lambda>d. ?e (swap_phys_block d row) ! j)
        = xor (xor (xor4 ?g) (?g pd)) (?e (swap_phys_block pd row) ! j)"
      using p(1-5) that by (intro xor4_upd) (simp_all add: raid5_effect_def l inj)
    moreover have "xor4 ?g = xor (xor (xor4 (\<lambda>d. blk (swap_phys_block d row) ! j))
        (blk (swap_phys_block dd row) ! j)) (src ! j)"
      using p(1-5) by (intro xor4_upd) simp_all
    moreover have "?e (swap_phys_block pd row) ! j = xor (xor (blk (swap_phys_block pd row) ! j)
        (blk (swap_phys_block dd row) ! j)) (src ! j)"
      using p(1-5) that j len by (simp add: raid5_effect_def l)
    moreover have "?e (swap_phys_block f row) = blk (swap_phys_block f row)"
      using p(1-5) f that by (simp add: raid5_effect_def l inj)
    ultimately show "stripe_xor bs ?e (survivors f) row ! j = stripe_xor bs blk (survivors f) row ! j"
      using p(5) by (simp add: Xe(2) [OF j] Xb(2) [OF j] xor_ac_u8)
  qed (simp add: Xe(1) Xb(1))
qed

lemma raid5_effect_other_row:
  assumes "0 \<le> l" "raid5_map l = (dd, pd, row)" "row < max_row"
    and "0 \<le> d" "d < 4" "0 \<le> row'" "row' < max_row" "row' \<noteq> row"
  shows "raid5_effect bs f blk l src (swap_phys_block d row') = blk (swap_phys_block d row')"
proof -
  note p = raid5_map_props [OF assms(2,1)]
  have "0 \<le> row" using p(6) assms(1) by simp
  with p(1-4) assms(3-8) show ?thesis
    by (simp add: raid5_effect_def assms(2) swap_phys_block_inj)
qed

lemma stripe_xor_cong:
  assumes "\<And>d. d \<in> set ds \<Longrightarrow> b (swap_phys_block d row) = b' (swap_phys_block d row)"
  shows "stripe_xor bs b ds row = stripe_xor bs b' ds row"
  unfolding stripe_xor_def using assms by (intro fold_cong) auto

lemma survivors_range: "d \<in> set (survivors f) \<Longrightarrow> 0 \<le> d \<and> d < 4"
  by (auto simp: survivors_def all_disks_def split: if_splits)

text \<open>A write changes the logical block it names and no other, failed disk or not.\<close>

lemma raid5_view_effect:
  assumes l: "0 \<le> l" "l div 3 < max_row" and l': "0 \<le> l'" "l' div 3 < max_row"
    and len: "\<And>d. 0 \<le> d \<Longrightarrow> d < 4 \<Longrightarrow> length (blk (swap_phys_block d (l div 3))) = bs" "length src = bs"
    and f: "f = -1 \<or> 0 \<le> f \<and> f < 4"
  shows "raid5_view bs f (raid5_effect bs f blk l src) l' = (if l' = l then src else raid5_view bs f blk l')"
proof -
  let ?e = "raid5_effect bs f blk l src"
  obtain dd pd row where m: "raid5_map l = (dd, pd, row)" by (metis prod_cases3)
  obtain dd' pd' row' where m': "raid5_map l' = (dd', pd', row')" by (metis prod_cases3)
  note p = raid5_map_props [OF m l(1)] and p' = raid5_map_props [OF m' l'(1)]
  have rows: "row < max_row" "row' < max_row" "0 \<le> row" "0 \<le> row'"
    using p(6) p'(6) l l' by simp_all
  have len': "length (blk (swap_phys_block d row)) = bs" if "0 \<le> d" "d < 4" for d
    using len(1) [OF that] p(6) by simp
  show ?thesis
  proof (cases "row' = row")
    case False
    have same: "?e (swap_phys_block d row') = blk (swap_phys_block d row')" if "0 \<le> d" "d < 4" for d
      using that False l m rows by (intro raid5_effect_other_row) simp_all
    have "stripe_xor bs ?e (survivors f) row' = stripe_xor bs blk (survivors f) row'"
      using same survivors_range by (intro stripe_xor_cong) simp
    moreover have "l' \<noteq> l" using False m m' by auto
    ultimately show ?thesis using same p'(1,2) by (simp add: raid5_view_def m')
  next
    case True
    have pd': "pd' = pd" using p(6,7) p'(6,7) True by simp
    have inj: "swap_phys_block d row = swap_phys_block d' row \<longleftrightarrow> d = d'"
      if "0 \<le> d" "d < 4" "0 \<le> d'" "d' < 4" for d d'
      using that rows swap_phys_block_inj by simp
    show ?thesis
    proof (cases "l' = l")
      case True
      then have "dd' = dd" using m m' by simp
      show ?thesis
      proof (cases "dd = f")
        case True
        have "stripe_xor bs ?e (survivors f) row = src"
          by (rule raid5_effect_row(1) [where blk = blk and f = f, OF l(1) m rows(1) len' len(2)])
            (use True p(1,2) in simp_all)
        with True \<open>l' = l\<close> show ?thesis by (simp add: raid5_view_def m)
      next
        case False
        with p(1-5) \<open>l' = l\<close> show ?thesis
          by (simp add: raid5_view_def m raid5_effect_def inj)
      qed
    next
      case False
      then have dd': "dd' \<noteq> dd" using raid5_map_inj m m' l(1) l'(1) \<open>row' = row\<close> by blast
      show ?thesis
      proof (cases "dd' = f")
        case fail: True
        have "stripe_xor bs ?e (survivors f) row = stripe_xor bs blk (survivors f) row"
          by (rule raid5_effect_row(2) [where blk = blk and f = f, OF l(1) m rows(1) len' len(2)])
            (use fail p'(1,2,5) dd' pd' in auto)
        with fail False \<open>row' = row\<close> show ?thesis by (simp add: raid5_view_def m')
      next
        case ok: False
        have "?e (swap_phys_block dd' row) = blk (swap_phys_block dd' row)"
          using p(1-5) p'(1-5) dd' pd' by (simp add: raid5_effect_def m inj)
        with ok False \<open>row' = row\<close> show ?thesis by (simp add: raid5_view_def m')
      qed
    qed
  qed
qed


section \<open>The block operations on a block store\<close>

text \<open>The swap area: \<open>rows\<close> rows of the four disks belong to the region of the store.\<close>

locale raid_store = block_store +
  fixes rows :: int
  assumes rows_max: "rows \<le> max_row"
    and region_rows: "0 \<le> d \<Longrightarrow> d < 4 \<Longrightarrow> 0 \<le> r \<Longrightarrow> r < rows \<Longrightarrow> region (swap_phys_block d r)"
begin

lemma xor_survivors_spec:
  assumes "sinv s" and "0 \<le> row" "row < rows" and "\<And>d. d \<in> set ds \<Longrightarrow> 0 \<le> d \<and> d < 4"
  shows "\<exists>s'. xor_survivors get f row ds acc s
      = Inr (fold (\<lambda>d acc. xor_block acc (blk s (swap_phys_block d row))) (filter (\<lambda>d. d \<noteq> f) ds) acc, s')
    \<and> sinv s' \<and> blk s' = blk s"
  using assms
proof (induction ds arbitrary: acc s)
  case Nil
  then show ?case by simp
next
  case (Cons d ds)
  show ?case
  proof (cases "d = f")
    case True
    with Cons show ?thesis by simp
  next
    case False
    have "region (swap_phys_block d row)" using Cons.prems region_rows by simp
    then obtain s1 where s1: "get (swap_phys_block d row) s = Inr (blk s (swap_phys_block d row), s1)"
      "sinv s1" "blk s1 = blk s"
      using get_spec Cons.prems(1) by blast
    with Cons.IH [OF s1(2), of "xor_block acc (blk s (swap_phys_block d row))"] Cons.prems False
    show ?thesis by auto
  qed
qed

lemma xor_all_survivors:
  assumes "sinv s" and "0 \<le> row" "row < rows"
  shows "\<exists>s'. xor_survivors get f row all_disks (replicate bs 0) s = Inr (stripe_xor bs (blk s) (survivors f) row, s')
    \<and> sinv s' \<and> blk s' = blk s"
  unfolding stripe_xor_def survivors_def
  by (rule xor_survivors_spec [OF assms]) (auto simp: all_disks_def)

lemma raid5_rows:
  assumes "raid5_map l = (dd, pd, row)" "0 \<le> l" "l < 2 * rows"
  shows "0 \<le> row" "row < rows" "region (swap_phys_block dd row)" "region (swap_phys_block pd row)"
proof -
  note p = raid5_map_props [OF assms(1,2)]
  show r: "0 \<le> row" "row < rows" using p(6) assms(2,3) by linarith+
  show "region (swap_phys_block dd row)" "region (swap_phys_block pd row)"
    using p(1-4) r by (simp_all add: region_rows)
qed

lemma raid5_read_spec:
  assumes "sinv s" "0 \<le> l" "l < 2 * rows"
  shows "\<exists>s'. raid5_read bs get f l s = Inr (raid5_view bs f (blk s) l, s') \<and> sinv s' \<and> blk s' = blk s"
proof -
  obtain dd pd row where m: "raid5_map l = (dd, pd, row)" by (metis prod_cases3)
  note r = raid5_rows [OF m assms(2,3)] and p = raid5_map_props [OF m assms(2)]
  obtain s1 where "get (swap_phys_block dd row) s = Inr (blk s (swap_phys_block dd row), s1)"
    "sinv s1" "blk s1 = blk s"
    using get_spec [OF assms(1) r(3)] by blast
  with xor_all_survivors [OF assms(1) r(1,2), of f] p(1) show ?thesis
    by (auto simp: raid5_read_def raid5_view_def m)
qed

lemma raid5_write_spec:
  assumes s: "sinv s" "0 \<le> l" "l < 2 * rows" and src: "length src = bs"
  shows "\<exists>s'. raid5_write bs get put f l src s = Inr s' \<and> sinv s' \<and> blk s' = raid5_effect bs f (blk s) l src"
proof -
  obtain dd pd row where m: "raid5_map l = (dd, pd, row)" by (metis prod_cases3)
  note r = raid5_rows [OF m s(2,3)] and p = raid5_map_props [OF m s(2)]
  have cond: "(f = -1 \<or> f \<noteq> dd \<and> f \<noteq> pd) \<longleftrightarrow> f \<noteq> dd \<and> f \<noteq> pd" using p(1,3) by auto
  have len: "length (blk s (swap_phys_block dd row)) = bs" "length (blk s (swap_phys_block pd row)) = bs"
    using s(1) r(3,4) by (simp_all add: blk_length)
  consider (rmw) "f \<noteq> dd \<and> f \<noteq> pd" | (parity) "f = pd" "f \<noteq> dd" | (data) "f = dd" by blast
  then show ?thesis
  proof cases
    case rmw
    obtain s1 where s1: "get (swap_phys_block dd row) s = Inr (blk s (swap_phys_block dd row), s1)"
      "sinv s1" "blk s1 = blk s" using get_spec [OF s(1) r(3)] by blast
    obtain s2 where s2: "get (swap_phys_block pd row) s1 = Inr (blk s (swap_phys_block pd row), s2)"
      "sinv s2" "blk s2 = blk s" using get_spec [OF s1(2) r(4)] s1(3) by auto
    obtain s3 where s3: "put (swap_phys_block dd row) src s2 = Inr s3" "sinv s3"
      "blk s3 = (blk s)(swap_phys_block dd row := src)"
      using put_spec [OF s2(2) r(3) src] s2(3) by auto
    let ?np = "xor_block (xor_block (blk s (swap_phys_block pd row)) (blk s (swap_phys_block dd row))) src"
    have "length ?np = bs" using len src by simp
    from put_spec [OF s3(2) r(4) this] s1(1) s2(1) s3 rmw show ?thesis
      by (auto simp: raid5_write_def raid5_effect_def m cond)
  next
    case parity
    with put_spec [OF s(1) r(3) src] p(1,3,5) show ?thesis
      by (auto simp: raid5_write_def raid5_effect_def m)
  next
    case data
    obtain s1 where s1: "xor_survivors get f row all_disks (replicate bs 0) s
        = Inr (stripe_xor bs (blk s) (survivors f) row, s1)" "sinv s1" "blk s1 = blk s"
      using xor_all_survivors [OF s(1) r(1,2)] by blast
    obtain s2 where s2: "get (swap_phys_block pd row) s1 = Inr (blk s (swap_phys_block pd row), s2)"
      "sinv s2" "blk s2 = blk s" using get_spec [OF s1(2) r(4)] s1(3) by auto
    let ?np = "xor_block (xor_block (blk s (swap_phys_block pd row)) (stripe_xor bs (blk s) (survivors f) row)) src"
    have "length (stripe_xor bs (blk s) (survivors f) row) = bs"
      using survivors_range s(1) r(1,2) by (intro stripe_xor_nth) (simp add: blk_length region_rows)
    then have "length ?np = bs" using len src by simp
    from put_spec [OF s2(2) r(4) this] s1(1) s2 data p(1,5) show ?thesis
      by (auto simp: raid5_write_def raid5_effect_def m)
  qed
qed

end

lemma raid0_map_eq:
  assumes "0 \<le> l"
  shows "l smod NDISKS = l mod 4" "l sdiv NDISKS = l div 4"
  using assms by (simp_all add: NDISKS_def sdiv_smod_nonneg)

lemma pair_mod:
  shows "0 \<le> l mod 2 * 2" "l mod 2 * 2 + 1 < (4::int)"
  by presburger+

context raid_store
begin

lemma swap_read_block_spec:
  assumes "sinv s" "0 \<le> l" "l < 2 * rows"
  shows "\<exists>s'. swap_read_block bs get mode l s = Inr (raid_view bs mode (blk s) l, s') \<and> sinv s' \<and> blk s' = blk s"
proof -
  have r0: "region (swap_phys_block (l mod 4) (l div 4))"
    using assms(2,3) by (intro region_rows) linarith+
  have r1: "region (swap_phys_block (l mod 2 * 2) (l div 2))"
    using assms(2,3) pair_mod [of l] by (intro region_rows) linarith+
  show ?thesis
    using get_spec [OF assms(1) r0] get_spec [OF assms(1) r1]
      raid5_read_spec [OF assms, of "current_failed_disk mode"] assms(2) pair_mod [of l]
    by (auto simp: swap_read_block_def raid_view_def raid0_read_def raid1_read_def raid0_map_eq raid1_map_eq
        current_failed_disk_def RAID0_def RAID1_def RAID5_def Let_def)
qed

lemma raid0_write_spec:
  assumes "sinv s" "0 \<le> l" "l < 2 * rows" "length src = bs"
  shows "\<exists>s'. raid0_write put l src s = Inr s' \<and> sinv s' \<and> blk s' = (blk s)(swap_phys_block (l mod 4) (l div 4) := src)"
proof -
  have "region (swap_phys_block (l mod 4) (l div 4))"
    using assms(2,3) by (intro region_rows) linarith+
  from put_spec [OF assms(1) this assms(4)] show ?thesis
    using assms(2) by (simp add: raid0_write_def raid0_map_eq)
qed

text \<open>RAID1 writes both mirrors.\<close>

lemma raid1_write_spec:
  assumes "sinv s" "0 \<le> l" "l < 2 * rows" "length src = bs"
  shows "\<exists>s'. raid1_write put (-1) l src s = Inr s' \<and> sinv s'
    \<and> blk s' = (blk s)(swap_phys_block (l mod 2 * 2) (l div 2) := src, swap_phys_block (l mod 2 * 2 + 1) (l div 2) := src)"
proof -
  have r: "region (swap_phys_block (l mod 2 * 2) (l div 2))" "region (swap_phys_block (l mod 2 * 2 + 1) (l div 2))"
    using assms(2,3) pair_mod [of l] by (auto intro!: region_rows)
  obtain s1 where s1: "put (swap_phys_block (l mod 2 * 2) (l div 2)) src s = Inr s1" "sinv s1"
    "blk s1 = (blk s)(swap_phys_block (l mod 2 * 2) (l div 2) := src)"
    using put_spec [OF assms(1) r(1) assms(4)] by blast
  have ne: "l mod 2 * 2 \<noteq> -1" "l mod 2 * 2 + 1 \<noteq> -1" using pair_mod [of l] by linarith+
  from put_spec [OF s1(2) r(2) assms(4)] s1 ne show ?thesis
    using assms(2) by (auto simp: raid1_write_def raid1_map_eq)
qed

text \<open>A block write, seen through the layout: the named block and no other.\<close>

lemma swap_write_block_spec:
  assumes s: "sinv s" "0 \<le> l" "l < 2 * rows" and src: "length src = bs"
  shows "\<exists>s'. swap_write_block bs get put mode l src s = Inr s' \<and> sinv s'
     \<and> (\<forall>l'. 0 \<le> l' \<longrightarrow> l' < 2 * rows \<longrightarrow>
          raid_view bs mode (blk s') l' = (if l' = l then src else raid_view bs mode (blk s) l'))"
proof -
  have rows0: "l' div 4 < max_row \<and> l' div 2 < max_row \<and> l' div 3 < max_row" if "0 \<le> l'" "l' < 2 * rows" for l'
    using that rows_max by linarith
  consider "mode = RAID0" | "mode = RAID1" | "mode \<noteq> RAID0" "mode \<noteq> RAID1" by blast
  then show ?thesis
  proof cases
    case 1
    obtain s' where s': "raid0_write put l src s = Inr s'" "sinv s'"
      "blk s' = (blk s)(swap_phys_block (l mod 4) (l div 4) := src)"
      using raid0_write_spec [OF s src] by blast
    have "raid_view bs mode (blk s') l' = (if l' = l then src else raid_view bs mode (blk s) l')"
      if "0 \<le> l'" "l' < 2 * rows" for l'
    proof -
      have "swap_phys_block (l' mod 4) (l' div 4) = swap_phys_block (l mod 4) (l div 4)
          \<longleftrightarrow> l' mod 4 = l mod 4 \<and> l' div 4 = l div 4"
        using that s(2,3) rows0 by (intro swap_phys_block_inj) simp_all
      also have "\<dots> \<longleftrightarrow> l' = l" by (metis div_mult_mod_eq)
      finally show ?thesis using that s(2) 1 by (simp add: raid_view_def raid0_map_eq s'(3))
    qed
    then show ?thesis using s' 1 by (auto simp: swap_write_block_def)
  next
    case 2
    have f: "current_failed_disk mode = -1" using 2 by (simp add: current_failed_disk_def RAID1_def RAID5_def)
    obtain s' where s': "raid1_write put (-1) l src s = Inr s'" "sinv s'"
      "blk s' = (blk s)(swap_phys_block (l mod 2 * 2) (l div 2) := src, swap_phys_block (l mod 2 * 2 + 1) (l div 2) := src)"
      using raid1_write_spec [OF s src] by blast
    have "raid_view bs mode (blk s') l' = (if l' = l then src else raid_view bs mode (blk s) l')"
      if "0 \<le> l'" "l' < 2 * rows" for l'
    proof -
      have r': "l div 2 < max_row" "l' div 2 < max_row" using rows0 that s by blast+
      have "swap_phys_block (l' mod 2 * 2) (l' div 2) = swap_phys_block (l mod 2 * 2) (l div 2)
          \<longleftrightarrow> l' mod 2 * 2 = l mod 2 * 2 \<and> l' div 2 = l div 2"
        using that(1) s(2) pair_mod [of l] pair_mod [of l'] r' by (intro swap_phys_block_inj) simp_all
      also have "\<dots> \<longleftrightarrow> l' = l" by (metis div_mult_mod_eq mult_cancel_right zero_neq_numeral)
      finally have a: "swap_phys_block (l' mod 2 * 2) (l' div 2) = swap_phys_block (l mod 2 * 2) (l div 2) \<longleftrightarrow> l' = l" .
      have "swap_phys_block (l' mod 2 * 2) (l' div 2) = swap_phys_block (l mod 2 * 2 + 1) (l div 2)
          \<longleftrightarrow> l' mod 2 * 2 = l mod 2 * 2 + 1 \<and> l' div 2 = l div 2"
        using that(1) s(2) pair_mod [of l] pair_mod [of l'] r' by (intro swap_phys_block_inj) simp_all
      moreover have "l' mod 2 * 2 \<noteq> l mod 2 * 2 + 1" by presburger
      ultimately have b: "swap_phys_block (l' mod 2 * 2) (l' div 2) \<noteq> swap_phys_block (l mod 2 * 2 + 1) (l div 2)"
        by simp
      have m: "mode \<noteq> RAID0" using 2 by (simp add: RAID0_def RAID1_def)
      show ?thesis
        unfolding raid_view_def using that(1) 2 m a b by (simp add: raid1_map_eq s'(3))
    qed
    then show ?thesis using s' 2 f by (auto simp: swap_write_block_def RAID0_def RAID1_def)
  next
    case 3
    let ?f = "current_failed_disk mode"
    obtain s' where s': "raid5_write bs get put ?f l src s = Inr s'" "sinv s'" "blk s' = raid5_effect bs ?f (blk s) l src"
      using raid5_write_spec [OF s src] by blast
    have len: "length (blk s (swap_phys_block d (l div 3))) = bs" if "0 \<le> d" "d < 4" for d
      using that s by (intro blk_length region_rows) simp_all
    have f: "?f = -1 \<or> 0 \<le> ?f \<and> ?f < 4" by (simp add: current_failed_disk_def FAILED_DISK_def)
    have "raid5_view bs ?f (blk s') l' = (if l' = l then src else raid5_view bs ?f (blk s) l')"
      if "0 \<le> l'" "l' < 2 * rows" for l'
      unfolding s'(3) using that s(2,3) rows0 len src f by (intro raid5_view_effect) simp_all
    then show ?thesis using s' 3 by (auto simp: swap_write_block_def raid_view_def)
  qed
qed

end


section \<open>Layout and parity\<close>

text \<open>The physical blocks that hold the content of a logical block: both mirrors in RAID1.\<close>

definition data_blocks :: "int \<Rightarrow> int \<Rightarrow> u32 set" where
  "data_blocks mode l =
     (if mode = RAID0 then {swap_phys_block (l smod NDISKS) (l sdiv NDISKS)}
      else if mode = RAID1 then (case raid1_map l of (d1, d2, row) \<Rightarrow> {swap_phys_block d1 row, swap_phys_block d2 row})
      else (case raid5_map l of (dd, pd, row) \<Rightarrow> {swap_phys_block dd row}))"

definition parity_block :: "int \<Rightarrow> u32" where
  "parity_block l = (case raid5_map l of (dd, pd, row) \<Rightarrow> swap_phys_block pd row)"

lemma div_mod_eq_iff: "0 < k \<Longrightarrow> (l mod k = l' mod k \<and> l div k = l' div k) \<longleftrightarrow> l = (l'::int)"
  by (metis div_mult_mod_eq)

lemma raid0_blocks_disjoint:
  assumes "0 \<le> l" "l < max_row" "0 \<le> l'" "l' < max_row" "l \<noteq> l'"
  shows "data_blocks RAID0 l \<inter> data_blocks RAID0 l' = {}"
proof -
  have "swap_phys_block (l mod 4) (l div 4) = swap_phys_block (l' mod 4) (l' div 4)
      \<longleftrightarrow> l mod 4 = l' mod 4 \<and> l div 4 = l' div 4"
    using assms by (intro swap_phys_block_inj) (simp_all add: max_row_def)
  also have "\<dots> \<longleftrightarrow> l = l'" by (rule div_mod_eq_iff) simp
  finally show ?thesis using assms by (simp add: data_blocks_def raid0_map_eq)
qed

lemma raid1_blocks_disjoint:
  assumes "0 \<le> l" "l < max_row" "0 \<le> l'" "l' < max_row" "l \<noteq> l'"
  shows "data_blocks RAID1 l \<inter> data_blocks RAID1 l' = {}"
proof -
  have "swap_phys_block (l mod 2 * 2 + i) (l div 2) \<noteq> swap_phys_block (l' mod 2 * 2 + i') (l' div 2)"
    if i: "0 \<le> i" "i < 2" "0 \<le> i'" "i' < 2" for i i'
  proof
    assume eq: "swap_phys_block (l mod 2 * 2 + i) (l div 2) = swap_phys_block (l' mod 2 * 2 + i') (l' div 2)"
    have "swap_phys_block (l mod 2 * 2 + i) (l div 2) = swap_phys_block (l' mod 2 * 2 + i') (l' div 2)
      \<longleftrightarrow> l mod 2 * 2 + i = l' mod 2 * 2 + i' \<and> l div 2 = l' div 2"
      using assms(1-4) pair_mod [of l] pair_mod [of l'] i by (intro swap_phys_block_inj) (simp_all add: max_row_def)
    with eq have e: "l mod 2 * 2 + i = l' mod 2 * 2 + i'" "l div 2 = l' div 2" by blast+
    from e(1) i have "l mod 2 = l' mod 2" by linarith
    with e(2) have "l = l'" using div_mod_eq_iff [of 2 l l'] by simp
    with assms(5) show False by simp
  qed
  from this [of 0 0] this [of 0 1] this [of 1 0] this [of 1 1] show ?thesis
    using assms by (simp add: data_blocks_def raid1_map_eq RAID0_def RAID1_def)
qed

lemma raid5_blocks_disjoint:
  assumes "0 \<le> l" "l < max_row" "0 \<le> l'" "l' < max_row"
  shows "l \<noteq> l' \<Longrightarrow> data_blocks RAID5 l \<inter> data_blocks RAID5 l' = {}"
    and "parity_block l \<notin> data_blocks RAID5 l'"
proof -
  obtain dd pd row where m: "raid5_map l = (dd, pd, row)" by (metis prod_cases3)
  obtain dd' pd' row' where m': "raid5_map l' = (dd', pd', row')" by (metis prod_cases3)
  note p = raid5_map_props [OF m assms(1)] and p' = raid5_map_props [OF m' assms(3)]
  have rows: "0 \<le> row" "row < max_row" "0 \<le> row'" "row' < max_row"
    using p(6) p'(6) assms by (simp_all add: max_row_def)
  have mode: "RAID5 \<noteq> RAID0" "RAID5 \<noteq> RAID1" by (simp_all add: RAID0_def RAID1_def RAID5_def)
  show "data_blocks RAID5 l \<inter> data_blocks RAID5 l' = {}" if "l \<noteq> l'"
    using raid5_map_inj [of l dd pd row l' pd'] m m' assms(1,3) that p(1,2) p'(1,2) rows
    by (auto simp: data_blocks_def mode swap_phys_block_inj)
  have "swap_phys_block pd row = swap_phys_block dd' row' \<longleftrightarrow> pd = dd' \<and> row = row'"
    using p(3,4) p'(1,2) rows by (intro swap_phys_block_inj)
  then show "parity_block l \<notin> data_blocks RAID5 l'"
    using p(6,7) p'(5-7) by (auto simp: data_blocks_def parity_block_def mode m m')
qed

text \<open>
  C18: The layouts do not overlap. In each of the three modes two different logical blocks of the
  swap area are stored in different physical blocks, no parity block of RAID5 is a data block,
  and every block used lies behind the file system.
\<close>

theorem layouts_disjoint:
  assumes "0 \<le> l" "l < max_row" "0 \<le> l'" "l' < max_row" "mode \<in> {RAID0, RAID1, RAID5}"
  shows "(l \<noteq> l' \<longrightarrow> data_blocks mode l \<inter> data_blocks mode l' = {})
     \<and> parity_block l \<notin> data_blocks RAID5 l'
     \<and> (\<forall>b \<in> data_blocks mode l \<union> {parity_block l}. SWAP_START_BLOCK \<le> uint b \<and> uint b \<le> SWAP_START_BLOCK + 2 * l + 3)"
proof (intro conjI ballI)
  show "l \<noteq> l' \<longrightarrow> data_blocks mode l \<inter> data_blocks mode l' = {}"
    using assms(5) raid0_blocks_disjoint [OF assms(1-4)] raid1_blocks_disjoint [OF assms(1-4)]
      raid5_blocks_disjoint(1) [OF assms(1-4)] by auto
  show "parity_block l \<notin> data_blocks RAID5 l'" by (rule raid5_blocks_disjoint(2) [OF assms(1-4)])
  fix b
  assume b: "b \<in> data_blocks mode l \<union> {parity_block l}"
  obtain dd pd row where m: "raid5_map l = (dd, pd, row)" by (metis prod_cases3)
  note p = raid5_map_props [OF m assms(1)]
  have half: "2 * (l div 4) \<le> l" "2 * (l div 2) \<le> l" "2 * (l div 3) \<le> l" using assms(1) by presburger+
  have "b \<in> {swap_phys_block (l mod 4) (l div 4), swap_phys_block (l mod 2 * 2) (l div 2),
      swap_phys_block (l mod 2 * 2 + 1) (l div 2), swap_phys_block dd row, swap_phys_block pd row}"
    using b assms(1) by (auto simp: data_blocks_def parity_block_def raid0_map_eq raid1_map_eq m split: if_splits)
  moreover define P where "P x \<longleftrightarrow> SWAP_START_BLOCK \<le> uint x \<and> uint x \<le> SWAP_START_BLOCK + 2 * l + 3" for x :: u32
  have P: "P (swap_phys_block d r)" if "0 \<le> d" "d < 4" "0 \<le> r" "2 * r \<le> l" for d r
    using swap_phys_block_uint [of d r] that assms(2) by (simp add: P_def SWAP_START_BLOCK_def)
  have "P (swap_phys_block (l mod 4) (l div 4))" by (rule P) (use assms(1) half in simp_all)
  moreover have "P (swap_phys_block (l mod 2 * 2) (l div 2))" "P (swap_phys_block (l mod 2 * 2 + 1) (l div 2))"
    using pair_mod [of l] assms(1) half by (intro P; simp)+
  moreover have "P (swap_phys_block dd row)" "P (swap_phys_block pd row)"
    using p(1-4) half(3) assms(1) unfolding p(6) by (intro P; simp)+
  ultimately have "P b" by blast
  then show "SWAP_START_BLOCK \<le> uint b" "uint b \<le> SWAP_START_BLOCK + 2 * l + 3"
    by (simp_all add: P_def)
qed

theorem layouts_disjoint_witness:
  "data_blocks RAID5 5 \<inter> data_blocks RAID5 7 = {} \<and> parity_block 5 \<notin> data_blocks RAID5 7"
  using layouts_disjoint [of 5 7 RAID5] by (simp add: max_row_def)

text \<open>A row with even parity in every byte position.\<close>

definition row_parity_ok :: "nat \<Rightarrow> (u32 \<Rightarrow> block) \<Rightarrow> int \<Rightarrow> bool" where
  "row_parity_ok bs blk row \<longleftrightarrow>
     (\<forall>d \<in> set all_disks. length (blk (swap_phys_block d row)) = bs) \<and> stripe_xor bs blk all_disks row = replicate bs 0"

lemma row_parity_xor4:
  assumes "\<forall>d. 0 \<le> d \<and> d < 4 \<longrightarrow> length (blk (swap_phys_block d row)) = bs"
  shows "row_parity_ok bs blk row \<longleftrightarrow> (\<forall>j < bs. xor4 (\<lambda>d. blk (swap_phys_block d row) ! j) = 0)"
proof -
  have len: "\<And>d. d \<in> set all_disks \<Longrightarrow> length (blk (swap_phys_block d row)) = bs"
    using assms by (auto simp: all_disks_def)
  note X = stripe_xor_nth [of all_disks blk row bs, OF len]
  have "stripe_xor bs blk all_disks row ! j = xor4 (\<lambda>d. blk (swap_phys_block d row) ! j)" if "j < bs" for j
    using X(2) [OF _ that] by (simp add: all_disks_def xor4_def)
  then show ?thesis
    using X(1) len by (auto simp: row_parity_ok_def list_eq_iff_nth_eq)
qed

lemma raid5_effect_parity:
  assumes l: "0 \<le> l" "raid5_map l = (dd, pd, row)" and row: "row < max_row"
    and len: "\<forall>d. 0 \<le> d \<and> d < 4 \<longrightarrow> length (blk (swap_phys_block d row)) = bs" "length src = bs"
    and ok: "row_parity_ok bs blk row"
  shows "row_parity_ok bs (raid5_effect bs (-1) blk l src) row"
proof -
  note p = raid5_map_props [OF l(2,1)]
  have inj: "swap_phys_block d row = swap_phys_block d' row \<longleftrightarrow> d = d'"
    if "0 \<le> d" "d < 4" "0 \<le> d'" "d' < 4" for d d'
    using that row p(6) l(1) swap_phys_block_inj by simp
  let ?e = "raid5_effect bs (-1) blk l src"
  have le: "\<forall>d. 0 \<le> d \<and> d < 4 \<longrightarrow> length (?e (swap_phys_block d row)) = bs"
    using len p(1-5) by (auto simp: raid5_effect_def l)
  have "xor4 (\<lambda>d. ?e (swap_phys_block d row) ! j) = 0" if j: "j < bs" for j
  proof -
    let ?g = "\<lambda>d. if d = dd then src ! j else blk (swap_phys_block d row) ! j"
    have "xor4 (\<lambda>d. ?e (swap_phys_block d row) ! j) = xor (xor (xor4 ?g) (?g pd)) (?e (swap_phys_block pd row) ! j)"
      using p(1-5) by (intro xor4_upd) (simp_all add: raid5_effect_def l inj)
    moreover have "xor4 ?g = xor (xor (xor4 (\<lambda>d. blk (swap_phys_block d row) ! j)) (blk (swap_phys_block dd row) ! j)) (src ! j)"
      using p(1-5) by (intro xor4_upd) simp_all
    moreover have "?e (swap_phys_block pd row) ! j = xor (xor (blk (swap_phys_block pd row) ! j)
        (blk (swap_phys_block dd row) ! j)) (src ! j)"
      using p(1-5) j len by (simp add: raid5_effect_def l)
    moreover have "xor4 (\<lambda>d. blk (swap_phys_block d row) ! j) = 0"
      using ok j row_parity_xor4 [OF len(1)] by simp
    ultimately show ?thesis using p(5) by (simp add: xor_ac_u8)
  qed
  then show ?thesis by (simp add: row_parity_xor4 [OF le])
qed




end
