(* ===== verification/Swap_Area.thy ===== *)
theory Swap_Area
  imports Raid_Swap
begin

text \<open>
  The swap area as its users see it: slots of one page (\<^verbatim>\<open>swap_disk_read\<close> and
  \<^verbatim>\<open>swap_disk_write\<close> of \<^verbatim>\<open>kernel/virtio_disk.c\<close>). The contract \<^verbatim>\<open>swap_device\<close> is what
  \<^verbatim>\<open>kernel/kalloc.c\<close> and \<^verbatim>\<open>kernel/vm.c\<close> rely on; the RAID layer over any block store meets it.
\<close>

section \<open>Pages and slots\<close>

text \<open>The page in a swap slot, read through the layout.\<close>

definition slot_page :: "nat \<Rightarrow> int \<Rightarrow> (u32 \<Rightarrow> block) \<Rightarrow> int \<Rightarrow> u8 list" where
  "slot_page bs mode blk slot =
     concat (map (\<lambda>i. raid_view bs mode blk (slot * int (BLOCKS_PER_PAGE bs) + int i)) [0..<BLOCKS_PER_PAGE bs])"

lemma concat_chunks:
  "concat (map (\<lambda>i. take n (drop (i * n) xs)) [0..<k]) = take (k * n) xs"
proof (induction k)
  case 0
  then show ?case by simp
next
  case (Suc k)
  then show ?case by (simp add: take_add [symmetric] add.commute)
qed

lemma slot_blocks_disjoint:
  assumes "i < n" "i' < n"
  shows "slot * int n + int i = slot' * int n + int i' \<longleftrightarrow> slot = slot' \<and> i = i'"
proof
  assume eq: "slot * int n + int i = slot' * int n + int i'"
  have "(slot * int n + int i) div int n = slot" "(slot' * int n + int i') div int n = slot'"
    using assms by simp_all
  with eq show "slot = slot' \<and> i = i'" by auto
qed simp

text \<open>
  The contract of the swap area: 256 slots of one page each. Both operations return 0.
\<close>

locale swap_device =
  fixes sread :: "int \<Rightarrow> 'r \<Rightarrow> (int \<times> u8 list \<times> 'r) res"
    and swrite :: "int \<Rightarrow> u8 list \<Rightarrow> 'r \<Rightarrow> (int \<times> 'r) res"
    and slot_data :: "'r \<Rightarrow> nat \<Rightarrow> u8 list"
    and rinv :: "'r \<Rightarrow> bool"
  assumes slot_length: "rinv r \<Longrightarrow> n < MAX_SWAP_PAGES \<Longrightarrow> length (slot_data r n) = PGSIZE"
    and sread_spec: "rinv r \<Longrightarrow> n < MAX_SWAP_PAGES \<Longrightarrow>
          \<exists>r'. sread (int n) r = Inr (0, slot_data r n, r') \<and> rinv r'
             \<and> (\<forall>m < MAX_SWAP_PAGES. slot_data r' m = slot_data r m)"
    and swrite_spec: "rinv r \<Longrightarrow> n < MAX_SWAP_PAGES \<Longrightarrow> length page = PGSIZE \<Longrightarrow>
          \<exists>r'. swrite (int n) page r = Inr (0, r') \<and> rinv r'
             \<and> (\<forall>m < MAX_SWAP_PAGES. slot_data r' m = (if m = n then page else slot_data r m))"
begin

text \<open>What was swapped out comes back, whatever was written to other slots in between.\<close>

lemma swap_round_trip:
  assumes "rinv r" "n < MAX_SWAP_PAGES" "length page = PGSIZE"
    "m < MAX_SWAP_PAGES" "length page' = PGSIZE" "m \<noteq> n"
  shows "\<exists>r1 r2 r3. swrite (int n) page r = Inr (0, r1) \<and> swrite (int m) page' r1 = Inr (0, r2)
     \<and> sread (int n) r2 = Inr (0, page, r3)"
proof -
  obtain r1 where r1: "swrite (int n) page r = Inr (0, r1)" "rinv r1" "slot_data r1 n = page"
    using swrite_spec [OF assms(1-3)] assms(2) by auto
  obtain r2 where r2: "swrite (int m) page' r1 = Inr (0, r2)" "rinv r2" "slot_data r2 n = page"
    using swrite_spec [OF r1(2) assms(4,5)] assms(2,6) r1(3) by auto
  from sread_spec [OF r2(2) assms(2)] r1 r2 show ?thesis by auto
qed

end

locale raid_swap = raid_store +
  assumes bs_page: "0 < bs" "bs dvd PGSIZE"
    and rows_enough: "int MAX_SWAP_PAGES * int (BLOCKS_PER_PAGE bs) \<le> 2 * rows"
begin

lemma page_blocks: "BLOCKS_PER_PAGE bs * bs = PGSIZE"
  using bs_page by (simp add: BLOCKS_PER_PAGE_def)

lemma logical_range:
  assumes "n < MAX_SWAP_PAGES" "i < BLOCKS_PER_PAGE bs"
  shows "0 \<le> int n * int (BLOCKS_PER_PAGE bs) + int i" "int n * int (BLOCKS_PER_PAGE bs) + int i < 2 * rows"
proof -
  let ?k = "BLOCKS_PER_PAGE bs"
  have "n * ?k + i < (n + 1) * ?k" using assms by simp
  also have "\<dots> \<le> MAX_SWAP_PAGES * ?k" using assms by (intro mult_le_mono1) simp
  finally have "int (n * ?k + i) < int (MAX_SWAP_PAGES * ?k)" by (simp only: of_nat_less_iff)
  with rows_enough show "int n * int ?k + int i < 2 * rows" by simp
qed simp

lemma read_blocks_spec:
  assumes "sinv s" "n < MAX_SWAP_PAGES" "\<And>i. i \<in> set is \<Longrightarrow> i < BLOCKS_PER_PAGE bs"
  shows "\<exists>s'. read_blocks bs get mode (int n) is s
      = Inr (concat (map (\<lambda>i. raid_view bs mode (blk s) (int n * int (BLOCKS_PER_PAGE bs) + int i)) is), s')
    \<and> sinv s' \<and> blk s' = blk s"
  using assms
proof (induction "is" arbitrary: s)
  case Nil
  then show ?case by simp
next
  case (Cons i "is")
  let ?l = "int n * int (BLOCKS_PER_PAGE bs) + int i"
  have l: "0 \<le> ?l" "?l < 2 * rows" using logical_range [OF Cons.prems(2)] Cons.prems(3) by simp_all
  obtain s1 where s1: "swap_read_block bs get mode ?l s = Inr (raid_view bs mode (blk s) ?l, s1)" "sinv s1" "blk s1 = blk s"
    using swap_read_block_spec [OF Cons.prems(1) l] by blast
  with Cons.IH [OF s1(2)] Cons.prems(2,3) show ?case by auto
qed

lemma write_blocks_spec:
  assumes "sinv s" "n < MAX_SWAP_PAGES" "\<And>i. i \<in> set is \<Longrightarrow> i < BLOCKS_PER_PAGE bs" "distinct is"
    and page: "length page = PGSIZE"
  shows "\<exists>s'. write_blocks bs get put mode (int n) is page s = Inr s' \<and> sinv s'
    \<and> (\<forall>m < MAX_SWAP_PAGES. \<forall>j < BLOCKS_PER_PAGE bs.
         raid_view bs mode (blk s') (int m * int (BLOCKS_PER_PAGE bs) + int j)
           = (if m = n \<and> j \<in> set is then take bs (drop (j * bs) page)
              else raid_view bs mode (blk s) (int m * int (BLOCKS_PER_PAGE bs) + int j)))"
  using assms(1-4)
proof (induction "is" arbitrary: s)
  case Nil
  then show ?case by simp
next
  case (Cons i "is")
  let ?l = "int n * int (BLOCKS_PER_PAGE bs) + int i"
  have i: "i < BLOCKS_PER_PAGE bs" using Cons.prems by simp
  then have "(i + 1) * bs \<le> PGSIZE" unfolding page_blocks [symmetric] by (intro mult_le_mono1) simp
  then have len: "length (take bs (drop (i * bs) page)) = bs" using page by simp
  obtain s1 where s1: "swap_write_block bs get put mode ?l (take bs (drop (i * bs) page)) s = Inr s1" "sinv s1"
    "\<forall>l'. 0 \<le> l' \<longrightarrow> l' < 2 * rows \<longrightarrow> raid_view bs mode (blk s1) l'
       = (if l' = ?l then take bs (drop (i * bs) page) else raid_view bs mode (blk s) l')"
    using swap_write_block_spec [OF Cons.prems(1) logical_range [OF Cons.prems(2) i] len] by blast
  obtain s' where s': "write_blocks bs get put mode (int n) is page s1 = Inr s'" "sinv s'"
    "\<forall>m < MAX_SWAP_PAGES. \<forall>j < BLOCKS_PER_PAGE bs.
         raid_view bs mode (blk s') (int m * int (BLOCKS_PER_PAGE bs) + int j)
           = (if m = n \<and> j \<in> set is then take bs (drop (j * bs) page)
              else raid_view bs mode (blk s1) (int m * int (BLOCKS_PER_PAGE bs) + int j))"
    using Cons.IH [OF s1(2)] Cons.prems by auto
  have "raid_view bs mode (blk s1) (int m * int (BLOCKS_PER_PAGE bs) + int j)
      = (if m = n \<and> j = i then take bs (drop (j * bs) page)
         else raid_view bs mode (blk s) (int m * int (BLOCKS_PER_PAGE bs) + int j))"
    if "m < MAX_SWAP_PAGES" "j < BLOCKS_PER_PAGE bs" for m j
    using s1(3) logical_range [OF that] slot_blocks_disjoint [OF that(2) i, of "int m" "int n"] by auto
  then show ?case using s' s1(1) by auto
qed

lemma slot_page_cong:
  assumes "\<And>j. j < BLOCKS_PER_PAGE bs \<Longrightarrow>
    raid_view bs mode b (int m * int (BLOCKS_PER_PAGE bs) + int j)
      = raid_view bs mode b' (int m * int (BLOCKS_PER_PAGE bs) + int j)"
  shows "slot_page bs mode b (int m) = slot_page bs mode b' (int m)"
  unfolding slot_page_def using assms by (intro arg_cong [of _ _ concat] map_cong) auto

lemma raid_view_length:
  assumes "sinv s" "0 \<le> l" "l < 2 * rows"
  shows "length (raid_view bs mode (blk s) l) = bs"
proof -
  have r: "l div 4 < rows" "l div 2 < rows" "l div 3 < rows" using assms(2,3) by linarith+
  obtain dd pd row where m: "raid5_map l = (dd, pd, row)" by (metis prod_cases3)
  note rr = raid5_rows [OF m assms(2,3)]
  have "length (stripe_xor bs (blk s) (survivors f) row) = bs" for f
    using survivors_range assms(1) rr(1,2) by (intro stripe_xor_nth) (simp add: blk_length region_rows)
  moreover have "region (swap_phys_block (l mod 4) (l div 4))" "region (swap_phys_block (l mod 2 * 2) (l div 2))"
    using assms(2) r pair_mod [of l] by (auto intro!: region_rows)
  ultimately show ?thesis
    using assms(1,2) rr(3)
    by (simp add: raid_view_def raid5_view_def m raid0_map_eq raid1_map_eq blk_length)
qed

lemma slot_page_length:
  assumes "sinv s" "n < MAX_SWAP_PAGES"
  shows "length (slot_page bs mode (blk s) (int n)) = PGSIZE"
proof -
  have "length (raid_view bs mode (blk s) (int n * int (BLOCKS_PER_PAGE bs) + int i)) = bs"
    if "i < BLOCKS_PER_PAGE bs" for i
    using raid_view_length [OF assms(1)] logical_range [OF assms(2) that] by blast
  then have "map length (map (\<lambda>i. raid_view bs mode (blk s) (int n * int (BLOCKS_PER_PAGE bs) + int i))
      [0..<BLOCKS_PER_PAGE bs]) = map (\<lambda>i. bs) [0..<BLOCKS_PER_PAGE bs]" by auto
  then show ?thesis
    unfolding slot_page_def length_concat by (simp add: map_replicate_const sum_list_replicate page_blocks)
qed

lemma swap_disk_read_spec:
  assumes "sinv (rstore r)" "n < MAX_SWAP_PAGES"
  shows "\<exists>r'. swap_disk_read bs get (int n) r = Inr (0, slot_page bs (raid_mode r) (blk (rstore r)) (int n), r')
    \<and> sinv (rstore r') \<and> raid_mode r' = raid_mode r \<and> blk (rstore r') = blk (rstore r)"
  using read_blocks_spec [OF assms, of "[0..<BLOCKS_PER_PAGE bs]" "raid_mode r"]
  by (auto simp: swap_disk_read_def slot_page_def)

lemma swap_disk_write_spec:
  assumes "sinv (rstore r)" "n < MAX_SWAP_PAGES" "length page = PGSIZE"
  shows "\<exists>r'. swap_disk_write bs get put (int n) page r = Inr (0, r')
    \<and> sinv (rstore r') \<and> raid_mode r' = raid_mode r
    \<and> (\<forall>m < MAX_SWAP_PAGES. slot_page bs (raid_mode r) (blk (rstore r')) (int m)
         = (if m = n then page else slot_page bs (raid_mode r) (blk (rstore r)) (int m)))"
proof -
  obtain s' where s': "write_blocks bs get put (raid_mode r) (int n) [0..<BLOCKS_PER_PAGE bs] page (rstore r) = Inr s'"
    "sinv s'" "\<forall>m < MAX_SWAP_PAGES. \<forall>j < BLOCKS_PER_PAGE bs.
         raid_view bs (raid_mode r) (blk s') (int m * int (BLOCKS_PER_PAGE bs) + int j)
           = (if m = n \<and> j \<in> set [0..<BLOCKS_PER_PAGE bs] then take bs (drop (j * bs) page)
              else raid_view bs (raid_mode r) (blk (rstore r)) (int m * int (BLOCKS_PER_PAGE bs) + int j))"
    using write_blocks_spec [OF assms(1,2) _ _ assms(3), of "[0..<BLOCKS_PER_PAGE bs]" "raid_mode r"] by auto
  have "slot_page bs (raid_mode r) (blk s') (int n) = concat (map (\<lambda>i. take bs (drop (i * bs) page)) [0..<BLOCKS_PER_PAGE bs])"
    unfolding slot_page_def using s'(3) assms(2) by (intro arg_cong [of _ _ concat] map_cong) auto
  then have same: "slot_page bs (raid_mode r) (blk s') (int n) = page"
    using assms(3) by (simp add: concat_chunks page_blocks)
  have "slot_page bs (raid_mode r) (blk s') (int m) = slot_page bs (raid_mode r) (blk (rstore r)) (int m)"
    if "m < MAX_SWAP_PAGES" "m \<noteq> n" for m
    using s'(3) that by (intro slot_page_cong) auto
  with same s'(1,2) show ?thesis by (auto simp: swap_disk_write_def)
qed

end

sublocale raid_swap \<subseteq> dev: swap_device "swap_disk_read bs get" "swap_disk_write bs get put"
  "\<lambda>r n. slot_page bs (raid_mode r) (blk (rstore r)) (int n)" "\<lambda>r. sinv (rstore r)"
proof unfold_locales
  fix r :: "'a raid" and n
  assume r: "sinv (rstore r)" "n < MAX_SWAP_PAGES"
  then show "length (slot_page bs (raid_mode r) (blk (rstore r)) (int n)) = PGSIZE"
    by (rule slot_page_length)
  show "\<exists>r'. swap_disk_read bs get (int n) r = Inr (0, slot_page bs (raid_mode r) (blk (rstore r)) (int n), r') \<and> sinv (rstore r')
    \<and> (\<forall>m < MAX_SWAP_PAGES. slot_page bs (raid_mode r') (blk (rstore r')) (int m) = slot_page bs (raid_mode r) (blk (rstore r)) (int m))"
    using swap_disk_read_spec [OF r] by auto
  fix page :: "u8 list"
  assume "length page = PGSIZE"
  then show "\<exists>r'. swap_disk_write bs get put (int n) page r = Inr (0, r') \<and> sinv (rstore r')
    \<and> (\<forall>m < MAX_SWAP_PAGES. slot_page bs (raid_mode r') (blk (rstore r')) (int m)
         = (if m = n then page else slot_page bs (raid_mode r) (blk (rstore r)) (int m)))"
    using swap_disk_write_spec [OF r] by force
qed

end
