(* ===== verification/Frame_Table.thy ===== *)
theory Frame_Table
  imports Kalloc Swap_Area
begin

text \<open>
  The frame table and the swap tables of \<open>kernel/kalloc.c\<close> and the choice of the victim: \<open>register_user_frame\<close>,
  \<open>has_free_frame_slot\<close>, \<open>restore_victim_frame\<close>, \<open>select_victim_frame\<close>, \<open>free_user_frame\<close>, the rest of \<open>kinit\<close>,
  \<open>free_proc_swap_slots\<close> of \<open>kernel/proc.c\<close>, and the scans of the tables that \<open>kernel/vm.c\<close> repeats inline. The 0/1 fields of
  the tables are booleans, a process is its index in \<open>proc[]\<close>. All of it runs under \<open>frame_lock\<close>.
\<close>

section \<open>Tables\<close>

definition MAX_FRAMES :: nat where
  "MAX_FRAMES = 20"

record frame =
  fused :: bool
  user_frame :: bool
  fproc :: "nat option"
  fva :: u64
  ref_bit :: bool

record swap_entry =
  sused :: bool
  sproc :: "nat option"
  sva :: u64
  sslot :: int

record frames =
  frame_table :: "frame list"
  clock_hand :: nat
  swap_used :: "bool list"
  swap_map :: "swap_entry list"
  user_frame_count :: int

definition no_frame :: frame where
  "no_frame = \<lparr>fused = False, user_frame = False, fproc = None, fva = 0, ref_bit = False\<rparr>"

definition no_swap :: swap_entry where
  "no_swap = \<lparr>sused = False, sproc = None, sva = 0, sslot = -1\<rparr>"

definition upd_frame :: "nat \<Rightarrow> (frame \<Rightarrow> frame) \<Rightarrow> frames \<Rightarrow> frames" where
  "upd_frame i g f = f\<lparr>frame_table := (frame_table f)[i := g (frame_table f ! i)]\<rparr>"

definition dec_frame_count :: "frames \<Rightarrow> frames" where
  "dec_frame_count f = (if user_frame_count f > 0 then f\<lparr>user_frame_count := user_frame_count f - 1\<rparr> else f)"

text \<open>The tables after \<open>kinit\<close>.\<close>

definition kinit_frames :: frames where
  "kinit_frames = \<lparr>frame_table = replicate MAX_FRAMES no_frame, clock_hand = 0,
     swap_used = replicate MAX_SWAP_PAGES False, swap_map = replicate MAX_SWAP_PAGES no_swap, user_frame_count = 0\<rparr>"

definition register_user_frame :: "nat \<Rightarrow> u64 \<Rightarrow> frames \<Rightarrow> int \<times> frames" where
  "register_user_frame p va f =
     (case find_idx (\<lambda>x. \<not> fused x) (frame_table f) of
        Some i \<Rightarrow> (0, (upd_frame i (\<lambda>_. \<lparr>fused = True, user_frame = True, fproc = Some p, fva = va, ref_bit = True\<rparr>) f)
                        \<lparr>user_frame_count := c_int (user_frame_count f + 1)\<rparr>)
      | None \<Rightarrow> (-1, f))"

definition has_free_frame_slot :: "frames \<Rightarrow> bool" where
  "has_free_frame_slot f = (find_idx (\<lambda>x. \<not> fused x) (frame_table f) \<noteq> None)"

definition restore_victim_frame :: "nat \<Rightarrow> nat option \<Rightarrow> u64 \<Rightarrow> frames \<Rightarrow> frames" where
  "restore_victim_frame victim p va f =
     upd_frame victim (\<lambda>_. \<lparr>fused = True, user_frame = True, fproc = p, fva = va, ref_bit = True\<rparr>) f"

text \<open>
  The clock scan: \<open>n\<close> rounds are left; \<open>best\<close> is the candidate (\<open>None\<close> for -1) and \<open>best_level\<close> its level.
  \<open>level p\<close> is \<open>p->level\<close>.
\<close>

fun victim_scan :: "(nat \<Rightarrow> int) \<Rightarrow> nat \<Rightarrow> nat option \<Rightarrow> int \<Rightarrow> frames \<Rightarrow> nat option \<times> frames" where
  "victim_scan level 0 best best_level f = (best, f)"
| "victim_scan level (Suc n) best best_level f =
     (let idx = clock_hand f;
          x = frame_table f ! idx;
          f1 = f\<lparr>clock_hand := (clock_hand f + 1) mod MAX_FRAMES\<rparr>
      in if \<not> fused x \<or> \<not> user_frame x then victim_scan level n best best_level f1
         else if ref_bit x then victim_scan level n best best_level (upd_frame idx (\<lambda>x. x\<lparr>ref_bit := False\<rparr>) f1)
         else let pl = (case fproc x of Some p \<Rightarrow> level p | None \<Rightarrow> 0);
                  (best', best_level') = (if pl > best_level then (Some idx, pl) else (best, best_level))
              in if best_level' = 3 then (best', f1) else victim_scan level n best' best_level' f1)"

definition select_victim_frame :: "(nat \<Rightarrow> int) \<Rightarrow> frames \<Rightarrow> nat option \<times> frames" where
  "select_victim_frame level f =
     (case victim_scan level (MAX_FRAMES * 2) None (-1) f of
        (Some best, f1) \<Rightarrow> (Some best, f1)
      | (None, f1) \<Rightarrow> (find_idx (\<lambda>x. fused x \<and> user_frame x) (frame_table f1), f1))"

text \<open>The scan for the frame of \<open>(p, va)\<close> that frees it (\<open>free_user_frame\<close>, \<open>uvmunmap\<close>).\<close>

definition drop_frame :: "nat option \<Rightarrow> u64 \<Rightarrow> frames \<Rightarrow> frames" where
  "drop_frame p va f =
     (case find_idx (\<lambda>x. fused x \<and> user_frame x \<and> fproc x = p \<and> fva x = va) (frame_table f) of
        Some i \<Rightarrow> dec_frame_count (upd_frame i (\<lambda>_. no_frame) f)
      | None \<Rightarrow> f)"

text \<open>The scan of \<open>vmfault\<close> that marks the frame of \<open>(p, va)\<close> as referenced.\<close>

definition touch_frame :: "nat \<Rightarrow> u64 \<Rightarrow> frames \<Rightarrow> frames" where
  "touch_frame p va f =
     (case find_idx (\<lambda>x. fused x \<and> fproc x = Some p \<and> fva x = va) (frame_table f) of
        Some i \<Rightarrow> upd_frame i (\<lambda>x. x\<lparr>ref_bit := True\<rparr>) f
      | None \<Rightarrow> f)"

text \<open>The scan for the swap entry of \<open>(p, va)\<close>, and what releases an entry.\<close>

definition find_swap :: "nat \<Rightarrow> u64 \<Rightarrow> frames \<Rightarrow> nat option" where
  "find_swap p va f = find_idx (\<lambda>e. sused e \<and> sproc e = Some p \<and> sva e = va) (swap_map f)"

definition release_swap :: "nat \<Rightarrow> frames \<Rightarrow> frames" where
  "release_swap i f = f\<lparr>swap_used := (swap_used f)[nat (sslot (swap_map f ! i)) := False], swap_map := (swap_map f)[i := no_swap]\<rparr>"

text \<open>
  The reservation of a free swap slot (\<open>evict_one_user_frame\<close>, \<open>uvmcopy\<close>), the end of an eviction, and the insertion
  of an entry by \<open>uvmcopy\<close>.
\<close>

definition reserve_slot :: "frames \<Rightarrow> (nat \<times> frames) option" where
  "reserve_slot f =
     (case find_idx Not (swap_used f) of
        Some i \<Rightarrow> Some (i, f\<lparr>swap_used := (swap_used f)[i := True]\<rparr>)
      | None \<Rightarrow> None)"

definition evict_commit :: "nat \<Rightarrow> nat \<Rightarrow> nat \<Rightarrow> u64 \<Rightarrow> frames \<Rightarrow> frames" where
  "evict_commit victim slot p va f =
     dec_frame_count (upd_frame victim (\<lambda>x. x\<lparr>fused := False\<rparr>)
       (f\<lparr>swap_map := (swap_map f)[slot := \<lparr>sused = True, sproc = Some p, sva = va, sslot = int slot\<rparr>]\<rparr>))"

definition insert_swap :: "nat \<Rightarrow> u64 \<Rightarrow> nat \<Rightarrow> frames \<Rightarrow> bool \<times> frames" where
  "insert_swap child va slot f =
     (case find_idx (\<lambda>e. \<not> sused e) (swap_map f) of
        Some i \<Rightarrow> (True, f\<lparr>swap_map := (swap_map f)[i := \<lparr>sused = True, sproc = Some child, sva = va, sslot = int slot\<rparr>]\<rparr>)
      | None \<Rightarrow> (False, f\<lparr>swap_used := (swap_used f)[slot := False]\<rparr>))"

text \<open>\<open>free_proc_swap_slots\<close>: one loop over the swap map, one over the frame table.\<close>

fun free_swap_loop :: "nat \<Rightarrow> nat list \<Rightarrow> frames \<Rightarrow> frames" where
  "free_swap_loop p [] f = f"
| "free_swap_loop p (i # is) f =
     free_swap_loop p is (if sused (swap_map f ! i) \<and> sproc (swap_map f ! i) = Some p then release_swap i f else f)"

fun free_frame_loop :: "nat \<Rightarrow> nat list \<Rightarrow> frames \<Rightarrow> frames" where
  "free_frame_loop p [] f = f"
| "free_frame_loop p (i # is) f =
     free_frame_loop p is
       (if fused (frame_table f ! i) \<and> user_frame (frame_table f ! i) \<and> fproc (frame_table f ! i) = Some p
        then dec_frame_count (upd_frame i (\<lambda>_. no_frame) f) else f)"

definition free_proc_swap_slots :: "nat \<Rightarrow> frames \<Rightarrow> frames" where
  "free_proc_swap_slots p f = free_frame_loop p [0..<MAX_FRAMES] (free_swap_loop p [0..<MAX_SWAP_PAGES] f)"


section \<open>The victim\<close>

definition tracked :: "frames \<Rightarrow> nat \<Rightarrow> bool" where
  "tracked f i \<longleftrightarrow> i < length (frame_table f) \<and> fused (frame_table f ! i) \<and> user_frame (frame_table f ! i)"

definition owner_level :: "(nat \<Rightarrow> int) \<Rightarrow> frames \<Rightarrow> nat \<Rightarrow> int" where
  "owner_level level f i = (case fproc (frame_table f ! i) of Some p \<Rightarrow> level p | None \<Rightarrow> 0)"

text \<open>Two states that differ in reference bits and the clock hand only.\<close>

abbreviation unref :: "frame \<Rightarrow> frame" where
  "unref x \<equiv> x\<lparr>ref_bit := False\<rparr>"

definition same_frames :: "frames \<Rightarrow> frames \<Rightarrow> bool" where
  "same_frames f g \<longleftrightarrow>
     swap_used g = swap_used f \<and> swap_map g = swap_map f \<and> user_frame_count g = user_frame_count f
   \<and> map unref (frame_table g) = map unref (frame_table f)"

lemma same_frames_refl [simp]: "same_frames f f"
  by (simp add: same_frames_def)

lemma same_frames_trans: "same_frames f g \<Longrightarrow> same_frames g k \<Longrightarrow> same_frames f k"
  by (simp add: same_frames_def)

lemma same_frames_hand [simp]: "same_frames f (f\<lparr>clock_hand := c\<rparr>)"
  by (simp add: same_frames_def)

lemma same_frames_ref [simp]: "same_frames f (upd_frame i (\<lambda>x. x\<lparr>ref_bit := b\<rparr>) f)"
proof -
  have "map unref ((frame_table f)[i := (frame_table f ! i)\<lparr>ref_bit := b\<rparr>]) = map unref (frame_table f)"
    by (cases "i < length (frame_table f)") (auto simp: nth_list_update intro!: nth_equalityI)
  then show ?thesis by (simp add: same_frames_def upd_frame_def)
qed

lemma same_frames_nth:
  assumes "same_frames f g"
  shows "length (frame_table g) = length (frame_table f)"
    and "i < length (frame_table f) \<Longrightarrow> fused (frame_table g ! i) = fused (frame_table f ! i)
       \<and> user_frame (frame_table g ! i) = user_frame (frame_table f ! i)
       \<and> fproc (frame_table g ! i) = fproc (frame_table f ! i) \<and> fva (frame_table g ! i) = fva (frame_table f ! i)"
proof -
  show l: "length (frame_table g) = length (frame_table f)"
    using assms map_eq_imp_length_eq by (auto simp: same_frames_def)
  assume i: "i < length (frame_table f)"
  have "map unref (frame_table g) ! i = map unref (frame_table f) ! i" using assms by (simp only: same_frames_def)
  then have eq: "unref (frame_table g ! i) = unref (frame_table f ! i)" using i l by (simp only: nth_map)
  show "fused (frame_table g ! i) = fused (frame_table f ! i)
       \<and> user_frame (frame_table g ! i) = user_frame (frame_table f ! i)
       \<and> fproc (frame_table g ! i) = fproc (frame_table f ! i) \<and> fva (frame_table g ! i) = fva (frame_table f ! i)"
    using arg_cong [OF eq, of fused] arg_cong [OF eq, of user_frame] arg_cong [OF eq, of fproc] arg_cong [OF eq, of fva] by simp
qed

lemma same_frames_facts:
  assumes "same_frames f g"
  shows "tracked g i = tracked f i" "tracked f i \<Longrightarrow> owner_level level g i = owner_level level f i"
  using same_frames_nth [OF assms] by (auto simp: tracked_def owner_level_def)

text \<open>
  What \<open>n\<close> rounds of the scan do. A frame that the hand passes without a reference bit, or passes twice, is
  a candidate.
\<close>

definition passed :: "nat \<Rightarrow> frames \<Rightarrow> nat \<Rightarrow> bool" where
  "passed n f i \<longleftrightarrow> (\<exists>j < n. (clock_hand f + j) mod MAX_FRAMES = i \<and>
     (\<not> ref_bit (frame_table f ! i) \<or> (\<exists>j' < j. (clock_hand f + j') mod MAX_FRAMES = i)))"

lemma passed_next:
  assumes "passed (Suc n) f i" "clock_hand f < MAX_FRAMES"
    and "clock_hand g = (clock_hand f + 1) mod MAX_FRAMES"
    and "i = clock_hand f \<Longrightarrow> \<not> ref_bit (frame_table g ! i) \<and> ref_bit (frame_table f ! i)"
    and "i \<noteq> clock_hand f \<Longrightarrow> ref_bit (frame_table g ! i) = ref_bit (frame_table f ! i)"
  shows "passed n g i"
proof -
  obtain j where j: "j < Suc n" "(clock_hand f + j) mod MAX_FRAMES = i"
    "\<not> ref_bit (frame_table f ! i) \<or> (\<exists>j' < j. (clock_hand f + j') mod MAX_FRAMES = i)"
    using assms(1) unfolding passed_def by blast
  have shift: "(clock_hand g + k) mod MAX_FRAMES = (clock_hand f + Suc k) mod MAX_FRAMES" for k
    using assms(3) by (simp add: mod_add_left_eq)
  have zero: "(clock_hand f + 0) mod MAX_FRAMES = clock_hand f" using assms(2) by simp
  show ?thesis
  proof (cases "i = clock_hand f")
    case True
    with assms(4) have "ref_bit (frame_table f ! i)" "\<not> ref_bit (frame_table g ! i)" by simp_all
    with j obtain k where "j = Suc k" by (cases j) auto
    with j shift [of k] \<open>\<not> ref_bit (frame_table g ! i)\<close> show ?thesis unfolding passed_def by (intro exI [of _ k]) simp
  next
    case False
    then obtain k where k: "j = Suc k" using j(2) zero by (cases j) auto
    have "\<exists>k' < k. (clock_hand g + k') mod MAX_FRAMES = i" if r: "ref_bit (frame_table f ! i)"
    proof -
      obtain j' where j': "j' < j" "(clock_hand f + j') mod MAX_FRAMES = i" using j(3) r by blast
      then obtain k' where "j' = Suc k'" using zero False by (cases j') auto
      with j' k shift [of k'] show ?thesis by (intro exI [of _ k']) simp
    qed
    then show ?thesis using j k shift [of k] assms(5) False unfolding passed_def by (intro exI [of _ k]) auto
  qed
qed

text \<open>What the scan leaves, from a candidate \<open>best\<close> of level \<open>bl\<close>.\<close>

definition scan_result :: "(nat \<Rightarrow> int) \<Rightarrow> nat \<Rightarrow> nat option \<Rightarrow> int \<Rightarrow> frames \<Rightarrow> nat option \<Rightarrow> frames \<Rightarrow> bool" where
  "scan_result level n best bl f best' f' \<longleftrightarrow> same_frames f f' \<and> clock_hand f' < MAX_FRAMES
     \<and> (case best' of None \<Rightarrow> best = None \<and> (\<forall>i. tracked f i \<longrightarrow> \<not> passed n f i)
        | Some v \<Rightarrow> tracked f v \<and> bl \<le> owner_level level f v
            \<and> (\<forall>i. tracked f i \<and> passed n f i \<longrightarrow> owner_level level f i \<le> owner_level level f v))"

lemma scan_result_step:
  assumes "scan_result level n best1 bl1 g best' f'" "same_frames f g" "bl \<le> bl1" "best1 = None \<Longrightarrow> best = None"
    and "\<And>i. tracked f i \<Longrightarrow> passed (Suc n) f i \<Longrightarrow> passed n g i \<or> (best1 \<noteq> None \<and> owner_level level f i \<le> bl1)"
  shows "scan_result level (Suc n) best bl f best' f'"
proof -
  note s = same_frames_facts [OF assms(2)]
  show ?thesis
  proof (cases best')
    case None
    with assms s show ?thesis unfolding scan_result_def by (auto intro: same_frames_trans)
  next
    case (Some v)
    with assms(1) have tv: "tracked f v" unfolding scan_result_def by (simp add: s)
    with Some assms(1) have v: "bl1 \<le> owner_level level f v"
      "\<And>i. tracked f i \<Longrightarrow> passed n g i \<Longrightarrow> owner_level level f i \<le> owner_level level f v"
      unfolding scan_result_def by (simp_all add: s)
    have "owner_level level f i \<le> owner_level level f v" if "tracked f i" "passed (Suc n) f i" for i
      using assms(5) [OF that] that v by fastforce
    with tv v assms Some show ?thesis unfolding scan_result_def by (auto intro: same_frames_trans)
  qed
qed

lemma victim_scan_spec:
  assumes "length (frame_table f) = MAX_FRAMES" "clock_hand f < MAX_FRAMES"
    and "\<forall>i. tracked f i \<longrightarrow> 0 \<le> owner_level level f i \<and> owner_level level f i \<le> 3"
    and "case best of None \<Rightarrow> bl = -1 | Some v \<Rightarrow> tracked f v \<and> owner_level level f v = bl"
    and "victim_scan level n best bl f = (best', f')"
  shows "scan_result level n best bl f best' f'"
  using assms
proof (induction n arbitrary: best bl f)
  case 0
  then show ?case by (auto simp: scan_result_def passed_def split: option.splits)
next
  case (Suc n)
  define idx where "idx = clock_hand f"
  define x where "x = frame_table f ! idx"
  define f1 where "f1 = f\<lparr>clock_hand := (idx + 1) mod MAX_FRAMES\<rparr>"
  define f2 where "f2 = upd_frame idx (\<lambda>x. x\<lparr>ref_bit := False\<rparr>) f1"
  have idx: "idx < length (frame_table f)" using Suc.prems by (simp add: idx_def)
  have f1: "same_frames f f1" "length (frame_table f1) = MAX_FRAMES" "clock_hand f1 < MAX_FRAMES" "frame_table f1 = frame_table f"
    using Suc.prems by (simp_all add: f1_def MAX_FRAMES_def)
  have f2: "same_frames f f2" "length (frame_table f2) = MAX_FRAMES" "clock_hand f2 < MAX_FRAMES"
    using same_frames_trans [OF f1(1) same_frames_ref] f1 by (simp_all add: f2_def upd_frame_def)
  note step = Suc.prems(5) [unfolded victim_scan.simps Let_def, folded idx_def, folded x_def f1_def, folded f2_def]
  have ol: "0 \<le> owner_level level f i \<and> owner_level level f i \<le> 3" if "tracked f i" for i using Suc.prems(3) that by blast
  have lev: "\<forall>i. tracked g i \<longrightarrow> 0 \<le> owner_level level g i \<and> owner_level level g i \<le> 3" if "same_frames f g" for g
    using ol same_frames_facts [OF that] by simp
  have other: "passed n f1 i" if "passed (Suc n) f i" "i \<noteq> idx" for i
    using passed_next [OF that(1) Suc.prems(2), of f1] that(2) f1(4) by (simp add: idx_def f1_def)
  consider "\<not> tracked f idx" | "tracked f idx" "ref_bit x" | "tracked f idx" "\<not> ref_bit x" by blast
  then show ?case
  proof cases
    case 1
    then have "victim_scan level n best bl f1 = (best', f')" using step idx by (auto simp: tracked_def x_def)
    from Suc.IH [OF f1(2,3) lev [OF f1(1)] _ this] have "scan_result level n best bl f1 best' f'"
      using Suc.prems(4) same_frames_facts [OF f1(1)] by (auto split: option.splits)
    then show ?thesis using 1 other by (intro scan_result_step [OF _ f1(1)]) auto
  next
    case 2
    then have "victim_scan level n best bl f2 = (best', f')" using step by (simp add: tracked_def x_def)
    from Suc.IH [OF f2(2,3) lev [OF f2(1)] _ this] have r: "scan_result level n best bl f2 best' f'"
      using Suc.prems(4) same_frames_facts [OF f2(1)] by (auto split: option.splits)
    have "passed n f2 i" if "passed (Suc n) f i" for i
      by (rule passed_next [OF that Suc.prems(2)])
        (use 2 idx f1(4) in \<open>auto simp: f2_def f1_def upd_frame_def idx_def x_def\<close>)
    then show ?thesis by (intro scan_result_step [OF r f2(1)]) auto
  next
    case 3
    define best1 where "best1 = (if bl < owner_level level f idx then Some idx else best)"
    define bl1 where "bl1 = (if bl < owner_level level f idx then owner_level level f idx else bl)"
    have run: "(if bl1 = 3 then (best1, f1) else victim_scan level n best1 bl1 f1) = (best', f')"
      using step 3 by (auto simp: tracked_def x_def best1_def bl1_def owner_level_def split: if_splits)
    have b1: "\<exists>v. best1 = Some v \<and> tracked f v \<and> owner_level level f v = bl1"
      using Suc.prems(4) 3(1) ol [OF 3(1)] by (cases best) (auto simp: best1_def bl1_def)
    have le: "bl \<le> bl1" "owner_level level f idx \<le> bl1" by (auto simp: bl1_def)
    show ?thesis
    proof (cases "bl1 = 3")
      case True
      then have "best' = best1" "f' = f1" using run by simp_all
      then show ?thesis using b1 True f1 le ol by (auto simp: scan_result_def)
    next
      case False
      with run have "victim_scan level n best1 bl1 f1 = (best', f')" by simp
      from Suc.IH [OF f1(2,3) lev [OF f1(1)] _ this] have r: "scan_result level n best1 bl1 f1 best' f'"
        using b1 same_frames_facts [OF f1(1)] by auto
      show ?thesis
        by (rule scan_result_step [OF r f1(1) le(1)]) (use b1 le(2) other in auto)
    qed
  qed
qed

lemma passed_twice:
  assumes "clock_hand f < MAX_FRAMES" "i < MAX_FRAMES"
  shows "passed (MAX_FRAMES * 2) f i"
proof -
  define j where "j = (if clock_hand f \<le> i then i - clock_hand f else i + MAX_FRAMES - clock_hand f)"
  have j: "j < MAX_FRAMES" "(clock_hand f + j) mod MAX_FRAMES = i" using assms by (auto simp: j_def)
  then have "(clock_hand f + (j + MAX_FRAMES)) mod MAX_FRAMES = i" by (simp add: add.assoc [symmetric])
  moreover have "j < j + MAX_FRAMES" "j + MAX_FRAMES < MAX_FRAMES * 2" using j by simp_all
  ultimately show ?thesis using j(2) unfolding passed_def by blast
qed

lemma select_victim_spec:
  assumes "length (frame_table f) = MAX_FRAMES" "clock_hand f < MAX_FRAMES"
    and "\<forall>i. tracked f i \<longrightarrow> 0 \<le> owner_level level f i \<and> owner_level level f i \<le> 3"
    and "select_victim_frame level f = (v, f')"
  shows "same_frames f f' \<and> clock_hand f' < MAX_FRAMES
     \<and> (case v of None \<Rightarrow> \<forall>i. \<not> tracked f i
        | Some i \<Rightarrow> tracked f i \<and> (\<forall>j. tracked f j \<longrightarrow> owner_level level f j \<le> owner_level level f i))"
proof -
  obtain b f1 where r: "victim_scan level (MAX_FRAMES * 2) None (-1) f = (b, f1)" by (cases "victim_scan level (MAX_FRAMES * 2) None (-1) f")
  from victim_scan_spec [OF assms(1,2,3) _ r] have s: "scan_result level (MAX_FRAMES * 2) None (-1) f b f1" by simp
  have p: "passed (MAX_FRAMES * 2) f i" if "tracked f i" for i
    using passed_twice [OF assms(2)] that assms(1) by (simp add: tracked_def)
  show ?thesis
  proof (cases b)
    case None
    with s p have no: "\<not> tracked f i" for i by (auto simp: scan_result_def)
    have sf: "same_frames f f1" "clock_hand f1 < MAX_FRAMES" using s by (simp_all add: scan_result_def)
    have "\<not> tracked f1 i" for i using no same_frames_facts(1) [OF sf(1)] by simp
    then have "find_idx (\<lambda>x. fused x \<and> user_frame x) (frame_table f1) = None"
      unfolding find_idx_None_iff all_set_conv_all_nth tracked_def by blast
    with None r assms(4) sf no show ?thesis by (simp add: select_victim_frame_def)
  next
    case (Some i)
    with s p r assms(4) show ?thesis by (auto simp: select_victim_frame_def scan_result_def)
  qed
qed

section \<open>Invariant of the tables\<close>

text \<open>
  A used frame is a user frame of some process and is counted; a slot is in use exactly when the swap entry with the same
  index is, and this entry names the slot; a page of a process has at most one entry.
\<close>

definition frames_ok :: "frames \<Rightarrow> bool" where
  "frames_ok f \<longleftrightarrow>
     length (frame_table f) = MAX_FRAMES \<and> clock_hand f < MAX_FRAMES
   \<and> length (swap_used f) = MAX_SWAP_PAGES \<and> length (swap_map f) = MAX_SWAP_PAGES
   \<and> (\<forall>i < MAX_FRAMES. user_frame (frame_table f ! i) = fused (frame_table f ! i)
        \<and> (fused (frame_table f ! i) \<longrightarrow> fproc (frame_table f ! i) \<noteq> None))
   \<and> user_frame_count f = int (length (filter fused (frame_table f)))
   \<and> (\<forall>k < MAX_SWAP_PAGES. swap_used f ! k = sused (swap_map f ! k)
        \<and> (sused (swap_map f ! k) \<longrightarrow> sslot (swap_map f ! k) = int k \<and> sproc (swap_map f ! k) \<noteq> None))
   \<and> (\<forall>j k. j < MAX_SWAP_PAGES \<and> k < MAX_SWAP_PAGES \<and> sused (swap_map f ! j) \<and> sused (swap_map f ! k)
        \<and> sproc (swap_map f ! j) = sproc (swap_map f ! k) \<and> sva (swap_map f ! j) = sva (swap_map f ! k) \<longrightarrow> j = k)"

lemma kinit_frames_ok: "frames_ok kinit_frames"
  by (auto simp: frames_ok_def kinit_frames_def MAX_FRAMES_def no_frame_def no_swap_def)

lemma find_swap_Some:
  assumes "frames_ok f"
  shows "find_swap p va f = Some k \<longleftrightarrow>
     k < MAX_SWAP_PAGES \<and> sused (swap_map f ! k) \<and> sproc (swap_map f ! k) = Some p \<and> sva (swap_map f ! k) = va"
    (is "_ \<longleftrightarrow> ?R")
proof
  assume "find_swap p va f = Some k"
  then show ?R using assms by (auto simp: find_swap_def find_idx_Some_iff frames_ok_def)
next
  assume R: ?R
  have "j = k" if "j \<le> k" "sused (swap_map f ! j) \<and> sproc (swap_map f ! j) = Some p \<and> sva (swap_map f ! j) = va" for j
  proof -
    have "j < MAX_SWAP_PAGES" using that R by simp
    with assms that R show ?thesis unfolding frames_ok_def by metis
  qed
  then show "find_swap p va f = Some k"
    using R assms unfolding find_swap_def find_idx_Some_iff frames_ok_def by (metis less_imp_le less_irrefl)
qed

lemma tracked_used: "frames_ok f \<Longrightarrow> i < MAX_FRAMES \<Longrightarrow> tracked f i = fused (frame_table f ! i)"
  by (auto simp: frames_ok_def tracked_def)

lemma frames_ok_same:
  assumes "frames_ok f" "same_frames f g" "clock_hand g < MAX_FRAMES"
  shows "frames_ok g"
proof -
  note n = same_frames_nth [OF assms(2)]
  have "map fused (frame_table g) = map fused (frame_table f)"
    by (rule nth_equalityI) (use n in auto)
  moreover have "length (filter fused xs) = length (filter (\<lambda>b. b) (map fused xs))" for xs :: "frame list"
    by (induction xs) auto
  ultimately have "length (filter fused (frame_table g)) = length (filter fused (frame_table f))" by (simp only:)
  then show ?thesis using assms n by (auto simp: frames_ok_def same_frames_def)
qed

lemma find_swap_same: "swap_map g = swap_map f \<Longrightarrow> find_swap p va g = find_swap p va f"
  by (simp add: find_swap_def)

text \<open>A frame is released.\<close>

definition without_frame :: "nat \<Rightarrow> frames \<Rightarrow> frames" where
  "without_frame v f = f\<lparr>frame_table := (frame_table f)[v := no_frame], user_frame_count := user_frame_count f - 1\<rparr>"

lemma without_frame_ok:
  assumes "frames_ok f" "tracked f v"
  shows "frames_ok (without_frame v f)" and "0 < user_frame_count f"
    and "tracked (without_frame v f) i \<longleftrightarrow> tracked f i \<and> i \<noteq> v"
proof -
  have v: "v < length (frame_table f)" "fused (frame_table f ! v)" using assms(2) by (simp_all add: tracked_def)
  note c = count_filter_update [OF v(1), of fused no_frame]
  show "0 < user_frame_count f" using filter_length_pos [of v "frame_table f" fused] v assms(1) by (simp add: frames_ok_def)
  have "user_frame_count f - 1 = int (length (filter fused ((frame_table f)[v := no_frame])))"
    using c v assms(1) by (simp add: frames_ok_def no_frame_def)
  then show "frames_ok (without_frame v f)"
    using assms(1) v(1) by (auto simp: frames_ok_def without_frame_def nth_list_update no_frame_def)
  show "tracked (without_frame v f) i \<longleftrightarrow> tracked f i \<and> i \<noteq> v"
    using v by (auto simp: tracked_def without_frame_def nth_list_update no_frame_def)
qed

text \<open>A swap entry is added in a free slot.\<close>

definition with_swap :: "nat \<Rightarrow> nat \<Rightarrow> u64 \<Rightarrow> frames \<Rightarrow> frames" where
  "with_swap k p va f = f\<lparr>swap_used := (swap_used f)[k := True],
     swap_map := (swap_map f)[k := \<lparr>sused = True, sproc = Some p, sva = va, sslot = int k\<rparr>]\<rparr>"

lemma with_swap_ok:
  assumes "frames_ok f" "k < MAX_SWAP_PAGES" "\<not> swap_used f ! k" "find_swap p va f = None"
  shows "frames_ok (with_swap k p va f)"
    and "find_swap p' va' (with_swap k p va f) = (if p' = p \<and> va' = va then Some k else find_swap p' va' f)"
proof -
  have fresh: "\<not> (sused (swap_map f ! j) \<and> sproc (swap_map f ! j) = Some p \<and> sva (swap_map f ! j) = va)" if "j < MAX_SWAP_PAGES" for j
    using assms(4) find_swap_Some [OF assms(1), of p va j] that by auto
  have unused: "\<not> sused (swap_map f ! k)" using assms(1-3) by (simp add: frames_ok_def)
  show ok: "frames_ok (with_swap k p va f)"
    using assms(1,2) unfolding frames_ok_def by (auto simp: with_swap_def nth_list_update) (metis fresh)+
  show "find_swap p' va' (with_swap k p va f) = (if p' = p \<and> va' = va then Some k else find_swap p' va' f)"
  proof (cases "p' = p \<and> va' = va")
    case True
    then show ?thesis using find_swap_Some [OF ok, of p va k] assms(1,2) by (simp add: with_swap_def frames_ok_def)
  next
    case False
    have "find_swap p' va' (with_swap k p va f) = Some j \<longleftrightarrow> find_swap p' va' f = Some j" for j
      unfolding find_swap_Some [OF ok] find_swap_Some [OF assms(1)]
      using False unused assms(1,2) by (auto simp: with_swap_def nth_list_update frames_ok_def)
    then show ?thesis using False by (metis option.exhaust)
  qed
qed

lemma release_swap_ok:
  assumes "frames_ok f" "k < MAX_SWAP_PAGES" "sused (swap_map f ! k)"
  shows "frames_ok (release_swap k f)" "\<not> swap_used (release_swap k f) ! k"
    and "find_swap p va (release_swap k f) = (if find_swap p va f = Some k then None else find_swap p va f)"
proof -
  have k: "sslot (swap_map f ! k) = int k" "length (swap_map f) = MAX_SWAP_PAGES" "length (swap_used f) = MAX_SWAP_PAGES"
    using assms by (simp_all add: frames_ok_def)
  show ok: "frames_ok (release_swap k f)"
    using assms(1,2) k unfolding frames_ok_def by (auto simp: release_swap_def nth_list_update no_swap_def)
  show "\<not> swap_used (release_swap k f) ! k" using k assms(2) by (simp add: release_swap_def)
  have "find_swap p va (release_swap k f) = Some j \<longleftrightarrow> find_swap p va f = Some j \<and> j \<noteq> k" for j
    unfolding find_swap_Some [OF ok] find_swap_Some [OF assms(1)]
    using k assms(2) by (auto simp: release_swap_def nth_list_update no_swap_def)
  then show "find_swap p va (release_swap k f) = (if find_swap p va f = Some k then None else find_swap p va f)"
    by (metis option.exhaust)
qed

lemma reserve_slot_None:
  "frames_ok f \<Longrightarrow> reserve_slot f = None \<longleftrightarrow> (\<forall>k < MAX_SWAP_PAGES. swap_used f ! k)"
proof -
  assume "frames_ok f"
  then have "length (swap_used f) = MAX_SWAP_PAGES" by (simp add: frames_ok_def)
  moreover have "reserve_slot f = None \<longleftrightarrow> find_idx Not (swap_used f) = None"
    by (simp add: reserve_slot_def split: option.split)
  ultimately show ?thesis by (simp add: find_idx_None_iff all_set_conv_all_nth)
qed

lemma reserve_slot_Some:
  "reserve_slot f = Some (k, g) \<Longrightarrow>
     k < length (swap_used f) \<and> \<not> swap_used f ! k \<and> g = f\<lparr>swap_used := (swap_used f)[k := True]\<rparr>"
  by (auto simp: reserve_slot_def find_idx_Some_iff split: option.splits)


text \<open>The loops of \<open>free_proc_swap_slots\<close>.\<close>

lemma free_swap_loop_spec:
  assumes "frames_ok f" "\<forall>i \<in> set is. i < MAX_SWAP_PAGES" "distinct is" "f' = free_swap_loop p is f"
  shows "frames_ok f' \<and> frame_table f' = frame_table f
     \<and> (\<forall>q va. find_swap q va f' = (case find_swap q va f of Some k \<Rightarrow> if q = p \<and> k \<in> set is then None else Some k | None \<Rightarrow> None))"
  using assms
proof (induction "is" arbitrary: f)
  case Nil
  then show ?case by (auto split: option.split)
next
  case (Cons i "is")
  let ?c = "sused (swap_map f ! i) \<and> sproc (swap_map f ! i) = Some p"
  define g where "g = (if ?c then release_swap i f else f)"
  have i: "i < MAX_SWAP_PAGES" using Cons.prems by simp
  have g: "frames_ok g" "frame_table g = frame_table f"
    using Cons.prems release_swap_ok(1) [OF Cons.prems(1) i] by (simp_all add: g_def release_swap_def)
  have fs: "find_swap q va g = (if find_swap q va f = Some i \<and> q = p then None else find_swap q va f)" for q va
  proof (cases ?c)
    case True
    then have "find_swap q va f = Some i \<Longrightarrow> q = p" using find_swap_Some [OF Cons.prems(1), of q va i] by simp
    then show ?thesis using release_swap_ok(3) [OF Cons.prems(1) i, of q va] True by (auto simp: g_def)
  next
    case False
    then have "\<not> (find_swap q va f = Some i \<and> q = p)" using find_swap_Some [OF Cons.prems(1), of q va i] by blast
    then show ?thesis unfolding g_def if_not_P [OF False] by (simp only: if_False)
  qed
  have "f' = free_swap_loop p is g" using Cons.prems(4) by (simp add: g_def)
  from Cons.IH [OF g(1) _ _ this] Cons.prems(2,3) g(2) show ?case by (auto simp: fs split: option.splits)
qed

lemma free_frame_loop_spec:
  assumes "frames_ok f" "\<forall>i \<in> set is. i < MAX_FRAMES" "f' = free_frame_loop p is f"
  shows "frames_ok f' \<and> swap_map f' = swap_map f \<and> swap_used f' = swap_used f
     \<and> (\<forall>i. frame_table f' ! i = (if i \<in> set is \<and> tracked f i \<and> fproc (frame_table f ! i) = Some p then no_frame else frame_table f ! i))"
  using assms
proof (induction "is" arbitrary: f)
  case Nil
  then show ?case by simp
next
  case (Cons i "is")
  have len: "length (frame_table f) = MAX_FRAMES" "i < MAX_FRAMES" using Cons.prems by (simp_all add: frames_ok_def)
  define c where "c \<longleftrightarrow> tracked f i \<and> fproc (frame_table f ! i) = Some p"
  define g where "g = (if c then without_frame i f else f)"
  have "f' = free_frame_loop p is g"
    using Cons.prems(3) without_frame_ok(2) [OF Cons.prems(1), of i] len
    by (simp add: g_def c_def tracked_def dec_frame_count_def upd_frame_def without_frame_def)
  moreover have g: "frames_ok g" "swap_map g = swap_map f" "swap_used g = swap_used f"
    using Cons.prems(1) without_frame_ok(1) [OF Cons.prems(1), of i] by (simp_all add: g_def c_def without_frame_def)
  ultimately have IH: "frames_ok f' \<and> swap_map f' = swap_map g \<and> swap_used f' = swap_used g
     \<and> (\<forall>j. frame_table f' ! j = (if j \<in> set is \<and> tracked g j \<and> fproc (frame_table g ! j) = Some p then no_frame else frame_table g ! j))"
    using Cons.IH Cons.prems(2) by simp
  have gt: "frame_table g ! j = (if j = i \<and> c then no_frame else frame_table f ! j)" for j
    using len by (auto simp: g_def without_frame_def nth_list_update)
  have tr: "tracked g j \<longleftrightarrow> tracked f j \<and> \<not> (j = i \<and> c)" for j
    using without_frame_ok(3) [OF Cons.prems(1), of i j] by (auto simp: g_def c_def)
  have "frame_table f' ! j = (if j \<in> set (i # is) \<and> tracked f j \<and> fproc (frame_table f ! j) = Some p then no_frame else frame_table f ! j)" for j
    using IH by (auto simp: gt tr c_def)
  with IH g show ?case by simp
qed


section \<open>Properties\<close>

text \<open>
  C27: A dying process leaves nothing behind. \<open>free_proc_swap_slots\<close> keeps the invariant of the tables, after it no frame
  and no swap entry belongs to the process, and frames and swap entries of every other process are as they were.
\<close>

theorem free_proc_clears_tables:
  assumes "frames_ok f" "f' = free_proc_swap_slots p f"
  shows "frames_ok f' \<and> (\<forall>va. find_swap p va f' = None) \<and> (\<forall>i. tracked f' i \<longrightarrow> fproc (frame_table f' ! i) \<noteq> Some p)
     \<and> (\<forall>q va. q \<noteq> p \<longrightarrow> find_swap q va f' = find_swap q va f)
     \<and> (\<forall>i. tracked f i \<and> fproc (frame_table f ! i) \<noteq> Some p \<longrightarrow> frame_table f' ! i = frame_table f ! i)"
proof -
  define g where "g = free_swap_loop p [0..<MAX_SWAP_PAGES] f"
  have g: "frames_ok g" "frame_table g = frame_table f"
    and fs: "find_swap q va g = (case find_swap q va f of Some k \<Rightarrow> if q = p \<and> k < MAX_SWAP_PAGES then None else Some k | None \<Rightarrow> None)" for q va
    using free_swap_loop_spec [OF assms(1) _ _ g_def] by (simp_all split: option.split)
  have f': "f' = free_frame_loop p [0..<MAX_FRAMES] g" using assms(2) by (simp add: free_proc_swap_slots_def g_def)
  have r: "frames_ok f'" "swap_map f' = swap_map g"
    and ft: "frame_table f' ! i = (if i < MAX_FRAMES \<and> tracked g i \<and> fproc (frame_table g ! i) = Some p then no_frame else frame_table g ! i)" for i
    using free_frame_loop_spec [OF g(1) _ f'] by simp_all
  have tg: "tracked g i = tracked f i" for i by (simp add: tracked_def g(2))
  have "k < MAX_SWAP_PAGES" if "find_swap q va f = Some k" for q va k
    using that find_swap_Some [OF assms(1)] by blast
  then have "find_swap q va f' = (if q = p then None else find_swap q va f)" for q va
    unfolding find_swap_same [OF r(2)] fs by (auto split: option.split)
  moreover have "fproc (frame_table f' ! i) \<noteq> Some p" if t: "tracked f' i" for i
  proof
    assume p: "fproc (frame_table f' ! i) = Some p"
    have "i < MAX_FRAMES" using t r(1) by (simp add: tracked_def frames_ok_def)
    moreover have "frame_table f' ! i \<noteq> no_frame" using t by (auto simp: tracked_def no_frame_def)
    ultimately have "frame_table f' ! i = frame_table g ! i" "\<not> (tracked g i \<and> fproc (frame_table g ! i) = Some p)"
      using ft [of i] by (auto split: if_splits)
    with t p g(1) \<open>i < MAX_FRAMES\<close> show False by (simp add: tracked_def frames_ok_def)
  qed
  moreover have "frame_table f' ! i = frame_table f ! i" if "fproc (frame_table f ! i) \<noteq> Some p" for i
    using that ft [of i] g(2) by simp
  ultimately show ?thesis using r(1) by simp
qed

theorem free_proc_clears_tables_witness:
  "find_swap 3 4096 (with_swap 0 3 4096 kinit_frames) = Some 0
   \<and> find_swap 3 4096 (free_proc_swap_slots 3 (with_swap 0 3 4096 kinit_frames)) = None"
proof -
  have n: "find_swap 3 4096 kinit_frames = None"
    by (simp add: find_swap_def kinit_frames_def find_idx_None_iff no_swap_def)
  have w: "frames_ok (with_swap 0 3 4096 kinit_frames)" "find_swap 3 4096 (with_swap 0 3 4096 kinit_frames) = Some 0"
    using with_swap_ok [OF kinit_frames_ok _ _ n, of 0] by (simp_all add: kinit_frames_def MAX_SWAP_PAGES_def)
  with free_proc_clears_tables [OF w(1) refl, of 3] show ?thesis by blast
qed



text \<open>
  C26: The victim of the clock scan is a frame of a process of the lowest priority. From any position of the hand and any reference bits, the
  scan finds a victim exactly when a user frame is tracked; the MLFQ level of its owner is maximal among the tracked frames.
  Nothing but the hand and reference bits changes.
\<close>

theorem victim_has_lowest_priority:
  assumes "length (frame_table f) = MAX_FRAMES" "clock_hand f < MAX_FRAMES"
    and "\<forall>i. tracked f i \<longrightarrow> 0 \<le> owner_level level f i \<and> owner_level level f i \<le> 3"
  shows "case select_victim_frame level f of
      (None, f') \<Rightarrow> (\<forall>i. \<not> tracked f i) \<and> same_frames f f'
    | (Some v, f') \<Rightarrow> tracked f v \<and> (\<forall>i. tracked f i \<longrightarrow> owner_level level f i \<le> owner_level level f v) \<and> same_frames f f'"
proof -
  obtain v f' where r: "select_victim_frame level f = (v, f')" by (cases "select_victim_frame level f")
  from select_victim_spec [OF assms r] show ?thesis by (auto simp: r split: option.splits)
qed

theorem victim_has_lowest_priority_witness:
  "let f = kinit_frames\<lparr>frame_table := (replicate MAX_FRAMES no_frame)
       [3 := \<lparr>fused = True, user_frame = True, fproc = Some 1, fva = 0, ref_bit = True\<rparr>,
        7 := \<lparr>fused = True, user_frame = True, fproc = Some 2, fva = 0, ref_bit = True\<rparr>]\<rparr>
   in fst (select_victim_frame (\<lambda>p. if p = 2 then 3 else 0) f) = Some 7"
proof -
  define f where "f = kinit_frames\<lparr>frame_table := (replicate MAX_FRAMES no_frame)
       [3 := \<lparr>fused = True, user_frame = True, fproc = Some 1, fva = 0, ref_bit = True\<rparr>,
        7 := \<lparr>fused = True, user_frame = True, fproc = Some 2, fva = 0, ref_bit = True\<rparr>]\<rparr>"
  have len: "length (frame_table f) = MAX_FRAMES" "clock_hand f < MAX_FRAMES" by (simp_all add: f_def kinit_frames_def MAX_FRAMES_def)
  have t: "tracked f i \<longleftrightarrow> i = 3 \<or> i = 7" for i
    by (auto simp: tracked_def f_def kinit_frames_def MAX_FRAMES_def nth_list_update no_frame_def)
  have l: "owner_level (\<lambda>p. if p = 2 then 3 else 0) f 3 = 0" "owner_level (\<lambda>p. if p = 2 then 3 else 0) f 7 = 3"
    by (simp_all add: owner_level_def f_def kinit_frames_def MAX_FRAMES_def)
  obtain v f' where r: "select_victim_frame (\<lambda>p. if p = 2 then 3 else 0) f = (v, f')" by fastforce
  have "case (v, f') of
      (None, f') \<Rightarrow> (\<forall>i. \<not> tracked f i) \<and> same_frames f f'
    | (Some v, f') \<Rightarrow> tracked f v \<and> (\<forall>i. tracked f i \<longrightarrow>
        owner_level (\<lambda>p. if p = 2 then 3 else 0) f i \<le> owner_level (\<lambda>p. if p = 2 then 3 else 0) f v) \<and> same_frames f f'"
    unfolding r [symmetric] by (rule victim_has_lowest_priority [OF len]) (auto simp: t l)
  then have "v = Some 7" using l by (cases v) (auto simp: t)
  with r have "fst (select_victim_frame (\<lambda>p. if p = 2 then 3 else 0) f) = Some 7" by simp
  then show ?thesis by (simp only: f_def Let_def)
qed

end
