(* ===== verification/Page_Table.thy ===== *)
theory Page_Table
  imports Kalloc
begin

text \<open>
  The page tables of \<open>kernel/vm.c\<close>: \<open>walk\<close>, \<open>walkaddr\<close>, \<open>mappages\<close>, \<open>kvmmap\<close>, \<open>uvmcreate\<close>, \<open>uvmclear\<close>,
  \<open>ismapped\<close>, \<open>freewalk\<close>. Tables are pages of the physical memory, a pointer to an entry is the
  page and the index of the entry in it.

  The invariant gives each page a role (a free page, a table of an address space at a given place of its tree,
  a frame mapped at a given place); as a page has one role, two places of the trees never share a page. Under it,
  an address space is the function \<open>pte_at\<close> from page addresses to entries: \<open>walk\<close> with allocation does not
  change it, \<open>mappages\<close> changes it at one address.
\<close>

section \<open>Operations\<close>

type_synonym pte_ptr = "u64 \<times> nat"

definition pte_val :: "kmem \<Rightarrow> pte_ptr \<Rightarrow> u64" where
  "pte_val m q = get64 (pm m (fst q)) (snd q)"

definition set_pte :: "pte_ptr \<Rightarrow> u64 \<Rightarrow> kmem \<Rightarrow> kmem" where
  "set_pte q e m = set_page (fst q) (put64 (snd q) e (pm m (fst q))) m"

text \<open>One round of the loop of \<open>walk\<close>: the table one level down, allocated if need be.\<close>

definition walk_level :: "riscv_h \<Rightarrow> nat \<Rightarrow> u64 \<Rightarrow> bool \<Rightarrow> u64 \<Rightarrow> kmem \<Rightarrow> u64 option \<times> kmem" where
  "walk_level h level va alloc pt m =
     (let pte = (pt, PX h level va)
      in if pte_val m pte AND PTE_V h \<noteq> 0 then (Some (PTE2PA h (pte_val m pte)), m)
         else if \<not> alloc then (None, m)
         else let (p, m1) = kalloc m
              in if p = 0 then (None, m1)
                 else (Some p, set_pte pte (PA2PTE h p OR PTE_V h) (set_page p (replicate page_bytes 0) m1)))"

fun walk_loop :: "riscv_h \<Rightarrow> u64 \<Rightarrow> bool \<Rightarrow> nat \<Rightarrow> u64 \<Rightarrow> kmem \<Rightarrow> pte_ptr option \<times> kmem" where
  "walk_loop h va alloc 0 pt m = (Some (pt, PX h 0 va), m)"
| "walk_loop h va alloc (Suc l) pt m =
     (case walk_level h (Suc l) va alloc pt m of
        (None, m') \<Rightarrow> (None, m')
      | (Some p, m') \<Rightarrow> walk_loop h va alloc l p m')"

definition walk :: "riscv_h \<Rightarrow> u64 \<Rightarrow> u64 \<Rightarrow> bool \<Rightarrow> kmem \<Rightarrow> (pte_ptr option \<times> kmem) res" where
  "walk h pt va alloc m = panic_if (va \<ge> MAXVA h) ''walk'' (Inr (walk_loop h va alloc 2 pt m))"

definition walkaddr :: "riscv_h \<Rightarrow> u64 \<Rightarrow> u64 \<Rightarrow> kmem \<Rightarrow> u64 res" where
  "walkaddr h pt va m =
     (if va \<ge> MAXVA h then Inr 0
      else rbind (walk h pt va False m)
             (\<lambda>(pte, _). case pte of
                None \<Rightarrow> Inr 0
              | Some q \<Rightarrow>
                  if pte_val m q AND PTE_V h = 0 then Inr 0
                  else if pte_val m q AND PTE_U h = 0 then Inr 0
                  else Inr (PTE2PA h (pte_val m q))))"

text \<open>
  The loop of \<open>mappages\<close>; with a page-aligned size its exit \<open>a == last\<close> is reached after
  \<open>size / PGSIZE\<close> rounds, which is the fuel.
\<close>

fun mappages_loop :: "riscv_h \<Rightarrow> u64 \<Rightarrow> nat \<Rightarrow> u64 \<Rightarrow> u64 \<Rightarrow> u64 \<Rightarrow> u64 \<Rightarrow> kmem \<Rightarrow> (int \<times> kmem) res" where
  "mappages_loop h pt 0 a lst pa perm m = Inl OutOfFuel"
| "mappages_loop h pt (Suc n) a lst pa perm m =
     rbind (walk h pt a True m)
       (\<lambda>(pte, m1). case pte of
          None \<Rightarrow> Inr (-1, m1)
        | Some q \<Rightarrow>
            panic_if (pte_val m1 q AND PTE_V h \<noteq> 0) ''mappages: remap''
              (let m2 = set_pte q (PA2PTE h pa OR perm OR PTE_V h) m1
               in if a = lst then Inr (0, m2) else mappages_loop h pt n (a + 4096) lst (pa + 4096) perm m2))"

definition mappages :: "riscv_h \<Rightarrow> u64 \<Rightarrow> u64 \<Rightarrow> u64 \<Rightarrow> u64 \<Rightarrow> u64 \<Rightarrow> kmem \<Rightarrow> (int \<times> kmem) res" where
  "mappages h pt va sz pa perm m =
     panic_if (va mod 4096 \<noteq> 0) ''mappages: va not aligned''
       (panic_if (sz mod 4096 \<noteq> 0) ''mappages: size not aligned''
         (panic_if (sz = 0) ''mappages: size''
           (mappages_loop h pt (unat sz div page_bytes) va (va + sz - 4096) pa perm m)))"

definition kvmmap :: "riscv_h \<Rightarrow> u64 \<Rightarrow> u64 \<Rightarrow> u64 \<Rightarrow> u64 \<Rightarrow> u64 \<Rightarrow> kmem \<Rightarrow> kmem res" where
  "kvmmap h kpgtbl va pa sz perm m =
     rbind (mappages h kpgtbl va sz pa perm m) (\<lambda>(r, m1). panic_if (r \<noteq> 0) ''kvmmap'' (Inr m1))"

definition uvmcreate :: "kmem \<Rightarrow> u64 \<times> kmem" where
  "uvmcreate m =
     (let (pt, m1) = kalloc m in if pt = 0 then (0, m1) else (pt, set_page pt (replicate page_bytes 0) m1))"

definition uvmclear :: "riscv_h \<Rightarrow> u64 \<Rightarrow> u64 \<Rightarrow> kmem \<Rightarrow> kmem res" where
  "uvmclear h pt va m =
     rbind (walk h pt va False m)
       (\<lambda>(pte, m1). case pte of
          None \<Rightarrow> Inl (Panic ''uvmclear'')
        | Some q \<Rightarrow> Inr (set_pte q (pte_val m1 q AND NOT (PTE_U h)) m1))"

definition ismapped :: "riscv_h \<Rightarrow> u64 \<Rightarrow> u64 \<Rightarrow> kmem \<Rightarrow> bool res" where
  "ismapped h pt va m =
     rbind (walk h pt va False m)
       (\<lambda>(pte, _). case pte of None \<Rightarrow> Inr False | Some q \<Rightarrow> Inr (pte_val m q AND PTE_V h \<noteq> 0))"

text \<open>
  \<open>freewalk\<close> recurses along the entries; the fuel bounds the depth (the tables have three levels).
  \<open>freewalk_loop\<close> is its loop over the entries, \<open>rec\<close> the recursive call.
\<close>

fun freewalk_loop :: "riscv_h \<Rightarrow> (u64 \<Rightarrow> kmem \<Rightarrow> kmem res) \<Rightarrow> u64 \<Rightarrow> nat list \<Rightarrow> kmem \<Rightarrow> kmem res" where
  "freewalk_loop h rec pt [] m = Inr m"
| "freewalk_loop h rec pt (i # is) m =
     (let pte = pte_val m (pt, i)
      in if pte AND PTE_V h \<noteq> 0 \<and> pte AND (PTE_R h OR PTE_W h OR PTE_X h) = 0
         then rbind (rec (PTE2PA h pte) m) (\<lambda>m1. freewalk_loop h rec pt is (set_pte (pt, i) 0 m1))
         else if pte AND PTE_V h \<noteq> 0 then Inl (Panic ''freewalk: leaf'')
         else freewalk_loop h rec pt is m)"

primrec freewalk :: "riscv_h \<Rightarrow> nat \<Rightarrow> u64 \<Rightarrow> kmem \<Rightarrow> kmem res" where
  "freewalk h 0 pt m = Inl OutOfFuel"
| "freewalk h (Suc n) pt m = rbind (freewalk_loop h (freewalk h n) pt [0..<512] m) (kfree h pt)"


section \<open>Address spaces\<close>

text \<open>The entry of a page address, found without allocation; 0 if a table is missing.\<close>

definition next_table :: "riscv_h \<Rightarrow> kmem \<Rightarrow> u64 \<Rightarrow> nat \<Rightarrow> u64 option" where
  "next_table h m a i = (if pte_val m (a, i) AND PTE_V h \<noteq> 0 then Some (PTE2PA h (pte_val m (a, i))) else None)"

definition leaf_slot :: "riscv_h \<Rightarrow> kmem \<Rightarrow> u64 \<Rightarrow> u64 \<Rightarrow> pte_ptr option" where
  "leaf_slot h m pt va =
     (case next_table h m pt (PX h 2 va) of
        None \<Rightarrow> None
      | Some b \<Rightarrow> (case next_table h m b (PX h 1 va) of None \<Rightarrow> None | Some c \<Rightarrow> Some (c, PX h 0 va)))"

definition pte_at :: "riscv_h \<Rightarrow> kmem \<Rightarrow> u64 \<Rightarrow> u64 \<Rightarrow> u64" where
  "pte_at h m pt va = (case leaf_slot h m pt va of None \<Rightarrow> 0 | Some q \<Rightarrow> pte_val m q)"

lemma walk_noalloc: "va < MAXVA h \<Longrightarrow> walk h pt va False m = Inr (leaf_slot h m pt va, m)"
  by (simp add: walk_def not_le [symmetric] numeral_2_eq_2 walk_level_def leaf_slot_def next_table_def)

lemma walk_panics: "MAXVA h \<le> va \<Longrightarrow> walk h pt va alloc m = Inl (Panic ''walk'')"
  by (simp add: walk_def)

text \<open>The role of a page: \<open>Table r p\<close> is the table of the space with root \<open>r\<close> at the end of the path \<open>p\<close>.\<close>

datatype role = Unowned | Free | Kernel | Table u64 "nat list" | Frame u64 "nat list"

definition entry_ok :: "riscv_h \<Rightarrow> (u64 \<Rightarrow> role) \<Rightarrow> u64 \<Rightarrow> nat list \<Rightarrow> nat \<Rightarrow> u64 \<Rightarrow> bool" where
  "entry_ok h own r p i e \<longleftrightarrow>
     (e AND PTE_V h \<noteq> 0 \<longrightarrow>
        (if length p < 2 then own (PTE2PA h e) = Table r (p @ [i])
         else e AND PTE_U h \<noteq> 0 \<longrightarrow> own (PTE2PA h e) = Frame r (p @ [i])))"

definition mem_ok :: "riscv_h \<Rightarrow> (u64 \<Rightarrow> role) \<Rightarrow> u64 list \<Rightarrow> kmem \<Rightarrow> bool" where
  "mem_ok h own xs m \<longleftrightarrow>
     free_list h m xs \<and> (\<forall>a. own a = Free \<longleftrightarrow> a \<in> set xs)
   \<and> (\<forall>a. own a \<noteq> Unowned \<longrightarrow> phys_ok h a \<and> length (pm m a) = page_bytes)
   \<and> (\<forall>a r p. own a = Table r p \<longrightarrow> length p \<le> 2 \<and> (p = [] \<longrightarrow> a = r) \<and> (\<forall>i < 512. entry_ok h own r p i (pte_val m (a, i))))
   \<and> (\<forall>b r p i. own b = Table r (p @ [i]) \<longrightarrow> (\<exists>a. own a = Table r p \<and> i < 512 \<and> next_table h m a i = Some b))"

definition path_of :: "riscv_h \<Rightarrow> u64 \<Rightarrow> nat list" where
  "path_of h va = [PX h 2 va, PX h 1 va, PX h 0 va]"

lemma pte_val_set_pte:
  assumes "length (pm m a) = page_bytes" "i < 512" "j < 512"
  shows "pte_val (set_pte (a, i) e m) (b, j) = (if b = a \<and> j = i then e else pte_val m (b, j))"
  using assms by (simp add: pte_val_def set_pte_def get64_put64)

lemma set_pte_sel [simp]:
  "freelist (set_pte q e m) = freelist m"
  "b \<noteq> fst q \<Longrightarrow> pm (set_pte q e m) b = pm m b"
  by (simp_all add: set_pte_def)

lemma length_set_pte [simp]:
  "length (pm m (fst q)) = page_bytes \<Longrightarrow> snd q < 512 \<Longrightarrow> length (pm (set_pte q e m) b) = length (pm m b)"
  by (simp add: set_pte_def)

lemma mem_okD:
  assumes "mem_ok h own xs m"
  shows "free_list h m xs" "own a = Free \<longleftrightarrow> a \<in> set xs"
    "own a \<noteq> Unowned \<Longrightarrow> phys_ok h a" "own a \<noteq> Unowned \<Longrightarrow> length (pm m a) = page_bytes"
    "own a = Table r p \<Longrightarrow> length p \<le> 2"
    "own a = Table r p \<Longrightarrow> i < 512 \<Longrightarrow> entry_ok h own r p i (pte_val m (a, i))"
    "own a = Table r [] \<Longrightarrow> a = r"
    "own b = Table r (p @ [i]) \<Longrightarrow> \<exists>a. own a = Table r p \<and> i < 512 \<and> next_table h m a i = Some b"
proof -
  show "free_list h m xs" "own a = Free \<longleftrightarrow> a \<in> set xs"
    "own a \<noteq> Unowned \<Longrightarrow> phys_ok h a" "own a \<noteq> Unowned \<Longrightarrow> length (pm m a) = page_bytes"
    using assms by (simp_all add: mem_ok_def)
  have tab: "length p \<le> 2 \<and> (p = [] \<longrightarrow> a = r) \<and> (\<forall>i < 512. entry_ok h own r p i (pte_val m (a, i)))"
    if "own a = Table r p" for a r p
    using assms that unfolding mem_ok_def by (elim conjE) simp
  then show "own a = Table r p \<Longrightarrow> length p \<le> 2"
    "own a = Table r p \<Longrightarrow> i < 512 \<Longrightarrow> entry_ok h own r p i (pte_val m (a, i))"
    "own a = Table r [] \<Longrightarrow> a = r"
    by simp_all
  show "\<exists>a. own a = Table r p \<and> i < 512 \<and> next_table h m a i = Some b" if "own b = Table r (p @ [i])"
    using assms that unfolding mem_ok_def by (elim conjE) simp
qed

lemma mem_okI:
  assumes "free_list h m xs" "\<And>a. own a = Free \<longleftrightarrow> a \<in> set xs"
    and "\<And>a. own a \<noteq> Unowned \<Longrightarrow> phys_ok h a \<and> length (pm m a) = page_bytes"
    and "\<And>a r p. own a = Table r p \<Longrightarrow> length p \<le> 2 \<and> (p = [] \<longrightarrow> a = r)"
    and "\<And>a r p i. own a = Table r p \<Longrightarrow> i < 512 \<Longrightarrow> entry_ok h own r p i (pte_val m (a, i))"
    and "\<And>b r p i. own b = Table r (p @ [i]) \<Longrightarrow> \<exists>a. own a = Table r p \<and> i < 512 \<and> next_table h m a i = Some b"
  shows "mem_ok h own xs m"
  unfolding mem_ok_def
proof (intro conjI allI impI)
  fix a r p
  assume "own a = Table r p"
  then show "length p \<le> 2" "p = [] \<Longrightarrow> a = r" using assms(4) by auto
qed (use assms in auto)

text \<open>Free pages have become tables; the spaces and all other pages are as they were.\<close>

definition grown :: "riscv_h \<Rightarrow> (u64 \<Rightarrow> role) \<Rightarrow> u64 list \<Rightarrow> kmem \<Rightarrow> (u64 \<Rightarrow> role) \<Rightarrow> u64 list \<Rightarrow> kmem \<Rightarrow> bool" where
  "grown h own xs m own' xs' m' \<longleftrightarrow>
     mem_ok h own' xs' m' \<and> (\<forall>a. own a \<noteq> Free \<longrightarrow> own' a = own a)
   \<and> (\<forall>a. own a = Free \<longrightarrow> own' a = Free \<or> (\<exists>r p. own' a = Table r p \<and> p \<noteq> []))
   \<and> (\<forall>a. own a \<noteq> Free \<and> (\<forall>r p. own a \<noteq> Table r p) \<longrightarrow> pm m' a = pm m a)
   \<and> (\<forall>pt va. own pt = Table pt [] \<longrightarrow> pte_at h m' pt va = pte_at h m pt va)
   \<and> (\<exists>ys. xs = ys @ xs')"

lemma grown_refl: "mem_ok h own xs m \<Longrightarrow> grown h own xs m own xs m"
  by (simp add: grown_def)

lemma grown_trans:
  assumes "grown h own xs m own1 xs1 m1" "grown h own1 xs1 m1 own2 xs2 m2"
  shows "grown h own xs m own2 xs2 m2"
proof -
  have "own2 a = Free \<or> (\<exists>r p. own2 a = Table r p \<and> p \<noteq> [])" if "own a = Free" for a
    using assms that unfolding grown_def by (metis role.distinct(11))
  moreover have "own2 a = own a" if "own a \<noteq> Free" for a
    using assms that unfolding grown_def by metis
  moreover have "pm m2 a = pm m a" if "own a \<noteq> Free" "\<forall>r p. own a \<noteq> Table r p" for a
    using assms that unfolding grown_def by metis
  moreover have "pte_at h m2 pt va = pte_at h m pt va" if "own pt = Table pt []" for pt va
    using assms that unfolding grown_def by (metis role.distinct(11))
  ultimately show ?thesis using assms unfolding grown_def by fastforce
qed

context sv39
begin

lemma pte_flag_bits:
  assumes "f AND 1023 = f"
  shows "(PA2PTE h pa OR fl) AND f = fl AND f"
proof -
  have "PA2PTE h pa AND f = (PA2PTE h pa AND 1023) AND f" by (metis assms and.assoc and.commute)
  then have "PA2PTE h pa AND f = 0" by (simp add: pa2pte_flags)
  then show ?thesis by (simp add: bit.conj_disj_distrib2)
qed

lemma next_table_owner:
  assumes "mem_ok h own xs m" "own a = Table r p" "length p < 2" "i < 512" "next_table h m a i = Some b"
  shows "own b = Table r (p @ [i])"
  using assms mem_okD(6) [OF assms(1,2,4)] by (simp add: next_table_def entry_ok_def split: if_splits)

lemma leaf_slot_owner:
  assumes "mem_ok h own xs m" "own pt = Table pt []" "leaf_slot h m pt va = Some q"
  shows "own (fst q) = Table pt [PX h 2 va, PX h 1 va]" "snd q = PX h 0 va"
proof -
  from assms(3) obtain b c where b: "next_table h m pt (PX h 2 va) = Some b" and c: "next_table h m b (PX h 1 va) = Some c"
    and q: "q = (c, PX h 0 va)"
    by (auto simp: leaf_slot_def split: option.splits)
  have "own b = Table pt [PX h 2 va]" using next_table_owner [OF assms(1,2) _ _ b] px_less by simp
  from next_table_owner [OF assms(1) this _ _ c] px_less
  show "own (fst q) = Table pt [PX h 2 va, PX h 1 va]" "snd q = PX h 0 va" by (simp_all add: q)
qed

lemma next_table_cong: "pte_val m' (a, i) = pte_val m (a, i) \<Longrightarrow> next_table h m' a i = next_table h m a i"
  by (simp add: next_table_def)

lemma table_unique:
  assumes ok: "mem_ok h own xs m"
  shows "own a = Table r p \<Longrightarrow> own b = Table r p \<Longrightarrow> a = b"
proof (induction p arbitrary: a b rule: rev_induct)
  case Nil
  then show ?case using mem_okD(7) [OF ok] by metis
next
  case (snoc i p)
  from mem_okD(8) [OF ok snoc.prems(1)] mem_okD(8) [OF ok snoc.prems(2)]
  show ?case using snoc.IH by (metis option.inject)
qed

text \<open>Only the upper tables of a space determine where its entries are.\<close>

lemma leaf_slot_frame:
  assumes "mem_ok h own xs m" "own pt = Table pt []"
    and same: "\<And>a p i. own a = Table pt p \<Longrightarrow> length p < 2 \<Longrightarrow> i < 512 \<Longrightarrow> pte_val m' (a, i) = pte_val m (a, i)"
  shows "leaf_slot h m' pt va = leaf_slot h m pt va"
proof -
  have 1: "next_table h m' pt (PX h 2 va) = next_table h m pt (PX h 2 va)"
    using same [OF assms(2)] px_less by (intro next_table_cong) simp
  show ?thesis
  proof (cases "next_table h m pt (PX h 2 va)")
    case None
    with 1 show ?thesis by (simp add: leaf_slot_def)
  next
    case (Some b)
    have "own b = Table pt [PX h 2 va]" using next_table_owner [OF assms(1,2) _ _ Some] px_less by simp
    then have "next_table h m' b (PX h 1 va) = next_table h m b (PX h 1 va)"
      using same px_less by (intro next_table_cong) simp
    with 1 Some show ?thesis by (simp add: leaf_slot_def)
  qed
qed

lemma pte_at_frame:
  assumes "mem_ok h own xs m" "own pt = Table pt []"
    and same: "\<And>a p i. own a = Table pt p \<Longrightarrow> i < 512 \<Longrightarrow> pte_val m' (a, i) = pte_val m (a, i)"
  shows "pte_at h m' pt va = pte_at h m pt va"
proof -
  have "leaf_slot h m' pt va = leaf_slot h m pt va" using same by (intro leaf_slot_frame [OF assms(1,2)])
  moreover have "pte_val m' q = pte_val m q" if "leaf_slot h m pt va = Some q" for q
    using leaf_slot_owner [OF assms(1,2) that] same px_less by (cases q) auto
  ultimately show ?thesis by (simp add: pte_at_def split: option.split)
qed

text \<open>An entry of a lowest-level table is overwritten: one entry of one space changes.\<close>

lemma set_leaf:
  assumes ok: "mem_ok h own xs m" and root: "own pt = Table pt []" and q: "leaf_slot h m pt va = Some q"
    and e: "e AND PTE_V h \<noteq> 0 \<Longrightarrow> e AND PTE_U h \<noteq> 0 \<Longrightarrow> own (PTE2PA h e) = Frame pt (path_of h va)"
    and va: "page_aligned va" "va < MAXVA h"
  shows "mem_ok h own xs (set_pte q e m)"
    and "own pt' = Table pt' [] \<Longrightarrow> leaf_slot h (set_pte q e m) pt' va' = leaf_slot h m pt' va'"
    and "own pt' = Table pt' [] \<Longrightarrow> page_aligned va' \<Longrightarrow> va' < MAXVA h \<Longrightarrow>
      pte_at h (set_pte q e m) pt' va' = (if pt' = pt \<and> va' = va then e else pte_at h m pt' va')"
proof -
  obtain a where a: "q = (a, PX h 0 va)" "own a = Table pt [PX h 2 va, PX h 1 va]"
    using leaf_slot_owner [OF ok root q] by (cases q) auto
  note len = mem_okD(4) [OF ok, of a]
  have val: "pte_val (set_pte q e m) (b, j) = (if b = a \<and> j = PX h 0 va then e else pte_val m (b, j))" if "j < 512" for b j
    using pte_val_set_pte [of m a "PX h 0 va" j] len that px_less a by simp
  show ls: "leaf_slot h (set_pte q e m) pt' va' = leaf_slot h m pt' va'" if "own pt' = Table pt' []" for pt' va'
    using a(2) by (intro leaf_slot_frame [OF ok that]) (auto simp: val)
  show "pte_at h (set_pte q e m) pt' va' = (if pt' = pt \<and> va' = va then e else pte_at h m pt' va')"
    if r: "own pt' = Table pt' []" "page_aligned va'" "va' < MAXVA h"
  proof (cases "leaf_slot h m pt' va'")
    case None
    then show ?thesis using ls [OF r(1)] q by (auto simp: pte_at_def)
  next
    case (Some q')
    note o = leaf_slot_owner [OF ok r(1) Some]
    have "fst q' = a \<and> snd q' = PX h 0 va \<longleftrightarrow> pt' = pt \<and> va' = va"
      using o a px_inj [OF r(2) va(1) r(3) va(2)] Some q by auto
    then show ?thesis using ls [OF r(1)] Some val [of "snd q'" "fst q'"] o(2) px_less by (cases q') (simp add: pte_at_def)
  qed
  have fl: "a \<notin> set xs" using mem_okD(2) [OF ok, of a] a(2) by simp
  have nt: "next_table h (set_pte q e m) b i = next_table h m b i" if "own b = Table r p" "length p < 2" "i < 512" for b r p i
    using val [OF that(3), of b] that a(2) by (intro next_table_cong) auto
  show "mem_ok h own xs (set_pte q e m)"
  proof (rule mem_okI)
    show "free_list h (set_pte q e m) xs"
      unfolding set_pte_def by (rule free_list_set_page [OF mem_okD(1) [OF ok]]) (simp add: a fl)
    show "own b = Free \<longleftrightarrow> b \<in> set xs" for b by (rule mem_okD(2) [OF ok])
    show "phys_ok h b \<and> length (pm (set_pte q e m) b) = page_bytes" if "own b \<noteq> Unowned" for b
      using mem_okD(3,4) [OF ok that] a len px_less by simp
    show "length p \<le> 2 \<and> (p = [] \<longrightarrow> b = r)" if "own b = Table r p" for b r p
      using mem_okD(5) [OF ok that] mem_okD(7) [OF ok, of b r] that by auto
    show "entry_ok h own r p i (pte_val (set_pte q e m) (b, i))" if "own b = Table r p" "i < 512" for b r p i
      using mem_okD(6) [OF ok that] that a e val [of i b] by (auto simp: entry_ok_def path_of_def)
    fix c r p i
    assume c: "own c = Table r (p @ [i])"
    from mem_okD(8) [OF ok c] obtain b where b: "own b = Table r p" "i < 512" "next_table h m b i = Some c" by blast
    moreover have "length p < 2" using mem_okD(5) [OF ok c] by simp
    ultimately show "\<exists>b. own b = Table r p \<and> i < 512 \<and> next_table h (set_pte q e m) b i = Some c" using nt [OF b(1)] by auto
  qed
qed

lemma flag_V [simp]: "(PA2PTE h pa OR fl) AND PTE_V h = fl AND PTE_V h"
  by (rule pte_flag_bits) (simp add: flag_bits)

lemma flag_U [simp]: "(PA2PTE h pa OR fl) AND PTE_U h = fl AND PTE_U h"
  by (rule pte_flag_bits) (simp add: flag_bits)

lemma phys_pte: "phys_ok h pa \<Longrightarrow> fl < 1024 \<Longrightarrow> PTE2PA h (PA2PTE h pa OR fl) = pa"
  using ram(3) by (intro pte2pa) (auto simp: phys_ok_def)

text \<open>A free page becomes the table below the entry \<open>i\<close> of the table \<open>a\<close>.\<close>

definition add_table :: "u64 \<Rightarrow> nat \<Rightarrow> u64 \<Rightarrow> kmem \<Rightarrow> kmem" where
  "add_table a i x m =
     set_pte (a, i) (PA2PTE h x OR PTE_V h) (set_page x (replicate page_bytes 0) (m\<lparr>freelist := get64 (pm m x) 0\<rparr>))"

lemma add_table_val:
  assumes "mem_ok h own (x # xs) m" "own a = Table r p" "i < 512" "j < 512"
  shows "pte_val (add_table a i x m) (b, j)
     = (if b = a \<and> j = i then PA2PTE h x OR PTE_V h else if b = x then 0 else pte_val m (b, j))"
    and "c \<noteq> a \<Longrightarrow> c \<noteq> x \<Longrightarrow> pm (add_table a i x m) c = pm m c"
    and "own c \<noteq> Unowned \<Longrightarrow> length (pm (add_table a i x m) c) = page_bytes"
    and "next_table h (add_table a i x m) a i = Some x"
proof -
  note x = kalloc_pop [OF mem_okD(1) [OF assms(1)]]
  have ax: "a \<noteq> x" using mem_okD(2) [OF assms(1), of x] assms(2) by auto
  have len: "length (pm m a) = page_bytes" using mem_okD(4) [OF assms(1)] assms(2) by simp
  have val: "pte_val (add_table a i x m) (b, j)
     = (if b = a \<and> j = i then PA2PTE h x OR PTE_V h else if b = x then 0 else pte_val m (b, j))" if "j < 512" for b j
    unfolding add_table_def using pte_val_set_pte [OF _ assms(3) that] len ax by (auto simp: pte_val_def)
  then show "pte_val (add_table a i x m) (b, j)
     = (if b = a \<and> j = i then PA2PTE h x OR PTE_V h else if b = x then 0 else pte_val m (b, j))"
    using assms(4) .
  show "c \<noteq> a \<Longrightarrow> c \<noteq> x \<Longrightarrow> pm (add_table a i x m) c = pm m c" by (simp add: add_table_def)
  show "own c \<noteq> Unowned \<Longrightarrow> length (pm (add_table a i x m) c) = page_bytes"
    using mem_okD(4) [OF assms(1), of c] len ax assms(3) by (simp add: add_table_def)
  show "next_table h (add_table a i x m) a i = Some x"
    using val [OF assms(3), of a] phys_pte [OF x(4), of "PTE_V h"] by (simp add: next_table_def flag_bits)
qed

lemma add_table_ok:
  assumes ok: "mem_ok h own (x # xs) m" and a: "own a = Table r p" "length p < 2" and i: "i < 512"
    and free: "next_table h m a i = None"
  shows "mem_ok h (own(x := Table r (p @ [i]))) xs (add_table a i x m)"
proof -
  let ?m = "add_table a i x m" and ?own = "own(x := Table r (p @ [i]))"
  note x = kalloc_pop [OF mem_okD(1) [OF ok]]
  note val = add_table_val [OF ok a(1) i]
  have ox: "own x = Free" "a \<noteq> x" using mem_okD(2) [OF ok, of x] a by auto
  show ?thesis
  proof (rule mem_okI)
    show "free_list h ?m xs"
    proof (rule free_list_frame [OF x(2)])
      show "freelist ?m = freelist (m\<lparr>freelist := get64 (pm m x) 0, pm := (pm m)(x := [])\<rparr>)" by (simp add: add_table_def)
      fix y
      assume "y \<in> set xs"
      moreover from this have "y \<noteq> a" using mem_okD(2) [OF ok, of y] a by auto
      ultimately show "pm ?m y = pm (m\<lparr>freelist := get64 (pm m x) 0, pm := (pm m)(x := [])\<rparr>) y"
        using x(5) val(2) [of 0] by auto
    qed
    show "?own b = Free \<longleftrightarrow> b \<in> set xs" for b using mem_okD(2) [OF ok, of b] x(5) by auto
    show "phys_ok h b \<and> length (pm ?m b) = page_bytes" if "?own b \<noteq> Unowned" for b
      using that mem_okD(3) [OF ok, of b] val(3) [of 0 b] ox by (auto split: if_splits)
    show "length p' \<le> 2 \<and> (p' = [] \<longrightarrow> b = r')" if "?own b = Table r' p'" for b r' p'
      using that a mem_okD(5) [OF ok, of b] mem_okD(7) [OF ok, of b r'] by (auto split: if_splits)
    show "entry_ok h ?own r' p' j (pte_val ?m (b, j))" if b: "?own b = Table r' p'" and j: "j < 512" for b r' p' j
    proof (cases "b = x \<or> b = a \<and> j = i")
      case True
      then show ?thesis using val(1) [OF j, of b] phys_pte [OF x(4), of "PTE_V h"] a b ox by (auto simp: entry_ok_def flag_bits)
    next
      case False
      then have v: "pte_val ?m (b, j) = pte_val m (b, j)" and b: "own b = Table r' p'" using val(1) [OF j, of b] b by auto
      show ?thesis unfolding v using mem_okD(6) [OF ok b j] ox(1) by (auto simp: entry_ok_def split: if_splits)
    qed
    show "\<exists>d. ?own d = Table r' p' \<and> j < 512 \<and> next_table h ?m d j = Some b" if "?own b = Table r' (p' @ [j])" for b r' p' j
    proof (cases "b = x")
      case True
      then show ?thesis using that a ox val(4) [of 0] i by (intro exI [of _ a]) simp
    next
      case False
      then have "own b = Table r' (p' @ [j])" using that by simp
      from mem_okD(8) [OF ok this] obtain d where d: "own d = Table r' p'" "j < 512" "next_table h m d j = Some b" by blast
      then have dx: "d \<noteq> x" "\<not> (d = a \<and> j = i)" using ox free by auto
      then have "pte_val ?m (d, j) = pte_val m (d, j)" using val(1) [OF d(2), of d] by auto
      from next_table_cong [OF this] show ?thesis using d dx by (intro exI [of _ d]) simp
    qed
  qed
qed

lemma add_table_view:
  assumes ok: "mem_ok h own (x # xs) m" and a: "own a = Table r p" "length p < 2" and i: "i < 512"
    and free: "next_table h m a i = None" and pt: "own pt = Table pt []"
  shows "pte_at h (add_table a i x m) pt va = pte_at h m pt va"
proof -
  let ?m = "add_table a i x m"
  note val = add_table_val [OF ok a(1) i]
  have ox: "own x = Free" "a \<noteq> x" using mem_okD(2) [OF ok, of x] a by auto
  have n: "next_table h ?m c j = (if c = a \<and> j = i then Some x else next_table h m c j)" if "own c = Table r' p'" "j < 512" for c j r' p'
    using val(1) [OF that(2), of c] val(4) [OF that(2)] that ox by (auto simp: next_table_def)
  have nx: "next_table h ?m x j = None" "pte_val ?m (x, j) = 0" if "j < 512" for j
    using val(1) [OF that, of x] ox by (auto simp: next_table_def)
  note px = px_less [of 2 va] px_less [of 1 va] px_less [of 0 va]
  show ?thesis
  proof (cases "next_table h m pt (PX h 2 va)")
    case None
    then show ?thesis using n [OF pt, of "PX h 2 va"] nx px by (auto simp: pte_at_def leaf_slot_def)
  next
    case (Some b)
    have b: "own b = Table pt [PX h 2 va]" using next_table_owner [OF ok pt _ _ Some] px by simp
    have 2: "next_table h ?m pt (PX h 2 va) = Some b" using n [OF pt, of "PX h 2 va"] px Some free by auto
    show ?thesis
    proof (cases "next_table h m b (PX h 1 va)")
      case None
      then show ?thesis using n [OF b, of "PX h 1 va"] nx px 2 Some by (auto simp: pte_at_def leaf_slot_def)
    next
      case (Some c)
      have c: "own c = Table pt [PX h 2 va, PX h 1 va]" using next_table_owner [OF ok b _ _ Some] px by simp
      have "next_table h ?m b (PX h 1 va) = Some c" using n [OF b, of "PX h 1 va"] px Some free by auto
      moreover have "c \<noteq> a" "c \<noteq> x" using c a ox by auto
      ultimately show ?thesis
        using 2 Some \<open>next_table h m pt (PX h 2 va) = Some b\<close> val(1) [of "PX h 0 va" c] px
        by (simp add: pte_at_def leaf_slot_def)
    qed
  qed
qed

lemma new_pte_flags:
  "(PA2PTE h pa OR perm OR PTE_V h) AND PTE_V h \<noteq> 0"
  "(PA2PTE h pa OR perm OR PTE_V h) AND PTE_U h = perm AND PTE_U h"
  unfolding flag_V flag_U by (simp_all add: flag_bits bit.conj_disj_distrib2)

lemma walk_level_spec:
  assumes ok: "mem_ok h own xs m" and a: "own a = Table r p" "length p < 2" and lev: "level \<le> 2"
    and i: "i = PX h level va"
  shows "\<exists>res own' xs' m'. walk_level h level va True a m = (res, m') \<and> grown h own xs m own' xs' m'
     \<and> (\<forall>c r' p' j. own c = Table r' p' \<and> j < 512 \<and> c \<noteq> a \<longrightarrow> pte_val m' (c, j) = pte_val m (c, j))
     \<and> (case res of None \<Rightarrow> xs = [] | Some b \<Rightarrow> own' b = Table r (p @ [i]) \<and> next_table h m' a i = Some b \<and> length xs \<le> Suc (length xs'))"
proof (cases "next_table h m a i")
  case (Some b)
  then have "walk_level h level va True a m = (Some b, m)"
    by (simp add: walk_level_def next_table_def i split: if_splits)
  moreover have "own b = Table r (p @ [i])" using next_table_owner [OF ok a _ Some] px_less [OF lev] by (simp add: i)
  ultimately show ?thesis using grown_refl [OF ok] Some
    by (intro exI [of _ "Some b"] exI [of _ own] exI [of _ xs] exI [of _ m]) simp
next
  case None
  then have inv: "pte_val m (a, i) AND PTE_V h = 0" by (simp add: next_table_def split: if_splits)
  show ?thesis
  proof (cases xs)
    case Nil
    have "walk_level h level va True a m = (None, m)"
      using inv kalloc_empty [of h m] mem_okD(1) [OF ok] Nil by (simp add: walk_level_def i)
    then show ?thesis using grown_refl [OF ok] Nil
      by (intro exI [of _ None] exI [of _ own] exI [of _ xs] exI [of _ m]) simp
  next
    case (Cons x xs')
    let ?m = "add_table a i x m" and ?own = "own(x := Table r (p @ [i]))"
    note okx = ok [unfolded Cons]
    note x = kalloc_pop [OF mem_okD(1) [OF okx]]
    have i512: "i < 512" using px_less [OF lev] by (simp add: i)
    note val = add_table_val [OF okx a(1) i512]
    have ox: "own x = Free" "a \<noteq> x" using mem_okD(2) [OF okx, of x] a by auto
    have "walk_level h level va True a m = (Some x, ?m)"
      using inv x(1,3) by (simp add: walk_level_def i add_table_def set_page_def)
    moreover have "pm ?m c = pm m c" if "own c \<noteq> Free" "\<forall>r p. own c \<noteq> Table r p" for c
      using val(2) [OF i512, of c] that ox a by metis
    then have "grown h own xs m ?own xs' ?m"
      using add_table_ok [OF okx a i512 None] add_table_view [OF okx a i512 None] ox Cons unfolding grown_def by auto
    moreover have "\<forall>c r' p' j. own c = Table r' p' \<and> j < 512 \<and> c \<noteq> a \<longrightarrow> pte_val ?m (c, j) = pte_val m (c, j)"
      using val(1) ox by auto
    ultimately show ?thesis using val(4) [OF i512] Cons
      by (intro exI [of _ "Some x"] exI [of _ ?own] exI [of _ xs'] exI [of _ ?m]) simp
  qed
qed

text \<open>\<open>walk\<close> with allocation finds the entry, and fails only when fewer than two pages are free.\<close>

lemma walk_alloc:
  assumes ok: "mem_ok h own xs m" and pt: "own pt = Table pt []" and va: "va < MAXVA h"
  shows "\<exists>res own' xs' m'. walk h pt va True m = Inr (res, m') \<and> grown h own xs m own' xs' m' \<and> length xs \<le> length xs' + 2
     \<and> (case res of None \<Rightarrow> length xs < 2 | Some q \<Rightarrow> leaf_slot h m' pt va = Some q)"
proof -
  obtain res1 own1 xs1 m1 where 1: "walk_level h 2 va True pt m = (res1, m1)" "grown h own xs m own1 xs1 m1"
    "case res1 of None \<Rightarrow> xs = [] | Some b \<Rightarrow> own1 b = Table pt ([] @ [PX h 2 va]) \<and> next_table h m1 pt (PX h 2 va) = Some b
       \<and> length xs \<le> Suc (length xs1)"
    using walk_level_spec [OF ok pt _ _ refl, of 2 va] by auto
  have w: "walk h pt va True m = Inr (walk_loop h va True (Suc (Suc 0)) pt m)" using va by (simp add: walk_def panic_if_def numeral_2_eq_2 not_le)
  show ?thesis
  proof (cases res1)
    case None
    with 1 w show ?thesis by (intro exI [of _ None] exI [of _ own1] exI [of _ xs1] exI [of _ m1]) (simp add: numeral_2_eq_2)
  next
    case (Some b)
    with 1 have ok1: "mem_ok h own1 xs1 m1" and b: "own1 b = Table pt [PX h 2 va]" and nb: "next_table h m1 pt (PX h 2 va) = Some b"
      and l1: "length xs \<le> Suc (length xs1)"
      by (simp_all add: grown_def)
    obtain res2 own2 xs2 m2 where 2: "walk_level h 1 va True b m1 = (res2, m2)" "grown h own1 xs1 m1 own2 xs2 m2"
      "\<forall>c r' p' j. own1 c = Table r' p' \<and> j < 512 \<and> c \<noteq> b \<longrightarrow> pte_val m2 (c, j) = pte_val m1 (c, j)"
      "case res2 of None \<Rightarrow> xs1 = [] | Some c \<Rightarrow> own2 c = Table pt ([PX h 2 va] @ [PX h 1 va]) \<and> next_table h m2 b (PX h 1 va) = Some c
         \<and> length xs1 \<le> Suc (length xs2)"
      using walk_level_spec [OF ok1 b _ _ refl, of 1 va] by auto
    have "own1 pt = Table pt []" using 1(2) pt by (simp add: grown_def)
    moreover from this have "pt \<noteq> b" using b by auto
    ultimately have "pte_val m2 (pt, PX h 2 va) = pte_val m1 (pt, PX h 2 va)" using 2(3) px_less [of 2 va] by blast
    from next_table_cong [OF this] have n2: "next_table h m2 pt (PX h 2 va) = Some b" using nb by simp
    note g = grown_trans [OF 1(2) 2(2)]
    have wl: "walk_loop h va True (Suc (Suc 0)) pt m
       = (case res2 of None \<Rightarrow> (None, m2) | Some c \<Rightarrow> (Some (c, PX h 0 va), m2))"
      using 1(1) 2(1) Some by (simp add: numeral_2_eq_2 split: option.split)
    show ?thesis
    proof (cases res2)
      case None
      then show ?thesis using w wl g 2(4) l1 by (intro exI [of _ None] exI [of _ own2] exI [of _ xs2] exI [of _ m2]) simp
    next
      case (Some c)
      then show ?thesis using w wl g 2(4) l1 n2
        by (intro exI [of _ "Some (c, PX h 0 va)"] exI [of _ own2] exI [of _ xs2] exI [of _ m2]) (simp add: leaf_slot_def)
    qed
  qed
qed

end

text \<open>One entry of one space has been set, with free pages for missing tables.\<close>

definition mapped ::
  "riscv_h \<Rightarrow> (u64 \<Rightarrow> role) \<Rightarrow> u64 list \<Rightarrow> kmem \<Rightarrow> (u64 \<Rightarrow> role) \<Rightarrow> u64 list \<Rightarrow> kmem \<Rightarrow> u64 \<Rightarrow> u64 \<Rightarrow> u64 \<Rightarrow> bool" where
  "mapped h own xs m own' xs' m' pt va e \<longleftrightarrow>
     mem_ok h own' xs' m' \<and> (\<forall>a. own a \<noteq> Free \<longrightarrow> own' a = own a)
   \<and> (\<forall>a. own a = Free \<longrightarrow> own' a = Free \<or> (\<exists>r p. own' a = Table r p \<and> p \<noteq> []))
   \<and> (\<forall>a. own a \<noteq> Free \<and> (\<forall>r p. own a \<noteq> Table r p) \<longrightarrow> pm m' a = pm m a)
   \<and> (\<forall>pt' va'. own pt' = Table pt' [] \<and> page_aligned va' \<and> va' < MAXVA h \<longrightarrow>
        pte_at h m' pt' va' = (if pt' = pt \<and> va' = va then e else pte_at h m pt' va'))
   \<and> (\<exists>ys. xs = ys @ xs')"

context sv39
begin

lemma grown_set_leaf:
  assumes g: "grown h own xs m own1 xs1 m1" and pt: "own pt = Table pt []" and q: "leaf_slot h m1 pt va = Some q"
    and e: "e AND PTE_V h \<noteq> 0 \<Longrightarrow> e AND PTE_U h \<noteq> 0 \<Longrightarrow> own (PTE2PA h e) = Frame pt (path_of h va)"
    and va: "page_aligned va" "va < MAXVA h"
  shows "mapped h own xs m own1 xs1 (set_pte q e m1) pt va e"
proof -
  have ok1: "mem_ok h own1 xs1 m1" and keep: "\<forall>a. own a \<noteq> Free \<longrightarrow> own1 a = own a" using g by (simp_all add: grown_def)
  have pt1: "own1 pt = Table pt []" using keep pt by auto
  have e1: "own1 (PTE2PA h e) = Frame pt (path_of h va)" if "e AND PTE_V h \<noteq> 0" "e AND PTE_U h \<noteq> 0"
    using e [OF that] keep by (metis role.distinct(13))
  note sl = set_leaf [OF ok1 pt1 q e1 va]
  have tab: "\<exists>r p. own1 (fst q) = Table r p" using leaf_slot_owner [OF ok1 pt1 q] by blast
  have "pm (set_pte q e m1) a = pm m a" if "own a \<noteq> Free" "\<forall>r p. own a \<noteq> Table r p" for a
  proof -
    have "a \<noteq> fst q" using tab keep that by metis
    then show ?thesis using g that by (simp add: grown_def)
  qed
  moreover have "pte_at h (set_pte q e m1) pt' va' = (if pt' = pt \<and> va' = va then e else pte_at h m pt' va')"
    if "own pt' = Table pt' []" "page_aligned va'" "va' < MAXVA h" for pt' va'
  proof -
    have "own1 pt' = Table pt' []" "pte_at h m1 pt' va' = pte_at h m pt' va'" using g that by (simp_all add: grown_def)
    then show ?thesis using sl(3) that by simp
  qed
  ultimately show ?thesis using g sl(1) unfolding grown_def mapped_def by blast
qed

text \<open>
  \<open>mappages\<close> of one page: it maps the page, or has not enough pages for the tables and leaves the space as it was; a page that is
  mapped already makes it panic.
\<close>

lemma map_page_walk:
  assumes "page_aligned va" "va < MAXVA h"
  shows "mappages h pt va 4096 pa perm m = rbind (walk h pt va True m)
       (\<lambda>(pte, m1). case pte of
          None \<Rightarrow> Inr (-1, m1)
        | Some q \<Rightarrow> panic_if (pte_val m1 q AND PTE_V h \<noteq> 0) ''mappages: remap''
              (Inr (0, set_pte q (PA2PTE h pa OR perm OR PTE_V h) m1)))"
proof -
  have "va mod 4096 = 0" using assms(1) by (simp only: page_aligned_def)
  then show ?thesis unfolding mappages_def by (simp cong: option.case_cong)
qed

lemma map_page:
  assumes ok: "mem_ok h own xs m" and pt: "own pt = Table pt []" and va: "page_aligned va" "va < MAXVA h"
    and unmapped: "pte_at h m pt va AND PTE_V h = 0"
    and pa: "page_aligned pa" "pa < 2 ^ 56" and perm: "perm < 1024"
    and user: "perm AND PTE_U h \<noteq> 0 \<Longrightarrow> own pa = Frame pt (path_of h va)"
  shows "(\<exists>own' xs' m'. mappages h pt va 4096 pa perm m = Inr (-1, m') \<and> grown h own xs m own' xs' m' \<and> length xs < 2)
     \<or> (\<exists>own' xs' m'. mappages h pt va 4096 pa perm m = Inr (0, m') \<and> length xs \<le> length xs' + 2
          \<and> mapped h own xs m own' xs' m' pt va (PA2PTE h pa OR perm OR PTE_V h))"
proof -
  let ?e = "PA2PTE h pa OR perm OR PTE_V h"
  obtain res own' xs' m' where w: "walk h pt va True m = Inr (res, m')" "grown h own xs m own' xs' m'" "length xs \<le> length xs' + 2"
    "case res of None \<Rightarrow> length xs < 2 | Some q \<Rightarrow> leaf_slot h m' pt va = Some q"
    using walk_alloc [OF ok pt va(2)] by blast
  show ?thesis
  proof (cases res)
    case None
    with w show ?thesis by (auto simp: map_page_walk [OF va])
  next
    case (Some q)
    with w have q: "leaf_slot h m' pt va = Some q" by simp
    have "pte_at h m' pt va = pte_at h m pt va" using w(2) pt by (simp add: grown_def)
    then have "pte_val m' q = pte_at h m pt va" using q by (simp add: pte_at_def)
    then have run: "mappages h pt va 4096 pa perm m = Inr (0, set_pte q ?e m')"
      using w(1) Some unmapped by (simp add: map_page_walk [OF va])
    have fl: "perm OR PTE_V h < 1024" using flags_or_less perm by (simp add: flag_bits)
    have "PTE2PA h ?e = pa" using pte2pa [OF pa fl] by simp
    moreover note new_pte_flags(2) [of pa perm]
    ultimately have "mapped h own xs m own' xs' (set_pte q ?e m') pt va ?e"
      using user by (intro grown_set_leaf [OF w(2) pt q _ va]) simp
    with run w(3) show ?thesis by blast
  qed
qed

text \<open>Pages other than tables are taken, written and given back.\<close>

lemma mem_ok_frame:
  assumes ok: "mem_ok h own xs m" and fl: "free_list h m' xs'" and free: "\<And>a. own' a = Free \<longleftrightarrow> a \<in> set xs'"
    and len: "\<And>a. own' a \<noteq> Unowned \<Longrightarrow> phys_ok h a \<and> length (pm m' a) = page_bytes"
    and tab: "\<And>a r p. own' a = Table r p \<longleftrightarrow> own a = Table r p"
    and same: "\<And>a r p. own a = Table r p \<Longrightarrow> pm m' a = pm m a"
    and leaf: "\<And>a r p i. own a = Table r p \<Longrightarrow> i < 512 \<Longrightarrow> pte_val m (a, i) AND PTE_V h \<noteq> 0 \<Longrightarrow> pte_val m (a, i) AND PTE_U h \<noteq> 0 \<Longrightarrow>
       own (PTE2PA h (pte_val m (a, i))) = Frame r (p @ [i]) \<Longrightarrow> own' (PTE2PA h (pte_val m (a, i))) = Frame r (p @ [i])"
  shows "mem_ok h own' xs' m'" and "own pt = Table pt [] \<Longrightarrow> pte_at h m' pt va = pte_at h m pt va"
proof -
  have val: "pte_val m' (a, i) = pte_val m (a, i)" if "own a = Table r p" for a r p i
    using same [OF that] by (simp add: pte_val_def)
  show "own pt = Table pt [] \<Longrightarrow> pte_at h m' pt va = pte_at h m pt va"
    by (rule pte_at_frame [OF ok]) (auto intro: val)
  show "mem_ok h own' xs' m'"
  proof (rule mem_okI [OF fl free len])
    show "length p \<le> 2 \<and> (p = [] \<longrightarrow> a = r)" if "own' a = Table r p" for a r p
      using mem_okD(5) [OF ok, of a r p] mem_okD(7) [OF ok, of a r] that tab by auto
    show "entry_ok h own' r p i (pte_val m' (a, i))" if "own' a = Table r p" "i < 512" for a r p i
    proof -
      have a: "own a = Table r p" using that tab by simp
      show ?thesis unfolding val [OF a]
        using mem_okD(6) [OF ok a that(2)] leaf [OF a that(2)] tab by (auto simp: entry_ok_def split: if_splits)
    qed
    fix b r p i
    assume "own' b = Table r (p @ [i])"
    then have "own b = Table r (p @ [i])" using tab by simp
    from mem_okD(8) [OF ok this] obtain a where a: "own a = Table r p" "i < 512" "next_table h m a i = Some b" by blast
    then show "\<exists>a. own' a = Table r p \<and> i < 512 \<and> next_table h m' a i = Some b"
      using tab next_table_cong [OF val [OF a(1)]] by auto
  qed
qed

lemma take_page:
  assumes ok: "mem_ok h own (x # xs) m" and role: "\<rho> = Kernel \<or> (\<exists>r p. \<rho> = Frame r p)" and pg: "length pg = page_bytes"
    and m': "m' = m\<lparr>freelist := get64 (pm m x) 0, pm := (pm m)(x := pg)\<rparr>"
  shows "mem_ok h (own(x := \<rho>)) xs m'" and "own pt = Table pt [] \<Longrightarrow> pte_at h m' pt va = pte_at h m pt va"
proof -
  note x = kalloc_pop [OF mem_okD(1) [OF ok]]
  have ox: "own x = Free" using mem_okD(2) [OF ok, of x] by simp
  have 1: "free_list h m' xs" unfolding m' by (rule x(2))
  have 2: "(own(x := \<rho>)) a = Free \<longleftrightarrow> a \<in> set xs" for a using mem_okD(2) [OF ok, of a] x(5) role by auto
  have 3: "phys_ok h a \<and> length (pm m' a) = page_bytes" if "(own(x := \<rho>)) a \<noteq> Unowned" for a
    using mem_okD(3,4) [OF ok, of a] that ox pg by (auto simp: m' split: if_splits)
  have 4: "(own(x := \<rho>)) a = Table r p \<longleftrightarrow> own a = Table r p" for a r p using ox role by auto
  have 5: "pm m' a = pm m a" if "own a = Table r p" for a r p using that ox by (auto simp: m')
  note f = mem_ok_frame [where own' = "own(x := \<rho>)", OF ok 1 2 3 4 5]
  show "mem_ok h (own(x := \<rho>)) xs m'" using ox by (rule_tac f(1)) auto
  show "own pt = Table pt [] \<Longrightarrow> pte_at h m' pt va = pte_at h m pt va" using ox by (rule_tac f(2)) auto
qed

lemma write_page:
  assumes ok: "mem_ok h own xs m" and role: "own a = Kernel \<or> (\<exists>r p. own a = Frame r p)" and pg: "length pg = page_bytes"
  shows "mem_ok h own xs (set_page a pg m)" and "own pt = Table pt [] \<Longrightarrow> pte_at h (set_page a pg m) pt va = pte_at h m pt va"
proof -
  have "a \<notin> set xs" using mem_okD(2) [OF ok, of a] role by auto
  note 1 = free_list_set_page [OF mem_okD(1) [OF ok] this]
  have 3: "phys_ok h b \<and> length (pm (set_page a pg m) b) = page_bytes" if "own b \<noteq> Unowned" for b
    using mem_okD(3,4) [OF ok that] pg by simp
  have 5: "pm (set_page a pg m) b = pm m b" if "own b = Table r p" for b r p using that role by auto
  note f = mem_ok_frame [OF ok 1 mem_okD(2) [OF ok] 3 refl 5]
  show "mem_ok h own xs (set_page a pg m)" by (rule f(1)) simp
  show "own pt = Table pt [] \<Longrightarrow> pte_at h (set_page a pg m) pt va = pte_at h m pt va" by (rule f(2)) simp
qed

lemma give_page:
  assumes ok: "mem_ok h own xs m" and role: "own a = Kernel \<or> (\<exists>r p. own a = Frame r p)"
    and unref: "\<And>b r p i. own b = Table r p \<Longrightarrow> own a = Frame r (p @ [i]) \<Longrightarrow> i < 512 \<Longrightarrow>
       pte_val m (b, i) AND PTE_V h = 0 \<or> pte_val m (b, i) AND PTE_U h = 0 \<or> PTE2PA h (pte_val m (b, i)) \<noteq> a"
  shows "\<exists>m'. kfree h a m = Inr m' \<and> mem_ok h (own(a := Free)) (a # xs) m' \<and> (\<forall>b. b \<noteq> a \<longrightarrow> pm m' b = pm m b)
     \<and> (\<forall>pt va. own pt = Table pt [] \<longrightarrow> pte_at h m' pt va = pte_at h m pt va)"
proof -
  have a: "phys_ok h a" "a \<notin> set xs" using mem_okD(2,3) [OF ok, of a] role by auto
  obtain pg where pg: "length pg = page_bytes" "kfree h a m = Inr (m\<lparr>pm := (pm m)(a := pg), freelist := a\<rparr>)"
    "free_list h (m\<lparr>pm := (pm m)(a := pg), freelist := a\<rparr>) (a # xs)"
    using kfree_push [OF mem_okD(1) [OF ok] a ram(1)] by blast
  let ?m = "m\<lparr>pm := (pm m)(a := pg), freelist := a\<rparr>" and ?own = "own(a := Free)"
  have 2: "?own b = Free \<longleftrightarrow> b \<in> set (a # xs)" for b using mem_okD(2) [OF ok, of b] by auto
  have 3: "phys_ok h b \<and> length (pm ?m b) = page_bytes" if "?own b \<noteq> Unowned" for b
    using mem_okD(3,4) [OF ok, of b] that a pg(1) by (auto split: if_splits)
  have 4: "?own b = Table r p \<longleftrightarrow> own b = Table r p" for b r p using role by auto
  have 5: "pm ?m b = pm m b" if "own b = Table r p" for b r p using that role by auto
  have 6: "?own (PTE2PA h (pte_val m (b, i))) = Frame r (p @ [i])"
    if "own b = Table r p" "i < 512" "pte_val m (b, i) AND PTE_V h \<noteq> 0" "pte_val m (b, i) AND PTE_U h \<noteq> 0"
      "own (PTE2PA h (pte_val m (b, i))) = Frame r (p @ [i])" for b r p i
    using unref [OF that(1) _ that(2)] that by auto
  have "mem_ok h ?own (a # xs) ?m"
    by (rule mem_ok_frame(1) [OF ok pg(3) 2]) (erule 3 | rule 4 | erule 5 | rule 6; assumption)+
  moreover have "pte_at h ?m pt va = pte_at h m pt va" if "own pt = Table pt []" for pt va
    by (rule mem_ok_frame(2) [OF ok pg(3) 2]) (erule 3 | rule 4 | erule 5 | rule 6; assumption | rule that)+
  ultimately show ?thesis using pg(2) by (intro exI [of _ ?m]) simp
qed

lemma walkaddr_pte:
  "va < MAXVA h \<Longrightarrow> walkaddr h pt va m =
     Inr (if pte_at h m pt va AND PTE_V h = 0 \<or> pte_at h m pt va AND PTE_U h = 0 then 0 else PTE2PA h (pte_at h m pt va))"
  by (auto simp: walkaddr_def walk_noalloc pte_at_def split: option.split)

lemma ismapped_pte: "va < MAXVA h \<Longrightarrow> ismapped h pt va m = Inr (pte_at h m pt va AND PTE_V h \<noteq> 0)"
  by (auto simp: ismapped_def walk_noalloc pte_at_def split: option.split)

end

text \<open>
  C11: A mapping is what was asked for and nothing else. With an unmapped page-aligned address and at least two free pages, \<open>mappages\<close>
  of a page for a user returns 0; \<open>walkaddr\<close> then gives the page at this address, and at every other page
  address of every address space what it gave before.
\<close>

theorem mappages_walkaddr:
  assumes "sv39 h" "mem_ok h own xs m" "own pt = Table pt []" "page_aligned va" "va < MAXVA h" "pte_at h m pt va AND PTE_V h = 0"
    and "own pa = Frame pt (path_of h va)" "perm < 1024" "perm AND PTE_U h \<noteq> 0" "2 \<le> length xs"
  shows "\<exists>m'. mappages h pt va 4096 pa perm m = Inr (0, m') \<and> walkaddr h pt va m' = Inr pa
     \<and> (\<forall>pt' va'. own pt' = Table pt' [] \<and> page_aligned va' \<and> va' < MAXVA h \<and> (pt', va') \<noteq> (pt, va) \<longrightarrow>
          walkaddr h pt' va' m' = walkaddr h pt' va' m)
     \<and> (\<exists>own' xs'. mem_ok h own' xs' m' \<and> length xs \<le> length xs' + 2)"
proof -
  let ?e = "PA2PTE h pa OR perm OR PTE_V h"
  have pa: "phys_ok h pa" using mem_okD(3) [OF assms(2)] assms(7) by simp
  then have "page_aligned pa" "pa < 2 ^ 56" using sv39.ram(3) [OF assms(1)] by (auto simp: phys_ok_def)
  then obtain own' xs' m' where m': "mappages h pt va 4096 pa perm m = Inr (0, m')" "length xs \<le> length xs' + 2"
    "mapped h own xs m own' xs' m' pt va ?e"
    using sv39.map_page [OF assms(1-6) _ _ assms(8), of pa] assms(7,10) by auto
  have "PTE2PA h ?e = pa" using sv39.phys_pte [OF assms(1) pa] flags_or_less assms(8) sv39.flag_bits [OF assms(1)] by simp
  moreover have "?e AND PTE_V h \<noteq> 0" "?e AND PTE_U h \<noteq> 0"
    using assms(9) sv39.new_pte_flags [OF assms(1)] by simp_all
  ultimately show ?thesis using m' assms(1,3-5) by (auto simp: mapped_def sv39.walkaddr_pte)
qed

text \<open>A small memory: an empty address space, one frame for its page 0, and two free pages.\<close>

definition tiny_mem :: kmem where
  "tiny_mem = \<lparr>pm = (\<lambda>a. replicate page_bytes 0)(2147688448 := put64 0 2147692544 (replicate page_bytes 0)), freelist = 2147688448\<rparr>"

definition tiny_own :: "u64 \<Rightarrow> role" where
  "tiny_own = (\<lambda>a. Unowned)(2147680256 := Table 2147680256 [], 2147684352 := Frame 2147680256 [0, 0, 0],
     2147688448 := Free, 2147692544 := Free)"

lemma tiny_mem_ok: "mem_ok riscv_std tiny_own [2147688448, 2147692544] tiny_mem"
proof -
  have "free_list riscv_std tiny_mem [2147688448, 2147692544]"
    by (simp add: free_list_def tiny_mem_def get64_put64 phys_ok_def page_aligned_unat riscv_std_def)
  moreover have "phys_ok riscv_std a" if "tiny_own a \<noteq> Unowned" for a
    using that by (auto simp: tiny_own_def phys_ok_def page_aligned_unat riscv_std_def split: if_splits)
  moreover have "length (pm tiny_mem a) = page_bytes" for a by (simp add: tiny_mem_def)
  moreover have "pte_val tiny_mem (2147680256, i) = 0" for i by (simp add: pte_val_def tiny_mem_def)
  ultimately show ?thesis by (intro mem_okI) (auto simp: tiny_own_def entry_ok_def split: if_splits)
qed

theorem mappages_walkaddr_witness:
  "\<exists>m'. mappages riscv_std 2147680256 0 4096 2147684352 22 tiny_mem = Inr (0, m')
     \<and> walkaddr riscv_std 2147680256 0 m' = Inr 2147684352"
proof -
  have "pte_at riscv_std tiny_mem 2147680256 0 = 0"
    by (simp add: pte_at_def leaf_slot_def next_table_def pte_val_def tiny_mem_def)
  moreover have "tiny_own 2147684352 = Frame 2147680256 (path_of riscv_std 0)"
    by (simp add: tiny_own_def path_of_def riscv_std_def)
  moreover have "tiny_own 2147680256 = Table 2147680256 []" by (simp add: tiny_own_def)
  ultimately show ?thesis
    using mappages_walkaddr [OF std39.sv39_axioms tiny_mem_ok, of 2147680256 0 2147684352 22]
    by (auto simp: riscv_std_def)
qed

end
