(* ===== verification/Paging.thy ===== *)
theory Paging
  imports Frame_Table Page_Table Proc_Table
begin

text \<open>
  Eviction and user frames (\<open>kernel/kalloc.c\<close>): \<open>evict_one_user_frame\<close>, \<open>kalloc_user\<close>, \<open>free_user_frame\<close>, over the
  page tables, the frame table, the process table and the swap area. \<open>swap_disk_read\<close> and \<open>swap_disk_write\<close> are the
  operations of the record \<open>swap_ops\<close>; the storage stack provides them.

  The pages a process sees are \<open>upage\<close>: the resident page of an address, or the page in its swap slot. An eviction
  does not change them.
\<close>

section \<open>State and operations\<close>

record 'd swap_ops =
  sw_read :: "int \<Rightarrow> 'd \<Rightarrow> (int \<times> u8 list \<times> 'd) res"
  sw_write :: "int \<Rightarrow> u8 list \<Rightarrow> 'd \<Rightarrow> (int \<times> 'd) res"

record 'd vm =
  km :: kmem
  fr :: frames
  sch :: sched
  swp :: 'd

abbreviation proc_at :: "'d vm \<Rightarrow> nat \<Rightarrow> proc" where
  "proc_at s p \<equiv> procs (sch s) ! p"

definition evict_stats :: "proc \<Rightarrow> proc" where
  "evict_stats p =
     p\<lparr>pages_evicted := c_int (pages_evicted p + 1),
       resident_pages := (if resident_pages p > 0 then resident_pages p - 1 else resident_pages p),
       pages_swapped_out := c_int (pages_swapped_out p + 1)\<rparr>"

text \<open>The victim has gone in the meantime: its frame and the reserved slot are released.\<close>

definition drop_victim :: "nat \<Rightarrow> nat \<Rightarrow> frames \<Rightarrow> frames" where
  "drop_victim victim slot f =
     dec_frame_count (upd_frame victim (\<lambda>_. no_frame) (f\<lparr>swap_used := (swap_used f)[slot := False]\<rparr>))"

text \<open>The page of the victim goes to the slot: from \<open>*pte = 0\<close> to the end of the round.\<close>

definition evict_page ::
  "riscv_h \<Rightarrow> 'd swap_ops \<Rightarrow> nat \<Rightarrow> nat \<Rightarrow> nat \<Rightarrow> u64 \<Rightarrow> pte_ptr \<Rightarrow> 'd vm \<Rightarrow> (int option \<times> 'd vm) res" where
  "evict_page h so victim slot p va q s =
     (let oldpte = pte_val (km s) q; pa = PTE2PA h oldpte; m1 = set_pte q 0 (km s)
      in rbind (sw_write so (int slot) (pm m1 pa) (swp s))
           (\<lambda>(r, d).
              if r < 0
              then Inr (Some (-1), s\<lparr>km := set_pte q oldpte m1, swp := d,
                     fr := restore_victim_frame victim (Some p) va ((fr s)\<lparr>swap_used := (swap_used (fr s))[slot := False]\<rparr>)\<rparr>)
              else rbind (kfree h pa m1)
                     (\<lambda>m2. Inr (Some 0, s\<lparr>km := m2, swp := d, fr := evict_commit victim slot p va (fr s),
                        sch := upd_proc p evict_stats (sch s)\<rparr>))))"

text \<open>One round of \<open>evict_one_user_frame\<close>: \<open>None\<close> stands for \<open>continue\<close>, \<open>Some r\<close> for \<open>return r\<close>.\<close>

definition evict_attempt :: "riscv_h \<Rightarrow> 'd swap_ops \<Rightarrow> 'd vm \<Rightarrow> (int option \<times> 'd vm) res" where
  "evict_attempt h so s =
     (case select_victim_frame (\<lambda>p. plevel (proc_at s p)) (fr s) of
        (None, f) \<Rightarrow> Inr (Some (-1), s\<lparr>fr := f\<rparr>)
      | (Some victim, f) \<Rightarrow>
          let p = fproc (frame_table f ! victim); va = fva (frame_table f ! victim);
              f1 = upd_frame victim (\<lambda>x. x\<lparr>user_frame := False, fproc := None, fva := 0, ref_bit := False\<rparr>) f
          in (case reserve_slot f1 of
                None \<Rightarrow> Inr (Some (-1), s\<lparr>fr := restore_victim_frame victim p va f1\<rparr>)
              | Some (slot, f2) \<Rightarrow>
                  (case p of
                     None \<Rightarrow> Inr (None, s\<lparr>fr := drop_victim victim slot f2\<rparr>)
                   | Some i \<Rightarrow>
                       if pagetable (proc_at s i) = 0 then Inr (None, s\<lparr>fr := drop_victim victim slot f2\<rparr>)
                       else rbind (walk h (pagetable (proc_at s i)) va False (km s))
                              (\<lambda>(pte, m). case pte of
                                 None \<Rightarrow> Inr (None, s\<lparr>fr := drop_victim victim slot f2\<rparr>)
                               | Some q \<Rightarrow>
                                   if pte_val (km s) q AND PTE_V h = 0 then Inr (None, s\<lparr>fr := drop_victim victim slot f2\<rparr>)
                                   else evict_page h so victim slot i va q (s\<lparr>fr := f2\<rparr>)))))"

fun evict_loop :: "riscv_h \<Rightarrow> 'd swap_ops \<Rightarrow> nat \<Rightarrow> 'd vm \<Rightarrow> (int \<times> 'd vm) res" where
  "evict_loop h so 0 s = Inr (-1, s)"
| "evict_loop h so (Suc n) s =
     rbind (evict_attempt h so s) (\<lambda>(r, s1). case r of Some v \<Rightarrow> Inr (v, s1) | None \<Rightarrow> evict_loop h so n s1)"

definition evict_one_user_frame :: "riscv_h \<Rightarrow> 'd swap_ops \<Rightarrow> 'd vm \<Rightarrow> (int \<times> 'd vm) res" where
  "evict_one_user_frame h so s = evict_loop h so MAX_FRAMES s"

definition free_user_frame :: "riscv_h \<Rightarrow> nat \<Rightarrow> u64 \<Rightarrow> u64 \<Rightarrow> 'd vm \<Rightarrow> 'd vm res" where
  "free_user_frame h p va pa s =
     (let f = drop_frame (Some p) va (fr s)
      in rbind (kfree h pa (km s)) (\<lambda>m. Inr (s\<lparr>km := m, fr := f\<rparr>)))"

text \<open>The two attempts of \<open>kalloc_user\<close>; 0 is the null pointer.\<close>

fun kalloc_user_loop :: "riscv_h \<Rightarrow> 'd swap_ops \<Rightarrow> nat \<Rightarrow> u64 \<Rightarrow> nat \<Rightarrow> 'd vm \<Rightarrow> (u64 \<times> 'd vm) res" where
  "kalloc_user_loop h so p va 0 s = Inr (0, s)"
| "kalloc_user_loop h so p va (Suc n) s =
     (let need_evict = (user_frame_count (fr s) \<ge> int MAX_FRAMES \<or> \<not> has_free_frame_slot (fr s))
      in rbind (if need_evict then evict_one_user_frame h so s else Inr (0, s))
           (\<lambda>(e, s1).
              if e < 0 then Inr (0, s1)
              else if freelist (km s1) = 0
              then if \<not> user_frame_count (fr s1) > 0 then Inr (0, s1)
                   else rbind (evict_one_user_frame h so s1)
                          (\<lambda>(e, s2). if e < 0 then Inr (0, s2) else kalloc_user_loop h so p va n s2)
              else let r = freelist (km s1);
                       m = set_page r (replicate page_bytes 0) ((km s1)\<lparr>freelist := get64 (pm (km s1) r) 0\<rparr>)
                   in (case register_user_frame p va (fr s1) of
                         (c, f) \<Rightarrow>
                           if c = 0 then Inr (r, s1\<lparr>km := m, fr := f\<rparr>)
                           else rbind (kfree h r m)
                                  (\<lambda>m2. rbind (evict_one_user_frame h so (s1\<lparr>km := m2, fr := f\<rparr>))
                                     (\<lambda>(e, s2). if e < 0 then Inr (0, s2) else kalloc_user_loop h so p va n s2)))))"

definition kalloc_user :: "riscv_h \<Rightarrow> 'd swap_ops \<Rightarrow> nat \<Rightarrow> u64 \<Rightarrow> 'd vm \<Rightarrow> (u64 \<times> 'd vm) res" where
  "kalloc_user h so p va s = kalloc_user_loop h so p va 2 s"


section \<open>What a process sees\<close>

definition user_pte :: "riscv_h \<Rightarrow> u64 \<Rightarrow> bool" where
  "user_pte h e \<longleftrightarrow> e AND PTE_V h \<noteq> 0 \<and> e AND PTE_U h \<noteq> 0"

abbreviation pte_of :: "riscv_h \<Rightarrow> 'd vm \<Rightarrow> nat \<Rightarrow> u64 \<Rightarrow> u64" where
  "pte_of h s p va \<equiv> pte_at h (km s) (pagetable (proc_at s p)) va"

definition upage :: "riscv_h \<Rightarrow> ('d \<Rightarrow> nat \<Rightarrow> u8 list) \<Rightarrow> 'd vm \<Rightarrow> nat \<Rightarrow> u64 \<Rightarrow> u8 list option" where
  "upage h slot_data s p va =
     (if user_pte h (pte_of h s p va) then Some (pm (km s) (PTE2PA h (pte_of h s p va)))
      else map_option (slot_data (swp s)) (find_swap p va (fr s)))"

text \<open>The pages of the user part of live address spaces.\<close>

definition uaddr :: "riscv_h \<Rightarrow> 'd vm \<Rightarrow> nat \<Rightarrow> u64 \<Rightarrow> bool" where
  "uaddr h s p va \<longleftrightarrow> p < nproc (sch s) \<and> pagetable (proc_at s p) \<noteq> 0 \<and> page_aligned va \<and> va < MAXVA h"

text \<open>The counters of a process are not part of what it depends on.\<close>

definition forget_stats :: "proc \<Rightarrow> proc" where
  "forget_stats p = p\<lparr>page_faults := 0, pages_evicted := 0, pages_swapped_in := 0, pages_swapped_out := 0, resident_pages := 0\<rparr>"

definition same_procs :: "sched \<Rightarrow> sched \<Rightarrow> bool" where
  "same_procs s s' \<longleftrightarrow> map forget_stats (procs s') = map forget_stats (procs s) \<and> s'\<lparr>procs := []\<rparr> = s\<lparr>procs := []\<rparr>"

lemma same_procs_refl [simp]: "same_procs s s"
  by (simp add: same_procs_def)

lemma same_procs_trans: "same_procs s t \<Longrightarrow> same_procs t u \<Longrightarrow> same_procs s u"
  by (simp add: same_procs_def)

lemma same_procs_upd:
  assumes "\<And>p. forget_stats (g p) = forget_stats p"
  shows "same_procs s (upd_proc i g s)"
proof -
  have "map forget_stats ((procs s)[i := g (procs s ! i)]) = map forget_stats (procs s)"
    using assms by (cases "i < length (procs s)") (auto simp: nth_list_update intro!: nth_equalityI)
  then show ?thesis by (simp add: same_procs_def upd_proc_def)
qed

lemma same_procs_nth:
  assumes "same_procs s s'"
  shows "nproc s' = nproc s"
    and "i < nproc s \<Longrightarrow> pagetable (procs s' ! i) = pagetable (procs s ! i) \<and> plevel (procs s' ! i) = plevel (procs s ! i)
       \<and> psz (procs s' ! i) = psz (procs s ! i)"
proof -
  have eq: "map forget_stats (procs s') = map forget_stats (procs s)" using assms by (simp add: same_procs_def)
  then show n: "nproc s' = nproc s" using map_eq_imp_length_eq by blast
  assume i: "i < nproc s"
  have "map forget_stats (procs s') ! i = map forget_stats (procs s) ! i" by (simp only: eq)
  then have e: "forget_stats (procs s' ! i) = forget_stats (procs s ! i)" using i n by simp
  show "pagetable (procs s' ! i) = pagetable (procs s ! i) \<and> plevel (procs s' ! i) = plevel (procs s ! i)
       \<and> psz (procs s' ! i) = psz (procs s ! i)"
    using arg_cong [OF e, of pagetable] arg_cong [OF e, of plevel] arg_cong [OF e, of psz] by (simp add: forget_stats_def)
qed

text \<open>
  The invariant of the memory of user processes. \<open>own\<close> gives the roles of the pages and \<open>xs\<close> the free pages; live address
  spaces have their own page tables, tracked frames and swap entries name pages of live processes, and a page with a swap entry is not resident.
\<close>

definition vm_ok :: "riscv_h \<Rightarrow> ('d \<Rightarrow> bool) \<Rightarrow> (u64 \<Rightarrow> role) \<Rightarrow> u64 list \<Rightarrow> 'd vm \<Rightarrow> bool" where
  "vm_ok h rinv own xs s \<longleftrightarrow>
     mem_ok h own xs (km s) \<and> frames_ok (fr s) \<and> rinv (swp s)
   \<and> (\<forall>p < nproc (sch s). 0 \<le> plevel (proc_at s p) \<and> plevel (proc_at s p) \<le> 3)
   \<and> (\<forall>p < nproc (sch s). pagetable (proc_at s p) \<noteq> 0 \<longrightarrow> own (pagetable (proc_at s p)) = Table (pagetable (proc_at s p)) [])
   \<and> (\<forall>p q. p < nproc (sch s) \<and> q < nproc (sch s) \<and> pagetable (proc_at s p) \<noteq> 0
        \<and> pagetable (proc_at s p) = pagetable (proc_at s q) \<longrightarrow> p = q)
   \<and> (\<forall>i p. tracked (fr s) i \<and> fproc (frame_table (fr s) ! i) = Some p \<longrightarrow>
        p < nproc (sch s) \<and> page_aligned (fva (frame_table (fr s) ! i)) \<and> fva (frame_table (fr s) ! i) < MAXVA h
      \<and> (pagetable (proc_at s p) \<noteq> 0 \<and> pte_of h s p (fva (frame_table (fr s) ! i)) AND PTE_V h \<noteq> 0 \<longrightarrow>
           pte_of h s p (fva (frame_table (fr s) ! i)) AND PTE_U h \<noteq> 0))
   \<and> (\<forall>p va k. find_swap p va (fr s) = Some k \<longrightarrow> uaddr h s p va \<and> pte_of h s p va AND PTE_V h = 0)"

lemma vm_okD:
  assumes "vm_ok h rinv own xs s"
  shows "mem_ok h own xs (km s)" "frames_ok (fr s)" "rinv (swp s)"
    "p < nproc (sch s) \<Longrightarrow> 0 \<le> plevel (proc_at s p) \<and> plevel (proc_at s p) \<le> 3"
    "p < nproc (sch s) \<Longrightarrow> pagetable (proc_at s p) \<noteq> 0 \<Longrightarrow> own (pagetable (proc_at s p)) = Table (pagetable (proc_at s p)) []"
    "p < nproc (sch s) \<Longrightarrow> q < nproc (sch s) \<Longrightarrow> pagetable (proc_at s p) \<noteq> 0 \<Longrightarrow>
       pagetable (proc_at s p) = pagetable (proc_at s q) \<Longrightarrow> p = q"
    "tracked (fr s) i \<Longrightarrow> fproc (frame_table (fr s) ! i) = Some p \<Longrightarrow>
        p < nproc (sch s) \<and> page_aligned (fva (frame_table (fr s) ! i)) \<and> fva (frame_table (fr s) ! i) < MAXVA h
      \<and> (pagetable (proc_at s p) \<noteq> 0 \<and> pte_of h s p (fva (frame_table (fr s) ! i)) AND PTE_V h \<noteq> 0 \<longrightarrow>
           pte_of h s p (fva (frame_table (fr s) ! i)) AND PTE_U h \<noteq> 0)"
    "find_swap p va (fr s) = Some k \<Longrightarrow> uaddr h s p va \<and> pte_of h s p va AND PTE_V h = 0"
  using assms unfolding vm_ok_def by blast+

lemma vm_okI:
  assumes "mem_ok h own xs (km s)" "frames_ok (fr s)" "rinv (swp s)"
    "\<And>p. p < nproc (sch s) \<Longrightarrow> 0 \<le> plevel (proc_at s p) \<and> plevel (proc_at s p) \<le> 3"
    "\<And>p. p < nproc (sch s) \<Longrightarrow> pagetable (proc_at s p) \<noteq> 0 \<Longrightarrow> own (pagetable (proc_at s p)) = Table (pagetable (proc_at s p)) []"
    "\<And>p q. p < nproc (sch s) \<Longrightarrow> q < nproc (sch s) \<Longrightarrow> pagetable (proc_at s p) \<noteq> 0 \<Longrightarrow>
       pagetable (proc_at s p) = pagetable (proc_at s q) \<Longrightarrow> p = q"
    "\<And>i p. tracked (fr s) i \<Longrightarrow> fproc (frame_table (fr s) ! i) = Some p \<Longrightarrow>
        p < nproc (sch s) \<and> page_aligned (fva (frame_table (fr s) ! i)) \<and> fva (frame_table (fr s) ! i) < MAXVA h
      \<and> (pagetable (proc_at s p) \<noteq> 0 \<and> pte_of h s p (fva (frame_table (fr s) ! i)) AND PTE_V h \<noteq> 0 \<longrightarrow>
           pte_of h s p (fva (frame_table (fr s) ! i)) AND PTE_U h \<noteq> 0)"
    "\<And>p va k. find_swap p va (fr s) = Some k \<Longrightarrow> uaddr h s p va \<and> pte_of h s p va AND PTE_V h = 0"
  shows "vm_ok h rinv own xs s"
  unfolding vm_ok_def using assms by blast

text \<open>What an operation on memory may change: nothing that a process sees, and of the processes only counters.\<close>

definition same_view :: "riscv_h \<Rightarrow> ('d \<Rightarrow> nat \<Rightarrow> u8 list) \<Rightarrow> 'd vm \<Rightarrow> 'd vm \<Rightarrow> bool" where
  "same_view h slot_data s s' \<longleftrightarrow>
     same_procs (sch s) (sch s') \<and> (\<forall>p va. uaddr h s p va \<longrightarrow> upage h slot_data s' p va = upage h slot_data s p va)"

lemma same_view_refl [simp]: "same_view h sd s s"
  by (simp add: same_view_def)

lemma uaddr_same: "same_procs (sch s) (sch s') \<Longrightarrow> uaddr h s' p va = uaddr h s p va"
  using same_procs_nth [of "sch s" "sch s'"] by (auto simp: uaddr_def)

lemma same_view_trans:
  assumes "same_view h sd s t" "same_view h sd t u"
  shows "same_view h sd s u"
proof -
  have "uaddr h t p va = uaddr h s p va" for p va using assms(1) by (intro uaddr_same) (simp add: same_view_def)
  then show ?thesis using assms same_procs_trans unfolding same_view_def by metis
qed

text \<open>
  An operation has kept the invariant and the view; pages that were not resident still are not, with their swap entries, and
  the pages of the kernel are untouched.
\<close>

definition paged ::
  "riscv_h \<Rightarrow> ('d \<Rightarrow> nat \<Rightarrow> u8 list) \<Rightarrow> ('d \<Rightarrow> bool) \<Rightarrow> (u64 \<Rightarrow> role) \<Rightarrow> 'd vm \<Rightarrow> (u64 \<Rightarrow> role) \<Rightarrow> u64 list \<Rightarrow> 'd vm \<Rightarrow> bool" where
  "paged h slot_data rinv own s own' xs' s' \<longleftrightarrow>
     vm_ok h rinv own' xs' s' \<and> same_view h slot_data s s'
   \<and> (\<forall>p va. uaddr h s p va \<and> pte_of h s p va AND PTE_V h = 0 \<longrightarrow>
        pte_of h s' p va AND PTE_V h = 0 \<and> find_swap p va (fr s') = find_swap p va (fr s))
   \<and> (\<forall>a. own a = Kernel \<longrightarrow> own' a = Kernel \<and> pm (km s') a = pm (km s) a)"

lemma paged_refl: "vm_ok h rinv own xs s \<Longrightarrow> paged h sd rinv own s own xs s"
  by (simp add: paged_def)

lemma paged_trans:
  assumes "paged h sd rinv own s own1 xs1 s1" "paged h sd rinv own1 s1 own2 xs2 s2"
  shows "paged h sd rinv own s own2 xs2 s2"
proof -
  have "uaddr h s1 p va = uaddr h s p va" for p va using assms(1) by (intro uaddr_same) (simp add: paged_def same_view_def)
  then show ?thesis using assms same_view_trans [of h sd s s1 s2] unfolding paged_def by simp
qed

text \<open>Frames are released or marked, nothing else.\<close>

lemma vm_ok_frames:
  assumes ok: "vm_ok h rinv own xs s" and g: "frames_ok g" "swap_map g = swap_map (fr s)"
    and t: "\<And>i. tracked g i \<Longrightarrow> tracked (fr s) i \<and> fproc (frame_table g ! i) = fproc (frame_table (fr s) ! i)
       \<and> fva (frame_table g ! i) = fva (frame_table (fr s) ! i)"
  shows "paged h sd rinv own s own xs (s\<lparr>fr := g\<rparr>)"
proof -
  have fs: "find_swap p va g = find_swap p va (fr s)" for p va using g(2) by (rule find_swap_same)
  have "same_view h sd s (s\<lparr>fr := g\<rparr>)" by (simp add: same_view_def upage_def fs)
  moreover have "vm_ok h rinv own xs (s\<lparr>fr := g\<rparr>)"
  proof (rule vm_okI)
    show "mem_ok h own xs (km (s\<lparr>fr := g\<rparr>))" "rinv (swp (s\<lparr>fr := g\<rparr>))" using vm_okD(1,3) [OF ok] by simp_all
    show "frames_ok (fr (s\<lparr>fr := g\<rparr>))" using g(1) by simp
  next
    fix i p
    assume "tracked (fr (s\<lparr>fr := g\<rparr>)) i" "fproc (frame_table (fr (s\<lparr>fr := g\<rparr>)) ! i) = Some p"
    then show "p < nproc (sch (s\<lparr>fr := g\<rparr>)) \<and> page_aligned (fva (frame_table (fr (s\<lparr>fr := g\<rparr>)) ! i))
      \<and> fva (frame_table (fr (s\<lparr>fr := g\<rparr>)) ! i) < MAXVA h
      \<and> (pagetable (proc_at (s\<lparr>fr := g\<rparr>) p) \<noteq> 0 \<and> pte_of h (s\<lparr>fr := g\<rparr>) p (fva (frame_table (fr (s\<lparr>fr := g\<rparr>)) ! i)) AND PTE_V h \<noteq> 0 \<longrightarrow>
           pte_of h (s\<lparr>fr := g\<rparr>) p (fva (frame_table (fr (s\<lparr>fr := g\<rparr>)) ! i)) AND PTE_U h \<noteq> 0)"
      using vm_okD(7) [OF ok, of i p] t [of i] by simp
  next
    fix p va k
    assume "find_swap p va (fr (s\<lparr>fr := g\<rparr>)) = Some k"
    then show "uaddr h (s\<lparr>fr := g\<rparr>) p va \<and> pte_of h (s\<lparr>fr := g\<rparr>) p va AND PTE_V h = 0"
      using vm_okD(8) [OF ok, of p va k] by (simp add: fs uaddr_def)
  qed (use vm_okD(4,5,6) [OF ok] in simp_all)
  ultimately show ?thesis by (simp add: paged_def fs)
qed


section \<open>Eviction\<close>

text \<open>The frame table in the branches of an eviction: the victim restored, dropped, or swapped out.\<close>

abbreviation hide_frame :: "frame \<Rightarrow> frame" where
  "hide_frame x \<equiv> x\<lparr>user_frame := False, fproc := None, fva := 0, ref_bit := False\<rparr>"

lemma evict_frames:
  assumes f: "frames_ok f" "tracked f v"
  defines "x \<equiv> frame_table f ! v"
  shows "restore_victim_frame v (fproc x) (fva x) (upd_frame v hide_frame f) = upd_frame v (\<lambda>x. x\<lparr>ref_bit := True\<rparr>) f"
    and "reserve_slot (upd_frame v hide_frame f) = None \<longleftrightarrow> (\<forall>k < MAX_SWAP_PAGES. swap_used f ! k)"
    and "reserve_slot (upd_frame v hide_frame f) = Some (k, g) \<Longrightarrow>
      k < MAX_SWAP_PAGES \<and> \<not> swap_used f ! k \<and> drop_victim v k g = without_frame v f
        \<and> evict_commit v k p va g = without_frame v (with_swap k p va f)"
proof -
  have v: "v < length (frame_table f)" "fused x" "user_frame x" using f(2) by (simp_all add: tracked_def x_def)
  have "\<lparr>fused = True, user_frame = True, fproc = fproc x, fva = fva x, ref_bit = True\<rparr> = x\<lparr>ref_bit := True\<rparr>"
    using v by (cases x) simp
  then show "restore_victim_frame v (fproc x) (fva x) (upd_frame v hide_frame f) = upd_frame v (\<lambda>x. x\<lparr>ref_bit := True\<rparr>) f"
    by (simp add: restore_victim_frame_def upd_frame_def x_def)
  have len: "length (swap_used f) = MAX_SWAP_PAGES" using f(1) by (simp add: frames_ok_def)
  show "reserve_slot (upd_frame v hide_frame f) = None \<longleftrightarrow> (\<forall>k < MAX_SWAP_PAGES. swap_used f ! k)"
  proof -
    have "reserve_slot (upd_frame v hide_frame f) = None \<longleftrightarrow> find_idx Not (swap_used f) = None"
      by (simp add: reserve_slot_def upd_frame_def split: option.split)
    then show ?thesis using len by (simp add: find_idx_None_iff all_set_conv_all_nth)
  qed
  assume r: "reserve_slot (upd_frame v hide_frame f) = Some (k, g)"
  have k: "k < MAX_SWAP_PAGES" "\<not> swap_used f ! k" "g = (upd_frame v hide_frame f)\<lparr>swap_used := (swap_used f)[k := True]\<rparr>"
    using reserve_slot_Some [OF r] len by (simp_all add: upd_frame_def)
  have "(swap_used f)[k := False] = swap_used f" using k(2) list_update_id [of "swap_used f" k] by simp
  moreover have "x\<lparr>user_frame := False, fproc := None, fva := 0, ref_bit := False, fused := False\<rparr> = no_frame"
    by (cases x) (simp add: no_frame_def)
  ultimately show "k < MAX_SWAP_PAGES \<and> \<not> swap_used f ! k \<and> drop_victim v k g = without_frame v f
        \<and> evict_commit v k p va g = without_frame v (with_swap k p va f)"
    using k len v(1) without_frame_ok(2) [OF f]
    by (simp add: drop_victim_def evict_commit_def dec_frame_count_def upd_frame_def without_frame_def with_swap_def x_def)
qed

locale user_paging = sv39 h + swap_device sread swrite slot_data rinv
  for h :: riscv_h and sread :: "int \<Rightarrow> 'd \<Rightarrow> (int \<times> u8 list \<times> 'd) res" and swrite :: "int \<Rightarrow> u8 list \<Rightarrow> 'd \<Rightarrow> (int \<times> 'd) res"
    and slot_data :: "'d \<Rightarrow> nat \<Rightarrow> u8 list" and rinv :: "'d \<Rightarrow> bool"
begin

abbreviation so :: "'d swap_ops" where
  "so \<equiv> \<lparr>sw_read = sread, sw_write = swrite\<rparr>"

lemma user_pte_frame:
  assumes "mem_ok h own xs m" "own pt = Table pt []" "user_pte h (pte_at h m pt va)"
  shows "own (PTE2PA h (pte_at h m pt va)) = Frame pt (path_of h va)"
proof -
  obtain q where q: "leaf_slot h m pt va = Some q" "pte_at h m pt va = pte_val m q"
    using assms(3) by (cases "leaf_slot h m pt va") (auto simp: pte_at_def user_pte_def)
  note o = leaf_slot_owner [OF assms(1,2) q(1)]
  from mem_okD(6) [OF assms(1) o(1), of "snd q"] assms(3) o(2) px_less [of 0 va] show ?thesis
    by (cases q) (simp add: entry_ok_def user_pte_def q(2) path_of_def)
qed

lemma path_of_inj:
  assumes "page_aligned va" "page_aligned va'" "va < MAXVA h" "va' < MAXVA h" "path_of h va = path_of h va'"
  shows "va = va'"
  using px_inj [OF assms(1-4)] assms(5) by (simp add: path_of_def)

text \<open>The entry of a user page is cleared and its frame freed.\<close>

lemma unmap_free:
  assumes ok: "mem_ok h own xs m" and pt: "own pt = Table pt []" and q: "leaf_slot h m pt va = Some q"
    and user: "user_pte h (pte_at h m pt va)" and va: "page_aligned va" "va < MAXVA h"
    and pa: "pa = PTE2PA h (pte_at h m pt va)"
  shows "pm (set_pte q 0 m) pa = pm m pa"
    and "\<exists>m'. kfree h pa (set_pte q 0 m) = Inr m' \<and> mem_ok h (own(pa := Free)) (pa # xs) m'
       \<and> (\<forall>pt' va'. own pt' = Table pt' [] \<and> page_aligned va' \<and> va' < MAXVA h \<longrightarrow>
            pte_at h m' pt' va' = (if pt' = pt \<and> va' = va then 0 else pte_at h m pt' va'))
       \<and> (\<forall>b. (\<forall>r p. own b \<noteq> Table r p) \<and> b \<noteq> pa \<longrightarrow> pm m' b = pm m b)"
proof -
  note o = leaf_slot_owner [OF ok pt q]
  have fr: "own pa = Frame pt (path_of h va)" using user_pte_frame [OF ok pt user] pa by simp
  note sl = set_leaf [OF ok pt q _ va, of 0]
  have e0: "mem_ok h own xs (set_pte q 0 m)" by (rule sl(1)) simp
  have keep: "pm (set_pte q 0 m) b = pm m b" if "\<forall>r p. own b \<noteq> Table r p" for b
    using o(1) that by (intro set_pte_sel(2)) auto
  show "pm (set_pte q 0 m) pa = pm m pa" using fr by (intro keep) simp
  have "pte_val (set_pte q 0 m) (b, i) AND PTE_V h = 0"
    if b: "own b = Table r p" and f: "own pa = Frame r (p @ [i])" and i: "i < 512" for b r p i
  proof -
    from f fr have "r = pt" "p = [PX h 2 va, PX h 1 va]" "i = PX h 0 va" by (auto simp: path_of_def)
    with b o have "b = fst q" "i = snd q" using table_unique [OF ok] by auto
    then show ?thesis using pte_val_set_pte [of m "fst q" i i 0 b] mem_okD(4) [OF ok, of b] b i by simp
  qed
  then obtain m' where m': "kfree h pa (set_pte q 0 m) = Inr m'" "mem_ok h (own(pa := Free)) (pa # xs) m'"
    "\<forall>b. b \<noteq> pa \<longrightarrow> pm m' b = pm (set_pte q 0 m) b"
    "\<forall>pt va. own pt = Table pt [] \<longrightarrow> pte_at h m' pt va = pte_at h (set_pte q 0 m) pt va"
    using give_page [OF e0, of pa] fr by blast
  moreover have "pte_at h m' pt' va' = (if pt' = pt \<and> va' = va then 0 else pte_at h m pt' va')"
    if "own pt' = Table pt' []" "page_aligned va'" "va' < MAXVA h" for pt' va'
    using m'(4) that sl(3) [OF _ that] by simp
  moreover have "pm m' b = pm m b" if "\<forall>r p. own b \<noteq> Table r p" "b \<noteq> pa" for b using m'(3) keep [OF that(1)] that(2) by simp
  ultimately show "\<exists>m'. kfree h pa (set_pte q 0 m) = Inr m' \<and> mem_ok h (own(pa := Free)) (pa # xs) m'
       \<and> (\<forall>pt' va'. own pt' = Table pt' [] \<and> page_aligned va' \<and> va' < MAXVA h \<longrightarrow>
            pte_at h m' pt' va' = (if pt' = pt \<and> va' = va then 0 else pte_at h m pt' va'))
       \<and> (\<forall>b. (\<forall>r p. own b \<noteq> Table r p) \<and> b \<noteq> pa \<longrightarrow> pm m' b = pm m b)"
    by blast
qed

text \<open>A resident page of a process has moved to a free slot.\<close>

lemma moved_to_swap:
  assumes ok: "vm_ok h rinv own xs s" and p: "uaddr h s p va" and user: "user_pte h (pte_of h s p va)"
    and pa: "pa = PTE2PA h (pte_of h s p va)"
    and m': "mem_ok h (own(pa := Free)) (pa # xs) m'"
      "\<forall>pt' va'. own pt' = Table pt' [] \<and> page_aligned va' \<and> va' < MAXVA h \<longrightarrow>
         pte_at h m' pt' va' = (if pt' = pagetable (proc_at s p) \<and> va' = va then 0 else pte_at h (km s) pt' va')"
      "\<forall>b. (\<forall>r p. own b \<noteq> Table r p) \<and> b \<noteq> pa \<longrightarrow> pm m' b = pm (km s) b"
    and d: "rinv d" "\<forall>k' < MAX_SWAP_PAGES. slot_data d k' = (if k' = k then pm (km s) pa else slot_data (swp s) k')"
    and g: "frames_ok g" "\<And>p' va'. find_swap p' va' g = (if p' = p \<and> va' = va then Some k else find_swap p' va' (fr s))"
      "\<And>i. tracked g i \<Longrightarrow> tracked (fr s) i \<and> fproc (frame_table g ! i) = fproc (frame_table (fr s) ! i)
         \<and> fva (frame_table g ! i) = fva (frame_table (fr s) ! i)"
    and k: "k < MAX_SWAP_PAGES" "\<not> sused (swap_map (fr s) ! k)"
    and sc: "same_procs (sch s) sc"
    and s': "s' = s\<lparr>km := m', swp := d, fr := g, sch := sc\<rparr>"
  shows "paged h slot_data rinv own s (own(pa := Free)) (pa # xs) s'"
proof -
  let ?pt = "pagetable (proc_at s p)"
  note sp = same_procs_nth [OF sc]
  note root = vm_okD(5) [OF ok]
  have pt: "own ?pt = Table ?pt []" using p root by (simp add: uaddr_def)
  have fr: "own pa = Frame ?pt (path_of h va)" using user_pte_frame [OF vm_okD(1) [OF ok] pt user] pa by simp
  have pg: "pagetable (procs sc ! p') = pagetable (proc_at s p')" if "p' < nproc (sch s)" for p' using sp that by simp
  have pte: "pte_of h s' p' va' = (if p' = p \<and> va' = va then 0 else pte_of h s p' va')" if "uaddr h s p' va'" for p' va'
  proof -
    have "own (pagetable (proc_at s p')) = Table (pagetable (proc_at s p')) []" "page_aligned va'" "va' < MAXVA h" "p' < nproc (sch s)"
      using that root by (simp_all add: uaddr_def)
    moreover have "pagetable (proc_at s p') = ?pt \<longleftrightarrow> p' = p" using vm_okD(6) [OF ok, of p' p] that p by (auto simp: uaddr_def)
    ultimately show ?thesis using m'(2) pg by (simp add: s')
  qed
  have ua: "uaddr h s' p' va' = uaddr h s p' va'" for p' va' using sc by (intro uaddr_same) (simp add: s')
  have "same_view h slot_data s s'"
    unfolding same_view_def
  proof (intro conjI allI impI)
    show "same_procs (sch s) (sch s')" using sc by (simp add: s')
    fix p' va'
    assume u: "uaddr h s p' va'"
    show "upage h slot_data s' p' va' = upage h slot_data s p' va'"
    proof (cases "p' = p \<and> va' = va")
      case True
      then have "upage h slot_data s' p' va' = map_option (slot_data d) (find_swap p va g)"
        using pte [OF u] by (simp add: upage_def user_pte_def s')
      also have "\<dots> = Some (pm (km s) pa)" using g(2) d(2) k by simp
      finally show ?thesis using True user pa by (simp add: upage_def)
    next
      case False
      show ?thesis
      proof (cases "user_pte h (pte_of h s p' va')")
        case True
        have pt': "own (pagetable (proc_at s p')) = Table (pagetable (proc_at s p')) []" using u root by (simp add: uaddr_def)
        note f' = user_pte_frame [OF vm_okD(1) [OF ok] pt' True]
        have "PTE2PA h (pte_of h s p' va') \<noteq> pa"
        proof
          assume "PTE2PA h (pte_of h s p' va') = pa"
          with f' fr have "pagetable (proc_at s p') = ?pt" "path_of h va' = path_of h va" by auto
          then have "p' = p" "va' = va" using vm_okD(6) [OF ok, of p' p] path_of_inj [of va' va] u p by (auto simp: uaddr_def)
          with False show False by simp
        qed
        then have "pm m' (PTE2PA h (pte_of h s p' va')) = pm (km s) (PTE2PA h (pte_of h s p' va'))" using m'(3) f' by simp
        then show ?thesis using pte [OF u] False True by (simp add: upage_def s')
      next
        case nu: False
        have "k' \<noteq> k \<and> k' < MAX_SWAP_PAGES" if "find_swap p' va' (fr s) = Some k'" for k'
          using find_swap_Some [OF vm_okD(2) [OF ok]] that k by auto
        then have "map_option (slot_data d) (find_swap p' va' g) = map_option (slot_data (swp s)) (find_swap p' va' (fr s))"
          using g(2) d(2) False by (cases "find_swap p' va' (fr s)") auto
        then show ?thesis using pte [OF u] False nu by (simp add: upage_def s')
      qed
    qed
  qed
  moreover have "vm_ok h rinv (own(pa := Free)) (pa # xs) s'"
  proof (rule vm_okI)
    show "mem_ok h (own(pa := Free)) (pa # xs) (km s')" "frames_ok (fr s')" "rinv (swp s')" using m'(1) g(1) d(1) by (simp_all add: s')
    show "0 \<le> plevel (proc_at s' p') \<and> plevel (proc_at s' p') \<le> 3" if "p' < nproc (sch s')" for p'
      using vm_okD(4) [OF ok, of p'] sp that by (simp add: s')
    show "(own(pa := Free)) (pagetable (proc_at s' p')) = Table (pagetable (proc_at s' p')) []"
      if "p' < nproc (sch s')" "pagetable (proc_at s' p') \<noteq> 0" for p'
      using root [of p'] sp that fr by (auto simp: s')
    show "p' = q'" if "p' < nproc (sch s')" "q' < nproc (sch s')" "pagetable (proc_at s' p') \<noteq> 0"
      "pagetable (proc_at s' p') = pagetable (proc_at s' q')" for p' q'
      using vm_okD(6) [OF ok, of p' q'] sp that by (simp add: s')
  next
    fix i p'
    assume i: "tracked (fr s') i" "fproc (frame_table (fr s') ! i) = Some p'"
    then have i': "tracked (fr s) i" "fproc (frame_table (fr s) ! i) = Some p'" "fva (frame_table g ! i) = fva (frame_table (fr s) ! i)"
      using g(3) [of i] by (simp_all add: s')
    let ?a = "fva (frame_table (fr s) ! i)"
    note v = vm_okD(7) [OF ok i'(1,2)]
    have "pte_of h s' p' ?a AND PTE_U h \<noteq> 0" if "pagetable (proc_at s' p') \<noteq> 0" "pte_of h s' p' ?a AND PTE_V h \<noteq> 0"
    proof -
      have "uaddr h s p' ?a" using v that(1) sp by (simp add: uaddr_def s')
      with pte [OF this] v that show ?thesis by (auto simp: uaddr_def split: if_splits)
    qed
    with v i'(3) show "p' < nproc (sch s') \<and> page_aligned (fva (frame_table (fr s') ! i)) \<and> fva (frame_table (fr s') ! i) < MAXVA h
      \<and> (pagetable (proc_at s' p') \<noteq> 0 \<and> pte_of h s' p' (fva (frame_table (fr s') ! i)) AND PTE_V h \<noteq> 0 \<longrightarrow> pte_of h s' p' (fva (frame_table (fr s') ! i)) AND PTE_U h \<noteq> 0)"
      using sp by (simp add: s')
  next
    fix p' va' k'
    assume "find_swap p' va' (fr s') = Some k'"
    then have f: "find_swap p' va' g = Some k'" by (simp add: s')
    have "uaddr h s p' va' \<and> (p' = p \<and> va' = va \<or> pte_of h s p' va' AND PTE_V h = 0)"
      using f g(2) [of p' va'] vm_okD(8) [OF ok, of p' va' k'] p by (cases "p' = p \<and> va' = va") auto
    then show "uaddr h s' p' va' \<and> pte_of h s' p' va' AND PTE_V h = 0" using pte [of p' va'] ua by auto
  qed
  moreover have "pte_of h s' p' va' AND PTE_V h = 0 \<and> find_swap p' va' (fr s') = find_swap p' va' (fr s)"
    if "uaddr h s p' va'" "pte_of h s p' va' AND PTE_V h = 0" for p' va'
    using pte [OF that(1)] that(2) user g(2) [of p' va'] by (auto simp: s' user_pte_def)
  moreover have "(own(pa := Free)) a = Kernel \<and> pm (km s') a = pm (km s) a" if "own a = Kernel" for a
    using that fr m'(3) by (auto simp: s')
  ultimately show ?thesis by (simp add: paged_def)
qed

abbreviation swap_full :: "'d vm \<Rightarrow> bool" where
  "swap_full s \<equiv> \<forall>k < MAX_SWAP_PAGES. swap_used (fr s) ! k"

lemma evict_attempt_spec:
  assumes ok: "vm_ok h rinv own xs s"
  shows "\<exists>res s'. evict_attempt h so s = Inr (res, s') \<and>
    (case res of
       None \<Rightarrow> paged h slot_data rinv own s own xs s' \<and> user_frame_count (fr s') = user_frame_count (fr s) - 1
     | Some v \<Rightarrow> (if v = 0 then \<exists>pa. paged h slot_data rinv own s (own(pa := Free)) (pa # xs) s' \<and> user_frame_count (fr s') = user_frame_count (fr s) - 1
                  else v = -1 \<and> paged h slot_data rinv own s own xs s' \<and> (user_frame_count (fr s') = 0 \<or> swap_full s')))"
proof -
  note fok = vm_okD(2) [OF ok]
  obtain v f where sel: "select_victim_frame (\<lambda>p. plevel (proc_at s p)) (fr s) = (v, f)" by fastforce
  have "0 \<le> owner_level (\<lambda>p. plevel (proc_at s p)) (fr s) i \<and> owner_level (\<lambda>p. plevel (proc_at s p)) (fr s) i \<le> 3"
    if "tracked (fr s) i" for i
    using vm_okD(7) [OF ok that] vm_okD(4) [OF ok] by (auto simp: owner_level_def split: option.split)
  with fok have "same_frames (fr s) f \<and> clock_hand f < MAX_FRAMES
     \<and> (case v of None \<Rightarrow> \<forall>i. \<not> tracked (fr s) i | Some i \<Rightarrow> tracked (fr s) i)"
    using select_victim_spec [OF _ _ _ sel] by (auto simp: frames_ok_def split: option.splits)
  then have same: "same_frames (fr s) f" and f: "frames_ok f"
    and v: "case v of None \<Rightarrow> \<forall>i. \<not> tracked (fr s) i | Some i \<Rightarrow> tracked (fr s) i"
    using frames_ok_same [OF fok] by auto
  note sf = same_frames_facts(1) [OF same] and sn = same_frames_nth [OF same]
  have sm: "swap_map f = swap_map (fr s)" "swap_used f = swap_used (fr s)" "user_frame_count f = user_frame_count (fr s)"
    using same by (simp_all add: same_frames_def)
  have fields: "fproc (frame_table f ! i) = fproc (frame_table (fr s) ! i) \<and> fva (frame_table f ! i) = fva (frame_table (fr s) ! i)"
    if "tracked (fr s) i" for i using sn(2) [of i] that by (simp add: tracked_def)
  have pf: "paged h slot_data rinv own s own xs (s\<lparr>fr := f\<rparr>)"
    using vm_ok_frames [OF ok f sm(1)] sf fields by simp
  show ?thesis
  proof (cases v)
    case None
    have "user_frame_count f = 0"
    proof -
      have "\<not> fused x" if "x \<in> set (frame_table (fr s))" for x
      proof -
        from that obtain i where "i < length (frame_table (fr s))" "x = frame_table (fr s) ! i" by (metis in_set_conv_nth)
        then show ?thesis using v None tracked_used [OF fok, of i] fok by (simp add: frames_ok_def)
      qed
      then have "filter fused (frame_table (fr s)) = []" by (simp add: filter_empty_conv)
      then show ?thesis using fok sm(3) by (simp add: frames_ok_def)
    qed
    then show ?thesis using sel None pf by (simp add: evict_attempt_def)
  next
    case (Some i)
    then have ti: "tracked (fr s) i" "tracked f i" using v sf by simp_all
    define x where "x = frame_table f ! i"
    note ev = evict_frames [OF f ti(2), folded x_def]
    obtain p where p: "fproc x = Some p"
      using f ti(2) by (auto simp: frames_ok_def tracked_def x_def)
    have pf': "fproc (frame_table (fr s) ! i) = Some p" "fva (frame_table (fr s) ! i) = fva x" using fields [OF ti(1)] p by (simp_all add: x_def)
    note tr = vm_okD(7) [OF ok ti(1) pf'(1), unfolded pf'(2)]
    show ?thesis
    proof (cases "reserve_slot (upd_frame i hide_frame f)")
      case None
      have "same_frames (fr s) (upd_frame i (\<lambda>x. x\<lparr>ref_bit := True\<rparr>) f)" using same_frames_trans [OF same same_frames_ref] .
      note s2 = same_frames_facts(1) [OF this] same_frames_nth [OF this]
      have "frames_ok (upd_frame i (\<lambda>x. x\<lparr>ref_bit := True\<rparr>) f)"
        using frames_ok_same [OF f same_frames_ref] f by (simp add: upd_frame_def frames_ok_def)
      then have "paged h slot_data rinv own s own xs (s\<lparr>fr := upd_frame i (\<lambda>x. x\<lparr>ref_bit := True\<rparr>) f\<rparr>)"
        using s2 sm(1) by (intro vm_ok_frames [OF ok]) (simp_all add: upd_frame_def tracked_def)
      moreover have "\<forall>k < MAX_SWAP_PAGES. swap_used f ! k" using ev(2) None by simp
      ultimately show ?thesis using sel Some None ev(1) p by (simp add: evict_attempt_def x_def Let_def upd_frame_def)
    next
      case (Some kg)
      obtain k g where kg: "reserve_slot (upd_frame i hide_frame f) = Some (k, g)" using Some by (cases kg) auto
      note e3 = ev(3) [OF kg]
      have drop: "paged h slot_data rinv own s own xs (s\<lparr>fr := without_frame i f\<rparr>)"
        using without_frame_ok [OF f ti(2)] sm(1) sf fields
        by (intro vm_ok_frames [OF ok]) (auto simp: without_frame_def tracked_def nth_list_update no_frame_def)
      have dropc: "user_frame_count (without_frame i f) = user_frame_count (fr s) - 1" by (simp add: without_frame_def sm(3))
      let ?pt = "pagetable (proc_at s p)" and ?va = "fva x"
      have att: "evict_attempt h so s =
        (if ?pt = 0 then Inr (None, s\<lparr>fr := without_frame i f\<rparr>)
         else case leaf_slot h (km s) ?pt ?va of
             None \<Rightarrow> Inr (None, s\<lparr>fr := without_frame i f\<rparr>)
           | Some q \<Rightarrow> if pte_val (km s) q AND PTE_V h = 0 then Inr (None, s\<lparr>fr := without_frame i f\<rparr>)
                       else evict_page h so i k p ?va q (s\<lparr>fr := g\<rparr>))"
        using sel \<open>v = Some i\<close> kg p tr e3 [of 0 0] walk_noalloc [of ?va h ?pt "km s"]
        by (simp add: evict_attempt_def x_def Let_def split: option.split)
      show ?thesis
      proof (cases "?pt = 0 \<or> pte_of h s p ?va AND PTE_V h = 0")
        case True
        then have "evict_attempt h so s = Inr (None, s\<lparr>fr := without_frame i f\<rparr>)"
          unfolding att by (auto simp: pte_at_def split: option.split)
        then show ?thesis using drop dropc by simp
      next
        case False
        then have u: "uaddr h s p ?va" and user: "user_pte h (pte_of h s p ?va)" using tr by (simp_all add: uaddr_def user_pte_def)
        obtain q where q: "leaf_slot h (km s) ?pt ?va = Some q" "pte_of h s p ?va = pte_val (km s) q"
          using False by (cases "leaf_slot h (km s) ?pt ?va") (auto simp: pte_at_def)
        define pa where "pa = PTE2PA h (pte_of h s p ?va)"
        have root: "own ?pt = Table ?pt []" using vm_okD(5) [OF ok] u by (simp add: uaddr_def)
        note uf = unmap_free [OF vm_okD(1) [OF ok] root q(1) user _ _ pa_def]
        have al: "page_aligned ?va" "?va < MAXVA h" using u by (simp_all add: uaddr_def)
        obtain m' where m': "kfree h pa (set_pte q 0 (km s)) = Inr m'" "mem_ok h (own(pa := Free)) (pa # xs) m'"
          "\<forall>pt' va'. own pt' = Table pt' [] \<and> page_aligned va' \<and> va' < MAXVA h \<longrightarrow>
            pte_at h m' pt' va' = (if pt' = ?pt \<and> va' = ?va then 0 else pte_at h (km s) pt' va')"
          "\<forall>b. (\<forall>r p. own b \<noteq> Table r p) \<and> b \<noteq> pa \<longrightarrow> pm m' b = pm (km s) b"
          using uf(2) [OF al] by blast
        have own_pa: "own pa = Frame ?pt (path_of h ?va)" using user_pte_frame [OF vm_okD(1) [OF ok] root user] by (simp add: pa_def)
        have "length (pm (km s) pa) = PGSIZE" using mem_okD(4) [OF vm_okD(1) [OF ok], of pa] own_pa by (simp add: PGSIZE_def)
        then obtain d where d: "swrite (int k) (pm (km s) pa) (swp s) = Inr (0, d)" "rinv d"
          "\<forall>k' < MAX_SWAP_PAGES. slot_data d k' = (if k' = k then pm (km s) pa else slot_data (swp s) k')"
          using swrite_spec [OF vm_okD(3) [OF ok]] e3 by blast
        define s' where "s' = s\<lparr>km := m', swp := d, fr := without_frame i (with_swap k p ?va f), sch := upd_proc p evict_stats (sch s)\<rparr>"
        have "evict_attempt h so s = Inr (Some 0, s')"
          unfolding att using False q d(1) m'(1) uf(1) [OF al] e3 [of p ?va]
          by (simp add: evict_page_def pa_def s'_def)
        moreover have "find_swap p ?va f = None"
          using vm_okD(8) [OF ok, of p ?va] False find_swap_same [OF sm(1)] by (cases "find_swap p ?va f") auto
        note ws = with_swap_ok [OF f _ _ this, of k]
        have tw: "tracked (with_swap k p ?va f) i" using ti by (simp add: tracked_def with_swap_def)
        have "paged h slot_data rinv own s (own(pa := Free)) (pa # xs) s'"
        proof (rule moved_to_swap [OF ok u user pa_def m'(2-4) d(2,3) _ _ _ _ _ _ s'_def])
          show "frames_ok (without_frame i (with_swap k p ?va f))" using without_frame_ok(1) [OF ws(1) tw] e3 by simp
          show "find_swap p' va' (without_frame i (with_swap k p ?va f)) = (if p' = p \<and> va' = ?va then Some k else find_swap p' va' (fr s))" for p' va'
            using ws(2) [of p' va'] e3 find_swap_same [OF sm(1)] find_swap_same [of "without_frame i (with_swap k p ?va f)" "with_swap k p ?va f"]
            by (simp add: without_frame_def)
          show "tracked (fr s) j \<and> fproc (frame_table (without_frame i (with_swap k p ?va f)) ! j) = fproc (frame_table (fr s) ! j)
             \<and> fva (frame_table (without_frame i (with_swap k p ?va f)) ! j) = fva (frame_table (fr s) ! j)"
            if "tracked (without_frame i (with_swap k p ?va f)) j" for j
            using that without_frame_ok(3) [OF ws(1) tw, of j] e3 sf [of j] fields [of j]
            by (auto simp: tracked_def without_frame_def with_swap_def)
          show "k < MAX_SWAP_PAGES" "\<not> sused (swap_map (fr s) ! k)" using e3 f sm by (auto simp: frames_ok_def)
          show "same_procs (sch s) (upd_proc p evict_stats (sch s))" by (rule same_procs_upd) (simp add: evict_stats_def forget_stats_def)
        qed
        moreover have "user_frame_count (fr s') = user_frame_count (fr s) - 1" by (simp add: s'_def without_frame_def with_swap_def sm(3))
        ultimately show ?thesis by (intro exI [of _ "Some 0"] exI [of _ s']) auto
      qed
    qed
  qed
qed

lemma frame_count_bounds:
  assumes "frames_ok f"
  shows "0 \<le> user_frame_count f" "user_frame_count f \<le> int MAX_FRAMES"
    and "has_free_frame_slot f \<longleftrightarrow> user_frame_count f < int MAX_FRAMES"
proof -
  have l: "length (filter fused (frame_table f)) \<le> MAX_FRAMES" using assms by (simp add: frames_ok_def flip: length_filter_le) (metis length_filter_le)
  with assms show "0 \<le> user_frame_count f" "user_frame_count f \<le> int MAX_FRAMES" by (simp_all add: frames_ok_def)
  show "has_free_frame_slot f \<longleftrightarrow> user_frame_count f < int MAX_FRAMES"
    using find_idx_None_full [of fused "frame_table f"] l assms unfolding has_free_frame_slot_def frames_ok_def by auto
qed

lemma evict_loop_spec:
  assumes "vm_ok h rinv own xs s" "user_frame_count (fr s) \<le> int n"
  shows "\<exists>v s'. evict_loop h so n s = Inr (v, s') \<and>
    (if v = 0 then \<exists>pa. paged h slot_data rinv own s (own(pa := Free)) (pa # xs) s' \<and> user_frame_count (fr s') < user_frame_count (fr s)
     else v = -1 \<and> paged h slot_data rinv own s own xs s' \<and> (user_frame_count (fr s') = 0 \<or> swap_full s'))"
  using assms
proof (induction n arbitrary: s)
  case 0
  then show ?case using paged_refl [OF 0(1)] frame_count_bounds(1) [OF vm_okD(2) [OF 0(1)]] by simp
next
  case (Suc n)
  obtain res s1 where a: "evict_attempt h so s = Inr (res, s1)" and
    r: "case res of
       None \<Rightarrow> paged h slot_data rinv own s own xs s1 \<and> user_frame_count (fr s1) = user_frame_count (fr s) - 1
     | Some v \<Rightarrow> (if v = 0 then \<exists>pa. paged h slot_data rinv own s (own(pa := Free)) (pa # xs) s1 \<and> user_frame_count (fr s1) = user_frame_count (fr s) - 1
                  else v = -1 \<and> paged h slot_data rinv own s own xs s1 \<and> (user_frame_count (fr s1) = 0 \<or> swap_full s1))"
    using evict_attempt_spec [OF Suc.prems(1)] by blast
  show ?case
  proof (cases res)
    case (Some v)
    with a r show ?thesis by (auto split: if_splits)
  next
    case None
    with r have p: "paged h slot_data rinv own s own xs s1" "user_frame_count (fr s1) = user_frame_count (fr s) - 1" by simp_all
    then have "vm_ok h rinv own xs s1" "user_frame_count (fr s1) \<le> int n" using Suc.prems(2) by (simp_all add: paged_def)
    from Suc.IH [OF this] obtain v s' where v: "evict_loop h so n s1 = Inr (v, s')"
      "if v = 0 then \<exists>pa. paged h slot_data rinv own s1 (own(pa := Free)) (pa # xs) s' \<and> user_frame_count (fr s') < user_frame_count (fr s1)
       else v = -1 \<and> paged h slot_data rinv own s1 own xs s' \<and> (user_frame_count (fr s') = 0 \<or> swap_full s')"
      by blast
    from v(1) a None have "evict_loop h so (Suc n) s = Inr (v, s')" by simp
    moreover have "if v = 0 then \<exists>pa. paged h slot_data rinv own s (own(pa := Free)) (pa # xs) s' \<and> user_frame_count (fr s') < user_frame_count (fr s)
       else v = -1 \<and> paged h slot_data rinv own s own xs s' \<and> (user_frame_count (fr s') = 0 \<or> swap_full s')"
      using v(2) p paged_trans [OF p(1)] by (cases "v = 0") force+
    ultimately show ?thesis by blast
  qed
qed

lemma evict_spec:
  assumes "vm_ok h rinv own xs s"
  shows "\<exists>v s'. evict_one_user_frame h so s = Inr (v, s') \<and>
    (if v = 0 then \<exists>pa. paged h slot_data rinv own s (own(pa := Free)) (pa # xs) s' \<and> user_frame_count (fr s') < user_frame_count (fr s)
     else v = -1 \<and> paged h slot_data rinv own s own xs s' \<and> (user_frame_count (fr s') = 0 \<or> swap_full s'))"
  unfolding evict_one_user_frame_def
  using evict_loop_spec [OF assms] frame_count_bounds(2) [OF vm_okD(2) [OF assms]] by blast

text \<open>The page that \<open>kalloc_user\<close> takes, with its frame registered.\<close>

lemma take_user_page:
  assumes ok: "vm_ok h rinv own (x # xs) s" and u: "uaddr h s p va" and np: "pte_of h s p va AND PTE_V h = 0"
    and free: "user_frame_count (fr s) < int MAX_FRAMES"
    and m: "m = set_page x (replicate page_bytes 0) ((km s)\<lparr>freelist := get64 (pm (km s) x) 0\<rparr>)"
    and own': "own' = own(x := Frame (pagetable (proc_at s p)) (path_of h va))"
  shows "\<exists>f. register_user_frame p va (fr s) = (0, f) \<and> paged h slot_data rinv own s own' xs (s\<lparr>km := m, fr := f\<rparr>)"
proof -
  note fok = vm_okD(2) [OF ok]
  obtain i where i: "find_idx (\<lambda>x. \<not> fused x) (frame_table (fr s)) = Some i"
    using frame_count_bounds(3) [OF fok] free by (auto simp: has_free_frame_slot_def)
  note id = find_idx_SomeD [OF i]
  let ?x = "\<lparr>fused = True, user_frame = True, fproc = Some p, fva = va, ref_bit = True\<rparr>"
  define f where "f = (fr s)\<lparr>frame_table := (frame_table (fr s))[i := ?x], user_frame_count := user_frame_count (fr s) + 1\<rparr>"
  have reg: "register_user_frame p va (fr s) = (0, f)"
    using i free frame_count_bounds(1) [OF fok] by (simp add: register_user_frame_def f_def upd_frame_def MAX_FRAMES_def)
  have fok': "frames_ok f"
    using fok id count_filter_update [OF id(1), of fused ?x] by (auto simp: frames_ok_def f_def nth_list_update)
  have fs: "find_swap p' va' f = find_swap p' va' (fr s)" for p' va' by (rule find_swap_same) (simp add: f_def)
  have tr: "tracked f j \<longleftrightarrow> j = i \<or> tracked (fr s) j" for j
    using id by (auto simp: tracked_def f_def nth_list_update)
  have ft: "frame_table f ! j = (if j = i then ?x else frame_table (fr s) ! j)" for j
    using id(1) by (auto simp: f_def nth_list_update)
  have ti: "\<not> tracked (fr s) i" using id(2) by (simp add: tracked_def)
  have mm: "m = (km s)\<lparr>freelist := get64 (pm (km s) x) 0, pm := (pm (km s))(x := replicate page_bytes 0)\<rparr>"
    by (simp add: m set_page_def)
  note tp = take_page [OF vm_okD(1) [OF ok] _ _ mm, where \<rho> = "Frame (pagetable (proc_at s p)) (path_of h va)"]
  have ox: "own x = Free" using mem_okD(2) [OF vm_okD(1) [OF ok], of x] by simp
  let ?s = "s\<lparr>km := m, fr := f\<rparr>"
  have pte: "pte_of h ?s p' va' = pte_of h s p' va'" if "p' < nproc (sch s)" "pagetable (proc_at s p') \<noteq> 0" for p' va'
    using tp(2) [OF _ _ vm_okD(5) [OF ok that]] by simp
  have ua: "uaddr h ?s p' va' = uaddr h s p' va'" for p' va' by (simp add: uaddr_def)
  have "same_view h slot_data s ?s"
    unfolding same_view_def
  proof (intro conjI allI impI)
    fix p' va'
    assume u': "uaddr h s p' va'"
    then have pt': "pte_of h ?s p' va' = pte_of h s p' va'" "own (pagetable (proc_at s p')) = Table (pagetable (proc_at s p')) []"
      using pte vm_okD(5) [OF ok] by (simp_all add: uaddr_def)
    show "upage h slot_data ?s p' va' = upage h slot_data s p' va'"
    proof (cases "user_pte h (pte_of h s p' va')")
      case True
      have "PTE2PA h (pte_of h s p' va') \<noteq> x"
        using user_pte_frame [OF vm_okD(1) [OF ok] pt'(2) True] ox by auto
      then show ?thesis using True pt'(1) by (simp add: upage_def mm)
    next
      case False
      then show ?thesis using pt'(1) by (simp add: upage_def fs)
    qed
  qed simp
  moreover have "vm_ok h rinv own' xs ?s"
  proof (rule vm_okI)
    show "mem_ok h own' xs (km ?s)" using tp(1) by (simp add: own')
    show "frames_ok (fr ?s)" "rinv (swp ?s)" using fok' vm_okD(3) [OF ok] by simp_all
    show "own' (pagetable (proc_at ?s q)) = Table (pagetable (proc_at ?s q)) []" if "q < nproc (sch ?s)" "pagetable (proc_at ?s q) \<noteq> 0" for q
      using vm_okD(5) [OF ok, of q] that ox by (auto simp: own')
  next
    fix j p'
    assume j: "tracked (fr ?s) j" "fproc (frame_table (fr ?s) ! j) = Some p'"
    show "p' < nproc (sch ?s) \<and> page_aligned (fva (frame_table (fr ?s) ! j)) \<and> fva (frame_table (fr ?s) ! j) < MAXVA h
      \<and> (pagetable (proc_at ?s p') \<noteq> 0 \<and> pte_of h ?s p' (fva (frame_table (fr ?s) ! j)) AND PTE_V h \<noteq> 0 \<longrightarrow>
           pte_of h ?s p' (fva (frame_table (fr ?s) ! j)) AND PTE_U h \<noteq> 0)"
    proof (cases "j = i")
      case True
      then show ?thesis using j u np pte [of p va] by (simp add: ft uaddr_def)
    next
      case False
      then show ?thesis using j vm_okD(7) [OF ok, of j p'] pte [of p'] by (auto simp: ft tr)
    qed
  next
    fix p' va' k
    assume "find_swap p' va' (fr ?s) = Some k"
    then have "uaddr h s p' va' \<and> pte_of h s p' va' AND PTE_V h = 0" using vm_okD(8) [OF ok] fs by simp
    then show "uaddr h ?s p' va' \<and> pte_of h ?s p' va' AND PTE_V h = 0" using pte [of p' va'] ua by (simp add: uaddr_def)
  qed (use vm_okD(4,6) [OF ok] in simp_all)
  moreover have "pte_of h ?s p' va' AND PTE_V h = 0" if "uaddr h s p' va'" "pte_of h s p' va' AND PTE_V h = 0" for p' va'
    using that pte by (simp add: uaddr_def)
  moreover have "own' a = Kernel \<and> pm m a = pm (km s) a" if "own a = Kernel" for a using that ox by (auto simp: own' mm)
  ultimately have "paged h slot_data rinv own s own' xs ?s" by (simp add: paged_def fs)
  with reg show ?thesis by blast
qed

text \<open>What \<open>kalloc_user\<close> leaves: no page, or a zeroed page that is nobody else's.\<close>

definition user_page :: "nat \<Rightarrow> u64 \<Rightarrow> (u64 \<Rightarrow> role) \<Rightarrow> 'd vm \<Rightarrow> u64 \<Rightarrow> 'd vm \<Rightarrow> bool" where
  "user_page p va own s r s' \<longleftrightarrow>
     (\<exists>own' xs'. paged h slot_data rinv own s own' xs' s'
        \<and> (if r = 0 then user_frame_count (fr s') = 0 \<or> swap_full s'
           else own' r = Frame (pagetable (proc_at s' p)) (path_of h va) \<and> pm (km s') r = replicate page_bytes 0))"

lemma user_page_trans:
  "paged h slot_data rinv own s own1 xs1 s1 \<Longrightarrow> user_page p va own1 s1 r s' \<Longrightarrow> user_page p va own s r s'"
  unfolding user_page_def using paged_trans by blast

lemma kalloc_user_have_page:
  assumes ok: "vm_ok h rinv own (x # xs) s" and u: "uaddr h s p va" and np: "pte_of h s p va AND PTE_V h = 0"
    and free: "user_frame_count (fr s) < int MAX_FRAMES"
  shows "\<exists>r s'. kalloc_user_loop h so p va (Suc n) s = Inr (r, s') \<and> user_page p va own s r s'"
proof -
  define m where "m = set_page x (replicate page_bytes 0) ((km s)\<lparr>freelist := get64 (pm (km s) x) 0\<rparr>)"
  obtain f where f: "register_user_frame p va (fr s) = (0, f)"
    "paged h slot_data rinv own s (own(x := Frame (pagetable (proc_at s p)) (path_of h va))) xs (s\<lparr>km := m, fr := f\<rparr>)"
    using take_user_page [OF ok u np free m_def refl] by blast
  have x: "freelist (km s) = x" "x \<noteq> 0" using mem_okD(1) [OF vm_okD(1) [OF ok]] by (auto simp: free_list_def)
  have "has_free_frame_slot (fr s)" "\<not> int MAX_FRAMES \<le> user_frame_count (fr s)"
    using frame_count_bounds(3) [OF vm_okD(2) [OF ok]] free by simp_all
  then have "kalloc_user_loop h so p va (Suc n) s = Inr (x, s\<lparr>km := m, fr := f\<rparr>)"
    using x f(1) by (simp add: m_def)
  moreover have "user_page p va own s x (s\<lparr>km := m, fr := f\<rparr>)"
    unfolding user_page_def using f(2) x(2)
    by (intro exI [of _ "own(x := Frame (pagetable (proc_at s p)) (path_of h va))"] exI [of _ xs]) (simp add: m_def)
  ultimately show ?thesis by blast
qed

lemma paged_uaddr:
  assumes "paged h slot_data rinv own s own' xs' s'" "uaddr h s p va" "pte_of h s p va AND PTE_V h = 0"
  shows "vm_ok h rinv own' xs' s'" "uaddr h s' p va" "pte_of h s' p va AND PTE_V h = 0"
  using assms uaddr_same [of s s'] by (simp_all add: paged_def same_view_def)

lemma kalloc_user_spec:
  assumes ok: "vm_ok h rinv own xs s" and u: "uaddr h s p va" and np: "pte_of h s p va AND PTE_V h = 0"
  shows "\<exists>r s'. kalloc_user h so p va s = Inr (r, s') \<and> user_page p va own s r s'"
proof -
  have two: "kalloc_user h so p va s = kalloc_user_loop h so p va (Suc (Suc 0)) s" by (simp add: kalloc_user_def numeral_2_eq_2)
  have fail: "user_page p va own s 0 s1" if "paged h slot_data rinv own s own1 xs1 s1" "user_frame_count (fr s1) = 0 \<or> swap_full s1" for own1 xs1 s1
    unfolding user_page_def using that by auto
  have go: "\<exists>r s'. kalloc_user_loop h so p va (Suc n) s1 = Inr (r, s') \<and> user_page p va own s r s'"
    if "paged h slot_data rinv own s own1 (x # xs1) s1" "user_frame_count (fr s1) < int MAX_FRAMES" for own1 x xs1 s1 n
    using kalloc_user_have_page [OF paged_uaddr [OF that(1) u np] that(2), of n] user_page_trans [OF that(1)] by blast
  note b = frame_count_bounds [OF vm_okD(2) [OF ok]]
  have free0: "freelist (km s) = 0 \<longleftrightarrow> xs = []"
    using mem_okD(1) [OF vm_okD(1) [OF ok]] by (cases xs) (auto simp: free_list_def)
  obtain v s1 where e: "evict_one_user_frame h so s = Inr (v, s1)"
    "if v = 0 then \<exists>pa. paged h slot_data rinv own s (own(pa := Free)) (pa # xs) s1 \<and> user_frame_count (fr s1) < user_frame_count (fr s)
     else v = -1 \<and> paged h slot_data rinv own s own xs s1 \<and> (user_frame_count (fr s1) = 0 \<or> swap_full s1)"
    using evict_spec [OF ok] by blast
  show ?thesis
  proof (cases "user_frame_count (fr s) < int MAX_FRAMES")
    case True
    show ?thesis
    proof (cases xs)
      case (Cons x xs')
      then show ?thesis unfolding two using go [OF paged_refl] ok True by blast
    next
      case Nil
      have run: "kalloc_user_loop h so p va (Suc (Suc 0)) s =
        (if \<not> 0 < user_frame_count (fr s) then Inr (0, s) else if v < 0 then Inr (0, s1) else kalloc_user_loop h so p va (Suc 0) s1)"
        using True b(3) free0 Nil e(1) by simp
      show ?thesis
      proof (cases "user_frame_count (fr s) = 0")
        case True
        then show ?thesis unfolding two run using fail [OF paged_refl [OF ok]] by simp
      next
        case False
        then have pos: "0 < user_frame_count (fr s)" using b(1) by simp
        show ?thesis
        proof (cases "v = 0")
          case True
          then obtain pa where "paged h slot_data rinv own s (own(pa := Free)) (pa # xs) s1" "user_frame_count (fr s1) < user_frame_count (fr s)"
            using e(2) by auto
          then show ?thesis unfolding two run using go [of "own(pa := Free)" pa xs s1 0] pos True \<open>user_frame_count (fr s) < int MAX_FRAMES\<close> by simp
        next
          case False
          then show ?thesis unfolding two run using e(2) fail pos by (auto simp: if_not_P)
        qed
      qed
    qed
  next
    case False
    then have need: "kalloc_user_loop h so p va (Suc (Suc 0)) s =
      (if v < 0 then Inr (0, s1) else kalloc_user_loop h so p va (Suc (Suc 0)) s1)"
      if "v = 0 \<longrightarrow> user_frame_count (fr s1) < int MAX_FRAMES \<and> has_free_frame_slot (fr s1)" "v = 0 \<or> v = -1"
      using e(1) that by auto
    show ?thesis
    proof (cases "v = 0")
      case True
      then obtain pa where pa: "paged h slot_data rinv own s (own(pa := Free)) (pa # xs) s1" "user_frame_count (fr s1) < user_frame_count (fr s)"
        using e(2) by auto
      have "frames_ok (fr s1)" using pa(1) vm_okD(2) by (auto simp: paged_def)
      then have "user_frame_count (fr s1) < int MAX_FRAMES \<and> has_free_frame_slot (fr s1)"
        using frame_count_bounds(3) pa(2) b(2) by simp
      then show ?thesis unfolding two using need go [OF pa(1), of "Suc 0"] True by simp
    next
      case False
      then show ?thesis unfolding two using need e(2) fail by auto
    qed
  qed
qed

end

end
