(* ===== verification/Vm.thy ===== *)
theory Vm
  imports Paging
begin

text \<open>
  User memory of \<open>kernel/vm.c\<close>: \<open>uvmunmap\<close>, \<open>uvmalloc\<close>, \<open>uvmdealloc\<close>, \<open>uvmfree\<close>, \<open>uvmcopy\<close>, \<open>vmfault\<close>. \<open>me\<close> is the index of \<open>myproc()\<close>, \<open>None\<close> when no process runs. A loop over addresses has
  a fuel argument, computed from the size of the range; running out of it is the error \<open>OutOfFuel\<close>.

  The central lemma is that of a page fault: the process then has the page resident, with the content it saw before
  (zeros if it had never touched the page), and no page of any process has changed.
\<close>

section \<open>Operations\<close>

text \<open>Fields of a process are set.\<close>

definition on_proc :: "(proc \<Rightarrow> proc) \<Rightarrow> nat \<Rightarrow> 'd vm \<Rightarrow> 'd vm" where
  "on_proc g p s = s\<lparr>sch := upd_proc p g (sch s)\<rparr>"

text \<open>
  The body of the loop of \<open>uvmunmap\<close> at address \<open>a\<close>; \<open>p\<close> is the owner of the page table if it is the running process.
\<close>

definition unmap_page :: "riscv_h \<Rightarrow> nat option \<Rightarrow> u64 \<Rightarrow> bool \<Rightarrow> u64 \<Rightarrow> 'd vm \<Rightarrow> 'd vm res" where
  "unmap_page h p pt do_free a s =
     (let s1 = (case p of
                  Some i \<Rightarrow> if do_free
                            then (case find_swap i a (fr s) of Some k \<Rightarrow> s\<lparr>fr := release_swap k (fr s)\<rparr> | None \<Rightarrow> s)
                            else s
                | None \<Rightarrow> s)
      in rbind (walk h pt a False (km s1))
           (\<lambda>(pte, _). case pte of
              None \<Rightarrow> Inr s1
            | Some q \<Rightarrow>
                if pte_val (km s1) q AND PTE_V h = 0 then Inr (s1\<lparr>km := set_pte q 0 (km s1)\<rparr>)
                else rbind (if do_free
                            then rbind (kfree h (PTE2PA h (pte_val (km s1) q)) (km s1))
                                   (\<lambda>m. Inr (s1\<lparr>km := m, fr := drop_frame p a (fr s1)\<rparr>))
                            else Inr s1)
                       (\<lambda>s2. Inr (s2\<lparr>km := set_pte q 0 (km s2)\<rparr>))))"

fun unmap_loop :: "riscv_h \<Rightarrow> nat option \<Rightarrow> u64 \<Rightarrow> bool \<Rightarrow> nat \<Rightarrow> u64 \<Rightarrow> u64 \<Rightarrow> 'd vm \<Rightarrow> 'd vm res" where
  "unmap_loop h p pt do_free 0 a e s = Inl OutOfFuel"
| "unmap_loop h p pt do_free (Suc n) a e s =
     (if a < e then rbind (unmap_page h p pt do_free a s) (unmap_loop h p pt do_free n (a + 4096) e) else Inr s)"

definition uvmunmap :: "riscv_h \<Rightarrow> nat option \<Rightarrow> u64 \<Rightarrow> u64 \<Rightarrow> u64 \<Rightarrow> bool \<Rightarrow> 'd vm \<Rightarrow> 'd vm res" where
  "uvmunmap h me pt va npages do_free s =
     panic_if (va mod 4096 \<noteq> 0) ''uvmunmap: not aligned''
       (let p = (case me of Some i \<Rightarrow> if pagetable (proc_at s i) \<noteq> pt then None else Some i | None \<Rightarrow> None)
        in unmap_loop h p pt do_free (Suc (unat npages)) va (va + npages * 4096) s)"

definition uvmdealloc :: "riscv_h \<Rightarrow> nat option \<Rightarrow> u64 \<Rightarrow> u64 \<Rightarrow> u64 \<Rightarrow> 'd vm \<Rightarrow> (u64 \<times> 'd vm) res" where
  "uvmdealloc h me pt oldsz newsz s =
     (if newsz \<ge> oldsz then Inr (oldsz, s)
      else if PGROUNDUP h newsz < PGROUNDUP h oldsz
      then let npages = c_int (uint ((PGROUNDUP h oldsz - PGROUNDUP h newsz) div 4096))
           in rbind (uvmunmap h me pt (PGROUNDUP h newsz) (of_int npages) True s) (\<lambda>s1. Inr (newsz, s1))
      else Inr (newsz, s))"

fun uvmalloc_loop :: "riscv_h \<Rightarrow> nat option \<Rightarrow> u64 \<Rightarrow> u64 \<Rightarrow> u64 \<Rightarrow> u64 \<Rightarrow> nat \<Rightarrow> u64 \<Rightarrow> 'd vm \<Rightarrow> (u64 \<times> 'd vm) res" where
  "uvmalloc_loop h me pt oldsz newsz xperm 0 a s = Inl OutOfFuel"
| "uvmalloc_loop h me pt oldsz newsz xperm (Suc n) a s =
     (if a < newsz
      then let (mem, m1) = kalloc (km s)
           in if mem = 0
              then rbind (uvmdealloc h me pt a oldsz (s\<lparr>km := m1\<rparr>)) (\<lambda>(_, s1). Inr (0, s1))
              else rbind (mappages h pt a 4096 mem (PTE_R h OR PTE_U h OR xperm) (set_page mem (replicate page_bytes 0) m1))
                     (\<lambda>(r, m2).
                        if r \<noteq> 0
                        then rbind (kfree h mem m2)
                               (\<lambda>m3. rbind (uvmdealloc h me pt a oldsz (s\<lparr>km := m3\<rparr>)) (\<lambda>(_, s1). Inr (0, s1)))
                        else uvmalloc_loop h me pt oldsz newsz xperm n (a + 4096) (s\<lparr>km := m2\<rparr>))
      else Inr (newsz, s))"

definition uvmalloc :: "riscv_h \<Rightarrow> nat option \<Rightarrow> u64 \<Rightarrow> u64 \<Rightarrow> u64 \<Rightarrow> u64 \<Rightarrow> 'd vm \<Rightarrow> (u64 \<times> 'd vm) res" where
  "uvmalloc h me pt oldsz newsz xperm s =
     (if newsz < oldsz then Inr (oldsz, s)
      else let a = PGROUNDUP h oldsz
           in uvmalloc_loop h me pt a newsz xperm (Suc (Suc (unat (newsz - a) div page_bytes))) a s)"

definition uvmfree :: "riscv_h \<Rightarrow> nat option \<Rightarrow> u64 \<Rightarrow> u64 \<Rightarrow> 'd vm \<Rightarrow> 'd vm res" where
  "uvmfree h me pt sz s =
     rbind (if sz > 0 then uvmunmap h me pt 0 (PGROUNDUP h sz div 4096) True s else Inr s)
       (\<lambda>s1. rbind (freewalk h 3 pt (km s1)) (\<lambda>m. Inr (s1\<lparr>km := m\<rparr>)))"

text \<open>
  The body of the loop of \<open>uvmcopy\<close> at address \<open>i\<close>; \<open>False\<close> stands for \<open>goto err\<close>. First the case of a page of the
  parent that was swapped out, then the copy of a resident page.
\<close>

definition copy_swapped :: "riscv_h \<Rightarrow> 'd swap_ops \<Rightarrow> int \<Rightarrow> u64 \<Rightarrow> nat \<Rightarrow> 'd vm \<Rightarrow> (bool \<times> 'd vm) res" where
  "copy_swapped h so src_slot i child s =
     (let (tmp, m1) = kalloc (km s)
      in if tmp = 0 then Inr (False, s\<lparr>km := m1\<rparr>)
         else rbind (sw_read so src_slot (swp s))
           (\<lambda>(r, page, d).
              if r < 0 then rbind (kfree h tmp m1) (\<lambda>m. Inr (False, s\<lparr>km := m, swp := d\<rparr>))
              else let m2 = set_page tmp page m1
                   in (case reserve_slot (fr s) of
                         None \<Rightarrow> rbind (kfree h tmp m2) (\<lambda>m. Inr (False, s\<lparr>km := m, swp := d\<rparr>))
                       | Some (dst_slot, f1) \<Rightarrow>
                           rbind (sw_write so (int dst_slot) (pm m2 tmp) d)
                             (\<lambda>(w, d2).
                                rbind (kfree h tmp m2)
                                  (\<lambda>m3. if w < 0
                                        then Inr (False, s\<lparr>km := m3, swp := d2, fr := f1\<lparr>swap_used := (swap_used f1)[dst_slot := False]\<rparr>\<rparr>)
                                        else let (inserted, f2) = insert_swap child i dst_slot f1
                                             in Inr (inserted, s\<lparr>km := m3, swp := d2, fr := f2\<rparr>))))))"

definition copy_resident :: "riscv_h \<Rightarrow> u64 \<Rightarrow> u64 \<Rightarrow> u64 \<Rightarrow> 'd vm \<Rightarrow> (bool \<times> 'd vm) res" where
  "copy_resident h new i e s =
     (let (mem, m1) = kalloc (km s)
      in if mem = 0 then Inr (False, s\<lparr>km := m1\<rparr>)
         else rbind (mappages h new i 4096 mem (PTE_FLAGS h e) (set_page mem (pm m1 (PTE2PA h e)) m1))
                (\<lambda>(r, m2). if r \<noteq> 0 then rbind (kfree h mem m2) (\<lambda>m3. Inr (False, s\<lparr>km := m3\<rparr>))
                            else Inr (True, s\<lparr>km := m2\<rparr>)))"

definition copy_page :: "riscv_h \<Rightarrow> 'd swap_ops \<Rightarrow> nat option \<Rightarrow> u64 \<Rightarrow> u64 \<Rightarrow> nat \<Rightarrow> u64 \<Rightarrow> 'd vm \<Rightarrow> (bool \<times> 'd vm) res" where
  "copy_page h so me old new child i s =
     (let absent = (case me of
                      Some pp \<Rightarrow>
                        (case find_swap pp i (fr s) of
                           Some k \<Rightarrow> copy_swapped h so (sslot (swap_map (fr s) ! k)) i child s
                         | None \<Rightarrow> Inr (True, s))
                    | None \<Rightarrow> Inr (True, s))
      in rbind (walk h old i False (km s))
           (\<lambda>(pte, _). case pte of
              None \<Rightarrow> absent
            | Some q \<Rightarrow>
                if pte_val (km s) q AND PTE_V h = 0 then absent else copy_resident h new i (pte_val (km s) q) s))"

fun uvmcopy_loop ::
  "riscv_h \<Rightarrow> 'd swap_ops \<Rightarrow> nat option \<Rightarrow> u64 \<Rightarrow> u64 \<Rightarrow> u64 \<Rightarrow> nat \<Rightarrow> nat \<Rightarrow> u64 \<Rightarrow> 'd vm \<Rightarrow> (int \<times> 'd vm) res" where
  "uvmcopy_loop h so me old new sz child 0 i s = Inl OutOfFuel"
| "uvmcopy_loop h so me old new sz child (Suc n) i s =
     (if i < sz
      then rbind (copy_page h so me old new child i s)
             (\<lambda>(ok, s1).
                if ok then uvmcopy_loop h so me old new sz child n (i + 4096) s1
                else rbind (uvmunmap h me new 0 (i div 4096) True s1) (\<lambda>s2. Inr (-1, s2)))
      else Inr (0, s))"

definition uvmcopy :: "riscv_h \<Rightarrow> 'd swap_ops \<Rightarrow> nat option \<Rightarrow> u64 \<Rightarrow> u64 \<Rightarrow> u64 \<Rightarrow> nat \<Rightarrow> 'd vm \<Rightarrow> (int \<times> 'd vm) res" where
  "uvmcopy h so me old new sz child s = uvmcopy_loop h so me old new sz child (Suc (Suc (unat sz div page_bytes))) 0 s"

text \<open>The end of \<open>vmfault\<close> in its two cases, from \<open>mappages\<close> on; \<open>mem\<close> is the new frame.\<close>

definition fault_map ::
  "riscv_h \<Rightarrow> nat \<Rightarrow> u64 \<Rightarrow> u64 \<Rightarrow> ('d vm \<Rightarrow> 'd vm) \<Rightarrow> 'd vm \<Rightarrow> (u64 \<times> 'd vm) res" where
  "fault_map h p va mem fin s =
     rbind (mappages h (pagetable (proc_at s p)) va 4096 mem (PTE_W h OR PTE_U h OR PTE_R h) (km s))
       (\<lambda>(r, m). if r \<noteq> 0 then rbind (free_user_frame h p va mem (s\<lparr>km := m\<rparr>)) (\<lambda>s1. Inr (0, s1))
                 else Inr (mem, fin (s\<lparr>km := m, fr := touch_frame p va (fr s)\<rparr>)))"

definition swap_in_done :: "nat \<Rightarrow> nat \<Rightarrow> int \<Rightarrow> 'd vm \<Rightarrow> 'd vm" where
  "swap_in_done p found slot s =
     on_proc (\<lambda>x. x\<lparr>pages_swapped_in := c_int (pages_swapped_in x + 1), resident_pages := c_int (resident_pages x + 1)\<rparr>) p
       (s\<lparr>fr := (fr s)\<lparr>swap_used := (swap_used (fr s))[nat slot := False], swap_map := (swap_map (fr s))[found := no_swap]\<rparr>\<rparr>)"

definition lazy_done :: "nat \<Rightarrow> 'd vm \<Rightarrow> 'd vm" where
  "lazy_done p s = on_proc (\<lambda>x. x\<lparr>resident_pages := c_int (resident_pages x + 1)\<rparr>) p s"

definition vmfault :: "riscv_h \<Rightarrow> 'd swap_ops \<Rightarrow> nat option \<Rightarrow> u64 \<Rightarrow> u64 \<Rightarrow> 'd vm \<Rightarrow> (u64 \<times> 'd vm) res" where
  "vmfault h so me pt va0 s =
     (case me of
        None \<Rightarrow> Inr (0, s)
      | Some p \<Rightarrow>
          if va0 \<ge> psz (proc_at s p) then Inr (0, s)
          else let va = PGROUNDDOWN h va0
               in rbind (ismapped h pt va (km s))
                    (\<lambda>mapped.
                       if mapped
                       then rbind (walkaddr h pt va (km s)) (\<lambda>pa. Inr (pa, s\<lparr>fr := touch_frame p va (fr s)\<rparr>))
                       else let s1 = on_proc (\<lambda>x. x\<lparr>page_faults := c_int (page_faults x + 1)\<rparr>) p s
                            in (case find_swap p va (fr s1) of
                                  Some found \<Rightarrow>
                                    let slot = sslot (swap_map (fr s1) ! found)
                                    in rbind (kalloc_user h so p va s1)
                                         (\<lambda>(mem, s2).
                                            if mem = 0 then Inr (0, s2)
                                            else rbind (sw_read so slot (swp s2))
                                              (\<lambda>(r, page, d).
                                                 if r < 0
                                                 then rbind (free_user_frame h p va mem (s2\<lparr>swp := d\<rparr>)) (\<lambda>s3. Inr (0, s3))
                                                 else fault_map h p va mem (swap_in_done p found slot)
                                                        (s2\<lparr>swp := d, km := set_page mem page (km s2)\<rparr>)))
                                | None \<Rightarrow>
                                    rbind (kalloc_user h so p va s1)
                                      (\<lambda>(mem, s2).
                                         if mem = 0 then Inr (0, s2)
                                         else fault_map h p va mem (lazy_done p)
                                                (s2\<lparr>km := set_page mem (replicate page_bytes 0) (km s2)\<rparr>)))))"


section \<open>Page faults\<close>

lemma same_procs_on_proc: "(\<And>x. forget_stats (g x) = forget_stats x) \<Longrightarrow> same_procs (sch s) (sch (on_proc g p s))"
  unfolding on_proc_def by (simp add: same_procs_upd)

lemma vm_ok_change:
  assumes ok: "vm_ok h rinv own xs s" and sp: "same_procs (sch s) (sch s')"
    and "mem_ok h own' xs' (km s')" "frames_ok (fr s')" "rinv (swp s')"
    and roots: "\<And>a. own a = Table a [] \<Longrightarrow> own' a = Table a []"
    and tr: "\<And>i q. tracked (fr s') i \<Longrightarrow> fproc (frame_table (fr s') ! i) = Some q \<Longrightarrow>
        q < nproc (sch s) \<and> page_aligned (fva (frame_table (fr s') ! i)) \<and> fva (frame_table (fr s') ! i) < MAXVA h
      \<and> (uaddr h s q (fva (frame_table (fr s') ! i)) \<longrightarrow> pte_of h s' q (fva (frame_table (fr s') ! i)) AND PTE_V h \<noteq> 0 \<longrightarrow>
           pte_of h s' q (fva (frame_table (fr s') ! i)) AND PTE_U h \<noteq> 0)"
    and sw: "\<And>q va k. find_swap q va (fr s') = Some k \<Longrightarrow> uaddr h s q va \<and> pte_of h s' q va AND PTE_V h = 0"
  shows "vm_ok h rinv own' xs' s'"
proof (rule vm_okI)
  note n = same_procs_nth [OF sp]
  note ua = uaddr_same [OF sp, of h]
  show "mem_ok h own' xs' (km s')" "frames_ok (fr s')" "rinv (swp s')" by fact+
  show "0 \<le> plevel (proc_at s' q) \<and> plevel (proc_at s' q) \<le> 3" if "q < nproc (sch s')" for q
    using vm_okD(4) [OF ok, of q] n that by simp
  show "own' (pagetable (proc_at s' q)) = Table (pagetable (proc_at s' q)) []"
    if "q < nproc (sch s')" "pagetable (proc_at s' q) \<noteq> 0" for q
    using roots vm_okD(5) [OF ok, of q] n that by simp
  show "q = q'" if "q < nproc (sch s')" "q' < nproc (sch s')" "pagetable (proc_at s' q) \<noteq> 0"
    "pagetable (proc_at s' q) = pagetable (proc_at s' q')" for q q'
    using vm_okD(6) [OF ok, of q q'] n that by simp
  show "q < nproc (sch s') \<and> page_aligned (fva (frame_table (fr s') ! i)) \<and> fva (frame_table (fr s') ! i) < MAXVA h
      \<and> (pagetable (proc_at s' q) \<noteq> 0 \<and> pte_of h s' q (fva (frame_table (fr s') ! i)) AND PTE_V h \<noteq> 0 \<longrightarrow>
           pte_of h s' q (fva (frame_table (fr s') ! i)) AND PTE_U h \<noteq> 0)"
    if "tracked (fr s') i" "fproc (frame_table (fr s') ! i) = Some q" for i q
    using tr [OF that] n by (auto simp: uaddr_def)
  show "uaddr h s' q va \<and> pte_of h s' q va AND PTE_V h = 0" if "find_swap q va (fr s') = Some k" for q va k
    using sw [OF that] ua by simp
qed

lemma vm_ok_same_pte:
  assumes ok: "vm_ok h rinv own xs s" and sp: "same_procs (sch s) (sch s')"
    and m: "mem_ok h own' xs' (km s')" and f: "fr s' = fr s" and d: "rinv (swp s')"
    and roots: "\<And>a. own a = Table a [] \<Longrightarrow> own' a = Table a []"
    and pt: "\<And>q va. uaddr h s q va \<Longrightarrow> pte_of h s' q va = pte_of h s q va"
  shows "vm_ok h rinv own' xs' s'"
proof (rule vm_ok_change [OF ok sp m _ d roots])
  show "frames_ok (fr s')" using vm_okD(2) [OF ok] f by simp
  show "uaddr h s q va \<and> pte_of h s' q va AND PTE_V h = 0" if "find_swap q va (fr s') = Some k" for q va k
    using vm_okD(8) [OF ok, of q va k] pt [of q va] that f by simp
  fix i q
  assume i: "tracked (fr s') i" "fproc (frame_table (fr s') ! i) = Some q"
  have "q < nproc (sch s) \<and> page_aligned (fva (frame_table (fr s) ! i)) \<and> fva (frame_table (fr s) ! i) < MAXVA h
    \<and> (uaddr h s q (fva (frame_table (fr s) ! i)) \<longrightarrow> pte_of h s q (fva (frame_table (fr s) ! i)) AND PTE_V h \<noteq> 0 \<longrightarrow>
         pte_of h s q (fva (frame_table (fr s) ! i)) AND PTE_U h \<noteq> 0)"
    using vm_okD(7) [OF ok, of i q] i f by (simp add: uaddr_def)
  then show "q < nproc (sch s) \<and> page_aligned (fva (frame_table (fr s') ! i)) \<and> fva (frame_table (fr s') ! i) < MAXVA h
    \<and> (uaddr h s q (fva (frame_table (fr s') ! i)) \<longrightarrow> pte_of h s' q (fva (frame_table (fr s') ! i)) AND PTE_V h \<noteq> 0 \<longrightarrow>
         pte_of h s' q (fva (frame_table (fr s') ! i)) AND PTE_U h \<noteq> 0)"
    using pt [of q "fva (frame_table (fr s) ! i)"] f by auto
qed

text \<open>The page at \<open>va\<close>: what the process sees there, or zeros if it has not touched it yet.\<close>

definition umem :: "riscv_h \<Rightarrow> ('d \<Rightarrow> nat \<Rightarrow> u8 list) \<Rightarrow> 'd vm \<Rightarrow> nat \<Rightarrow> u64 \<Rightarrow> u8 list" where
  "umem h slot_data s p va = (case upage h slot_data s p va of None \<Rightarrow> replicate page_bytes 0 | Some c \<Rightarrow> c)"

text \<open>Pages may have moved between memory and the swap area, but no byte of any process has changed.\<close>

definition kept ::
  "riscv_h \<Rightarrow> ('d \<Rightarrow> nat \<Rightarrow> u8 list) \<Rightarrow> ('d \<Rightarrow> bool) \<Rightarrow> (u64 \<Rightarrow> role) \<Rightarrow> 'd vm \<Rightarrow> (u64 \<Rightarrow> role) \<Rightarrow> u64 list \<Rightarrow> 'd vm \<Rightarrow> bool" where
  "kept h slot_data rinv own s own' xs' s' \<longleftrightarrow>
     vm_ok h rinv own' xs' s' \<and> same_procs (sch s) (sch s')
   \<and> (\<forall>p va. uaddr h s p va \<longrightarrow> umem h slot_data s' p va = umem h slot_data s p va)"

lemma kept_refl: "vm_ok h rinv own xs s \<Longrightarrow> kept h sd rinv own s own xs s"
  by (simp add: kept_def)

lemma kept_trans:
  assumes "kept h sd rinv own s own1 xs1 s1" "kept h sd rinv own1 s1 own2 xs2 s2"
  shows "kept h sd rinv own s own2 xs2 s2"
proof -
  have "uaddr h s1 p va = uaddr h s p va" for p va using assms(1) by (intro uaddr_same) (simp add: kept_def)
  then show ?thesis using assms same_procs_trans [of "sch s" "sch s1" "sch s2"] unfolding kept_def by simp
qed

lemma paged_kept: "paged h sd rinv own s own' xs' s' \<Longrightarrow> kept h sd rinv own s own' xs' s'"
  by (simp add: kept_def paged_def same_view_def umem_def)

lemma touch_frame_same:
  "same_frames f (touch_frame p va f)" "clock_hand (touch_frame p va f) = clock_hand f"
proof -
  show "same_frames f (touch_frame p va f)"
    unfolding touch_frame_def by (cases "find_idx (\<lambda>x. fused x \<and> fproc x = Some p \<and> fva x = va) (frame_table f)") simp_all
  show "clock_hand (touch_frame p va f) = clock_hand f" by (simp add: touch_frame_def upd_frame_def split: option.split)
qed

context user_paging
begin

lemma paged_same_frames:
  assumes ok: "vm_ok h rinv own xs s" and g: "same_frames (fr s) g" "clock_hand g = clock_hand (fr s)"
  shows "paged h slot_data rinv own s own xs (s\<lparr>fr := g\<rparr>)"
proof (rule vm_ok_frames [OF ok])
  have "clock_hand g < MAX_FRAMES" using g(2) vm_okD(2) [OF ok] by (simp add: frames_ok_def)
  then show "frames_ok g" using frames_ok_same [OF vm_okD(2) [OF ok] g(1)] by simp
  show "swap_map g = swap_map (fr s)" using g(1) by (simp add: same_frames_def)
  show "tracked (fr s) i \<and> fproc (frame_table g ! i) = fproc (frame_table (fr s) ! i) \<and> fva (frame_table g ! i) = fva (frame_table (fr s) ! i)"
    if "tracked g i" for i
    using that same_frames_facts(1) [OF g(1), of i] same_frames_nth(2) [OF g(1), of i] by (simp add: tracked_def)
qed

lemma paged_on_proc:
  assumes ok: "vm_ok h rinv own xs s" and g: "\<And>x. forget_stats (g x) = forget_stats x"
  shows "paged h slot_data rinv own s own xs (on_proc g p s)"
proof -
  note sp = same_procs_on_proc [OF g, of s p]
  note n = same_procs_nth [OF sp]
  have pt: "pte_of h (on_proc g p s) q va = pte_of h s q va" if "q < nproc (sch s)" for q va using n that by (simp add: on_proc_def)
  have "vm_ok h rinv own xs (on_proc g p s)"
    using vm_okD(1,3) [OF ok] pt by (intro vm_ok_same_pte [OF ok sp]) (simp_all add: uaddr_def, simp_all add: on_proc_def)
  moreover have "upage h slot_data (on_proc g p s) q va = upage h slot_data s q va" if "uaddr h s q va" for q va
    using pt [of q va] that by (simp add: upage_def uaddr_def) (simp add: on_proc_def)
  ultimately show ?thesis using sp pt by (simp add: paged_def same_view_def uaddr_def) (simp add: on_proc_def)
qed

lemma paged_swap:
  assumes ok: "vm_ok h rinv own xs s" and d: "rinv d" "\<forall>k < MAX_SWAP_PAGES. slot_data d k = slot_data (swp s) k"
  shows "paged h slot_data rinv own s own xs (s\<lparr>swp := d\<rparr>)"
proof -
  have "vm_ok h rinv own xs (s\<lparr>swp := d\<rparr>)"
    using vm_okD(1) [OF ok] d(1) by (intro vm_ok_same_pte [OF ok]) simp_all
  moreover have "map_option (slot_data d) (find_swap p va (fr s)) = map_option (slot_data (swp s)) (find_swap p va (fr s))" for p va
    using d(2) find_swap_Some [OF vm_okD(2) [OF ok], of p va] by (cases "find_swap p va (fr s)") auto
  then have "upage h slot_data (s\<lparr>swp := d\<rparr>) p va = upage h slot_data s p va" for p va by (simp add: upage_def)
  ultimately show ?thesis by (simp add: paged_def same_view_def uaddr_def)
qed

text \<open>A frame that no address maps yet is filled.\<close>

lemma unmapped_frame:
  assumes ok: "vm_ok h rinv own xs s" and u: "uaddr h s p va" and np: "\<not> user_pte h (pte_of h s p va)"
    and mem: "own mem = Frame (pagetable (proc_at s p)) (path_of h va)"
    and q: "uaddr h s q va'" "user_pte h (pte_of h s q va')"
  shows "PTE2PA h (pte_of h s q va') \<noteq> mem"
proof
  assume e: "PTE2PA h (pte_of h s q va') = mem"
  have "own (pagetable (proc_at s q)) = Table (pagetable (proc_at s q)) []" using vm_okD(5) [OF ok] q(1) by (simp add: uaddr_def)
  from user_pte_frame [OF vm_okD(1) [OF ok] this q(2)] e mem
  have "pagetable (proc_at s q) = pagetable (proc_at s p)" "path_of h va' = path_of h va" by simp_all
  then have "q = p" "va' = va" using vm_okD(6) [OF ok, of q p] path_of_inj [of va' va] u q(1) by (auto simp: uaddr_def)
  with np q(2) show False by simp
qed

lemma vm_ok_write:
  assumes ok: "vm_ok h rinv own xs s" and mem: "own mem = Kernel \<or> (\<exists>r pth. own mem = Frame r pth)" and pg: "length pg = page_bytes"
  shows "vm_ok h rinv own xs (s\<lparr>km := set_page mem pg (km s)\<rparr>)"
    and "uaddr h s q va \<Longrightarrow> pte_of h (s\<lparr>km := set_page mem pg (km s)\<rparr>) q va = pte_of h s q va"
proof -
  note w = write_page [OF vm_okD(1) [OF ok] _ pg, of mem]
  show pt: "pte_of h (s\<lparr>km := set_page mem pg (km s)\<rparr>) q va = pte_of h s q va" if "uaddr h s q va" for q va
    using w(2) [OF _ vm_okD(5) [OF ok, of q]] mem that by (simp add: uaddr_def)
  show "vm_ok h rinv own xs (s\<lparr>km := set_page mem pg (km s)\<rparr>)"
    using w(1) mem vm_okD(3) [OF ok] pt by (intro vm_ok_same_pte [OF ok]) simp_all
qed

lemma fill_frame:
  assumes ok: "vm_ok h rinv own xs s" and u: "uaddr h s p va" and np: "\<not> user_pte h (pte_of h s p va)"
    and mem: "own mem = Frame (pagetable (proc_at s p)) (path_of h va)" and pg: "length pg = page_bytes"
  shows "paged h slot_data rinv own s own xs (s\<lparr>km := set_page mem pg (km s)\<rparr>)"
proof -
  let ?s = "s\<lparr>km := set_page mem pg (km s)\<rparr>"
  have "own mem = Kernel \<or> (\<exists>r pth. own mem = Frame r pth)" using mem by blast
  note w = vm_ok_write [OF ok this pg]
  have "upage h slot_data ?s q va' = upage h slot_data s q va'" if "uaddr h s q va'" for q va'
    using w(2) [OF that] unmapped_frame [OF ok u np mem that] by (auto simp: upage_def)
  then show ?thesis using w mem by (auto simp: paged_def same_view_def)
qed

lemma leaf_slot_complete:
  assumes ok: "mem_ok h own xs m" and b: "own b = Table pt [PX h 2 va, PX h 1 va]"
  shows "leaf_slot h m pt va = Some (b, PX h 0 va)"
proof -
  from mem_okD(8) [OF ok, of b pt "[PX h 2 va]" "PX h 1 va"] b
  obtain a where a: "own a = Table pt [PX h 2 va]" "next_table h m a (PX h 1 va) = Some b" by auto
  from mem_okD(8) [OF ok, of a pt "[]" "PX h 2 va"] a(1)
  obtain r where r: "own r = Table pt []" "next_table h m r (PX h 2 va) = Some a" by auto
  from mem_okD(7) [OF ok r(1)] r a show ?thesis by (simp add: leaf_slot_def)
qed

lemma unmapped_unref:
  assumes ok: "mem_ok h own xs m" and np: "\<not> user_pte h (pte_at h m pt va)" and mem: "own mem = Frame pt (path_of h va)"
    and b: "own b = Table r p" "own mem = Frame r (p @ [i])" "i < 512"
  shows "pte_val m (b, i) AND PTE_V h = 0 \<or> pte_val m (b, i) AND PTE_U h = 0 \<or> PTE2PA h (pte_val m (b, i)) \<noteq> mem"
proof -
  have "r = pt" "p = [PX h 2 va, PX h 1 va]" "i = PX h 0 va" using mem b(2) by (auto simp: path_of_def)
  with leaf_slot_complete [OF ok] b(1) have "pte_at h m pt va = pte_val m (b, i)" by (simp add: pte_at_def)
  with np show ?thesis by (auto simp: user_pte_def)
qed

lemma drop_frame_ok:
  assumes "frames_ok f"
  shows "frames_ok (drop_frame p va f)" "swap_map (drop_frame p va f) = swap_map f"
    and "tracked (drop_frame p va f) i \<Longrightarrow> tracked f i \<and> fproc (frame_table (drop_frame p va f) ! i) = fproc (frame_table f ! i)
       \<and> fva (frame_table (drop_frame p va f) ! i) = fva (frame_table f ! i)"
proof -
  have "drop_frame p va f = f \<or> (\<exists>j. tracked f j \<and> drop_frame p va f = without_frame j f)"
  proof (cases "find_idx (\<lambda>x. fused x \<and> user_frame x \<and> fproc x = p \<and> fva x = va) (frame_table f)")
    case (Some j)
    then have "tracked f j" using find_idx_SomeD [OF Some] by (simp add: tracked_def)
    with Some without_frame_ok(2) [OF assms this] show ?thesis
      by (auto simp: drop_frame_def dec_frame_count_def upd_frame_def without_frame_def)
  qed (simp add: drop_frame_def)
  then show "frames_ok (drop_frame p va f)" "swap_map (drop_frame p va f) = swap_map f"
    "tracked (drop_frame p va f) i \<Longrightarrow> tracked f i \<and> fproc (frame_table (drop_frame p va f) ! i) = fproc (frame_table f ! i)
       \<and> fva (frame_table (drop_frame p va f) ! i) = fva (frame_table f ! i)"
    using assms without_frame_ok [OF assms] by (auto simp: without_frame_def tracked_def nth_list_update no_frame_def split: if_splits)
qed

text \<open>Only page tables and free pages have changed, and no address space.\<close>

lemma paged_mem:
  assumes ok: "vm_ok h rinv own xs s" and m: "mem_ok h own' xs' m'"
    and roots: "\<And>a. own a = Table a [] \<Longrightarrow> own' a = Table a []"
    and view: "\<And>pt va. own pt = Table pt [] \<Longrightarrow> pte_at h m' pt va = pte_at h (km s) pt va"
    and pages: "\<And>q va. uaddr h s q va \<Longrightarrow> user_pte h (pte_of h s q va) \<Longrightarrow> pm m' (PTE2PA h (pte_of h s q va)) = pm (km s) (PTE2PA h (pte_of h s q va))"
    and kern: "\<And>a. own a = Kernel \<Longrightarrow> own' a = Kernel \<and> pm m' a = pm (km s) a"
  shows "paged h slot_data rinv own s own' xs' (s\<lparr>km := m'\<rparr>)"
proof -
  let ?s = "s\<lparr>km := m'\<rparr>"
  have pt: "pte_of h ?s q va = pte_of h s q va" if "uaddr h s q va" for q va
    using view vm_okD(5) [OF ok, of q] that by (simp add: uaddr_def)
  have "vm_ok h rinv own' xs' ?s" using m vm_okD(3) [OF ok] roots pt by (intro vm_ok_same_pte [OF ok]) simp_all
  moreover have "upage h slot_data ?s q va = upage h slot_data s q va" if "uaddr h s q va" for q va
    using pt [OF that] pages [OF that] by (auto simp: upage_def)
  ultimately show ?thesis using pt kern by (auto simp: paged_def same_view_def)
qed

lemma user_frame_role:
  assumes "vm_ok h rinv own xs s" "uaddr h s q va" "user_pte h (pte_of h s q va)"
  shows "own (PTE2PA h (pte_of h s q va)) = Frame (pagetable (proc_at s q)) (path_of h va)"
  using user_pte_frame [OF vm_okD(1) [OF assms(1)] vm_okD(5) [OF assms(1)] assms(3)] assms(2) by (simp add: uaddr_def)

lemma paged_grown:
  assumes ok: "vm_ok h rinv own xs s" and g: "grown h own xs (km s) own' xs' m'"
  shows "paged h slot_data rinv own s own' xs' (s\<lparr>km := m'\<rparr>)"
proof (rule paged_mem [OF ok])
  show "pm m' (PTE2PA h (pte_of h s q va)) = pm (km s) (PTE2PA h (pte_of h s q va))" if "uaddr h s q va" "user_pte h (pte_of h s q va)" for q va
    using user_frame_role [OF ok that] g by (simp add: grown_def)
qed (use g in \<open>auto simp: grown_def\<close>)

text \<open>A frame that no address maps is given back.\<close>

lemma free_unmapped:
  assumes ok: "vm_ok h rinv own xs s" and u: "uaddr h s p va" and np: "\<not> user_pte h (pte_of h s p va)"
    and mem: "own mem = Frame (pagetable (proc_at s p)) (path_of h va)"
  shows "\<exists>s'. free_user_frame h p va mem s = Inr s' \<and> paged h slot_data rinv own s (own(mem := Free)) (mem # xs) s'"
proof -
  obtain m' where m': "kfree h mem (km s) = Inr m'" "mem_ok h (own(mem := Free)) (mem # xs) m'" "\<forall>b. b \<noteq> mem \<longrightarrow> pm m' b = pm (km s) b"
    "\<forall>pt va. own pt = Table pt [] \<longrightarrow> pte_at h m' pt va = pte_at h (km s) pt va"
    using give_page [OF vm_okD(1) [OF ok], of mem] unmapped_unref [OF vm_okD(1) [OF ok] np mem] mem by blast
  have 1: "paged h slot_data rinv own s (own(mem := Free)) (mem # xs) (s\<lparr>km := m'\<rparr>)"
    using m' mem unmapped_frame [OF ok u np mem] by (intro paged_mem [OF ok]) auto
  then have ok1: "vm_ok h rinv (own(mem := Free)) (mem # xs) (s\<lparr>km := m'\<rparr>)" by (simp add: paged_def)
  note d = drop_frame_ok [OF vm_okD(2) [OF ok], of "Some p" va]
  have "paged h slot_data rinv (own(mem := Free)) (s\<lparr>km := m'\<rparr>) (own(mem := Free)) (mem # xs) (s\<lparr>km := m', fr := drop_frame (Some p) va (fr s)\<rparr>)"
    using vm_ok_frames [OF ok1, of "drop_frame (Some p) va (fr s)"] d by simp
  from paged_trans [OF 1 this] m'(1) show ?thesis by (simp add: free_user_frame_def)
qed

text \<open>The page of \<open>va\<close> is now resident in the frame \<open>mem\<close>; every other page is as it was.\<close>

definition faulted :: "nat \<Rightarrow> u64 \<Rightarrow> u64 \<Rightarrow> (u64 \<Rightarrow> role) \<Rightarrow> 'd vm \<Rightarrow> (u64 \<Rightarrow> role) \<Rightarrow> u64 list \<Rightarrow> 'd vm \<Rightarrow> bool" where
  "faulted p va mem own s own' xs' s' \<longleftrightarrow>
     vm_ok h rinv own' xs' s' \<and> same_procs (sch s) (sch s')
   \<and> (\<forall>q va'. uaddr h s q va' \<and> (q \<noteq> p \<or> va' \<noteq> va) \<longrightarrow> upage h slot_data s' q va' = upage h slot_data s q va')
   \<and> user_pte h (pte_of h s' p va) \<and> PTE2PA h (pte_of h s' p va) = mem
   \<and> (pte_of h s p va AND PTE_V h = 0 \<longrightarrow> pte_of h s' p va AND PTE_W h \<noteq> 0)
   \<and> (\<forall>a. own a = Kernel \<longrightarrow> own' a = Kernel \<and> pm (km s') a = pm (km s) a)"

lemma page_mapped:
  assumes ok: "vm_ok h rinv own xs s" and u: "uaddr h s p va" and np: "pte_of h s p va AND PTE_V h = 0"
    and mem: "own mem = Frame (pagetable (proc_at s p)) (path_of h va)"
    and m: "mapped h own xs (km s) own' xs' m' (pagetable (proc_at s p)) va e"
    and e: "user_pte h e" "e AND PTE_W h \<noteq> 0" "PTE2PA h e = mem"
    and g: "frames_ok g" "\<And>q va'. find_swap q va' g = (if q = p \<and> va' = va then None else find_swap q va' (fr s))"
      "\<And>i. tracked g i \<Longrightarrow> tracked (fr s) i \<and> fproc (frame_table g ! i) = fproc (frame_table (fr s) ! i)
         \<and> fva (frame_table g ! i) = fva (frame_table (fr s) ! i)"
    and sc: "same_procs (sch s) sc"
    and s': "s' = s\<lparr>km := m', fr := g, sch := sc\<rparr>"
  shows "faulted p va mem own s own' xs' s'" and "upage h slot_data s' p va = Some (pm (km s) mem)"
proof -
  let ?pt = "pagetable (proc_at s p)"
  note n = same_procs_nth [OF sc]
  have np': "\<not> user_pte h (pte_of h s p va)" using np by (simp add: user_pte_def)
  have pte: "pte_of h s' q va' = (if q = p \<and> va' = va then e else pte_of h s q va')" if "uaddr h s q va'" for q va'
  proof -
    have "own (pagetable (proc_at s q)) = Table (pagetable (proc_at s q)) []" using vm_okD(5) [OF ok] that by (simp add: uaddr_def)
    moreover have "pagetable (proc_at s q) = ?pt \<longleftrightarrow> q = p" using vm_okD(6) [OF ok, of q p] that u by (auto simp: uaddr_def)
    ultimately show ?thesis using m that n by (simp add: mapped_def s' uaddr_def)
  qed
  have pages: "pm m' b = pm (km s) b" if "own b = Frame r pth" for b r pth using m that by (simp add: mapped_def)
  have same: "same_procs (sch s) (sch s')" using sc by (simp add: s')
  have "vm_ok h rinv own' xs' s'"
  proof (rule vm_ok_change [OF ok same])
    show "mem_ok h own' xs' (km s')" "frames_ok (fr s')" "rinv (swp s')" using m g(1) vm_okD(3) [OF ok] by (simp_all add: s' mapped_def)
    show "own' a = Table a []" if "own a = Table a []" for a using m that by (simp add: mapped_def)
    show "uaddr h s q va' \<and> pte_of h s' q va' AND PTE_V h = 0" if f: "find_swap q va' (fr s') = Some k" for q va' k
    proof -
      have "\<not> (q = p \<and> va' = va)" "find_swap q va' (fr s) = Some k" using f g(2) [of q va'] by (auto simp: s' split: if_splits)
      then show ?thesis using vm_okD(8) [OF ok, of q va' k] pte [of q va'] by auto
    qed
    fix i q
    assume i: "tracked (fr s') i" "fproc (frame_table (fr s') ! i) = Some q"
    then have gi: "tracked (fr s) i" "fproc (frame_table (fr s) ! i) = Some q" "fva (frame_table g ! i) = fva (frame_table (fr s) ! i)"
      using g(3) [of i] by (simp_all add: s')
    let ?a = "fva (frame_table (fr s) ! i)"
    have v: "q < nproc (sch s) \<and> page_aligned ?a \<and> ?a < MAXVA h
      \<and> (uaddr h s q ?a \<longrightarrow> pte_of h s q ?a AND PTE_V h \<noteq> 0 \<longrightarrow> pte_of h s q ?a AND PTE_U h \<noteq> 0)"
      using vm_okD(7) [OF ok gi(1,2)] by (simp add: uaddr_def)
    moreover have "uaddr h s q ?a \<longrightarrow> pte_of h s' q ?a AND PTE_V h \<noteq> 0 \<longrightarrow> pte_of h s' q ?a AND PTE_U h \<noteq> 0"
      using pte [of q ?a] v e(1) by (auto simp: user_pte_def)
    ultimately show "q < nproc (sch s) \<and> page_aligned (fva (frame_table (fr s') ! i)) \<and> fva (frame_table (fr s') ! i) < MAXVA h
      \<and> (uaddr h s q (fva (frame_table (fr s') ! i)) \<longrightarrow> pte_of h s' q (fva (frame_table (fr s') ! i)) AND PTE_V h \<noteq> 0 \<longrightarrow>
           pte_of h s' q (fva (frame_table (fr s') ! i)) AND PTE_U h \<noteq> 0)"
      using gi(3) by (simp add: s')
  qed
  moreover have "upage h slot_data s' q va' = upage h slot_data s q va'" if q: "uaddr h s q va'" "q \<noteq> p \<or> va' \<noteq> va" for q va'
  proof -
    have p': "pte_of h s' q va' = pte_of h s q va'" using pte [OF q(1)] q(2) by auto
    show ?thesis
    proof (cases "user_pte h (pte_of h s q va')")
      case True
      then show ?thesis using pages [OF user_frame_role [OF ok q(1) True]] p' by (simp add: upage_def s')
    next
      case False
      then show ?thesis using p' g(2) [of q va'] q(2) by (auto simp: upage_def s')
    qed
  qed
  moreover have pe: "pte_of h s' p va = e" using pte [OF u] by simp
  moreover have "own' a = Kernel \<and> pm (km s') a = pm (km s) a" if "own a = Kernel" for a using m that by (simp add: mapped_def s')
  ultimately show "faulted p va mem own s own' xs' s'" using same e by (auto simp: faulted_def)
  show "upage h slot_data s' p va = Some (pm (km s) mem)" using pe e pages [OF mem] by (simp add: upage_def s')
qed

lemma fault_perm: "(PTE_W h OR PTE_U h OR PTE_R h) < 1024" "(PTE_W h OR PTE_U h OR PTE_R h) AND PTE_U h \<noteq> 0"
  by (simp_all add: flag_bits)

lemma fault_pte:
  assumes "phys_ok h mem"
  shows "user_pte h (PA2PTE h mem OR (PTE_W h OR PTE_U h OR PTE_R h) OR PTE_V h)"
    "(PA2PTE h mem OR (PTE_W h OR PTE_U h OR PTE_R h) OR PTE_V h) AND PTE_W h \<noteq> 0"
    "PTE2PA h (PA2PTE h mem OR (PTE_W h OR PTE_U h OR PTE_R h) OR PTE_V h) = mem"
proof -
  let ?f = "PTE_W h OR PTE_U h OR PTE_R h"
  show "user_pte h (PA2PTE h mem OR ?f OR PTE_V h)"
    using new_pte_flags [of mem ?f] fault_perm(2) unfolding user_pte_def by simp
  have "(PA2PTE h mem OR (?f OR PTE_V h)) AND PTE_W h = (?f OR PTE_V h) AND PTE_W h"
    by (rule pte_flag_bits) (simp add: flag_bits)
  then show "(PA2PTE h mem OR ?f OR PTE_V h) AND PTE_W h \<noteq> 0" by (simp add: flag_bits)
  show "PTE2PA h (PA2PTE h mem OR ?f OR PTE_V h) = mem"
    using phys_pte [OF assms, of "?f OR PTE_V h"] by (simp add: flag_bits)
qed

text \<open>The end of a page fault, for a continuation \<open>fin\<close> that changes frames and counters only.\<close>

lemma fault_map_spec:
  assumes ok: "vm_ok h rinv own xs s" and u: "uaddr h s p va" and np: "pte_of h s p va AND PTE_V h = 0"
    and mem: "own mem = Frame (pagetable (proc_at s p)) (path_of h va)"
    and fin: "\<And>t. fin t = t\<lparr>fr := fr (fin t), sch := sch (fin t)\<rparr>"
      "\<And>t. same_procs (sch t) (sch (fin t))"
      "\<And>t. fr t = touch_frame p va (fr s) \<Longrightarrow> frames_ok (fr (fin t))"
      "\<And>t q va'. fr t = touch_frame p va (fr s) \<Longrightarrow> find_swap q va' (fr (fin t)) = (if q = p \<and> va' = va then None else find_swap q va' (fr s))"
      "\<And>t. frame_table (fr (fin t)) = frame_table (fr t)"
  shows "(\<exists>s' own' xs'. fault_map h p va mem fin s = Inr (0, s') \<and> paged h slot_data rinv own s own' xs' s' \<and> length xs' \<le> 2)
    \<or> (\<exists>s' own' xs'. fault_map h p va mem fin s = Inr (mem, s') \<and> faulted p va mem own s own' xs' s' \<and> upage h slot_data s' p va = Some (pm (km s) mem))"
proof -
  let ?pt = "pagetable (proc_at s p)" and ?f = "PTE_W h OR PTE_U h OR PTE_R h"
  have pt: "own ?pt = Table ?pt []" and va: "page_aligned va" "va < MAXVA h" using u vm_okD(5) [OF ok] by (simp_all add: uaddr_def)
  have ph: "phys_ok h mem" using mem_okD(3) [OF vm_okD(1) [OF ok]] mem by simp
  then have pa: "page_aligned mem" "mem < 2 ^ 56" using ram(3) by (auto simp: phys_ok_def)
  consider (fail) own' xs' m' where "mappages h ?pt va 4096 mem ?f (km s) = Inr (-1, m')" "grown h own xs (km s) own' xs' m'" "length xs < 2"
    | (mp) own' xs' m' where "mappages h ?pt va 4096 mem ?f (km s) = Inr (0, m')" "mapped h own xs (km s) own' xs' m' ?pt va (PA2PTE h mem OR ?f OR PTE_V h)"
    using map_page [OF vm_okD(1) [OF ok] pt va np pa fault_perm(1)] mem by blast
  then show ?thesis
  proof cases
    case fail
    note 1 = paged_grown [OF ok fail(2)]
    have ok1: "vm_ok h rinv own' xs' (s\<lparr>km := m'\<rparr>)" using 1 by (simp add: paged_def)
    have np1: "\<not> user_pte h (pte_of h (s\<lparr>km := m'\<rparr>) p va)" using 1 u np by (auto simp: paged_def user_pte_def)
    have "own' mem = Frame (pagetable (proc_at (s\<lparr>km := m'\<rparr>) p)) (path_of h va)" using fail(2) mem by (simp add: grown_def)
    from free_unmapped [OF ok1 _ np1 this] u obtain s' where
      f: "free_user_frame h p va mem (s\<lparr>km := m'\<rparr>) = Inr s'" "paged h slot_data rinv own' (s\<lparr>km := m'\<rparr>) (own'(mem := Free)) (mem # xs') s'"
      by (auto simp: uaddr_def)
    have "fault_map h p va mem fin s = Inr (0, s')" using fail(1) f(1) by (simp add: fault_map_def)
    moreover have "length (mem # xs') \<le> 2" using fail(2,3) by (auto simp: grown_def)
    ultimately show ?thesis using paged_trans [OF 1 f(2)] by blast
  next
    case mp
    let ?t = "s\<lparr>km := m', fr := touch_frame p va (fr s)\<rparr>"
    have run: "fault_map h p va mem fin s = Inr (mem, fin ?t)" using mp(1) by (simp add: fault_map_def)
    have s': "fin ?t = s\<lparr>km := m', fr := fr (fin ?t), sch := sch (fin ?t)\<rparr>" using fin(1) [of ?t] by simp
    note tf = touch_frame_same(1) [of "fr s" p va]
    have tr: "tracked (fr s) i \<and> fproc (frame_table (fr (fin ?t)) ! i) = fproc (frame_table (fr s) ! i)
         \<and> fva (frame_table (fr (fin ?t)) ! i) = fva (frame_table (fr s) ! i)" if "tracked (fr (fin ?t)) i" for i
    proof -
      have "tracked (touch_frame p va (fr s)) i" using that fin(5) [of ?t] by (simp add: tracked_def)
      then have "tracked (fr s) i" using same_frames_facts(1) [OF tf] by simp
      then show ?thesis using same_frames_nth(2) [OF tf, of i] fin(5) [of ?t] by (simp add: tracked_def)
    qed
    have "same_procs (sch s) (sch (fin ?t))" using fin(2) [of ?t] by simp
    from page_mapped [OF ok u np mem mp(2) fault_pte [OF ph] fin(3) [of ?t] fin(4) [of ?t] tr this s'] run show ?thesis by auto
  qed
qed

lemma paged_faulted:
  assumes "paged h slot_data rinv own s own1 xs1 s1" "faulted p va mem own1 s1 own' xs' s'" "uaddr h s p va"
  shows "faulted p va mem own s own' xs' s'"
proof -
  have sp: "same_procs (sch s) (sch s1)" using assms(1) by (simp add: paged_def same_view_def)
  have "same_procs (sch s) (sch s')" using same_procs_trans [OF sp] assms(2) by (simp add: faulted_def)
  then show ?thesis using assms uaddr_same [OF sp, of h] by (simp add: faulted_def paged_def same_view_def)
qed

text \<open>The two continuations.\<close>

lemma find_swap_touch: "find_swap q va' (touch_frame p va f) = find_swap q va' f"
  using touch_frame_same(1) [of f p va] by (simp add: same_frames_def find_swap_def)

lemma frames_ok_touch:
  assumes "frames_ok f"
  shows "frames_ok (touch_frame p va f)"
proof -
  have "clock_hand (touch_frame p va f) < MAX_FRAMES" using assms touch_frame_same(2) [of p va f] by (simp add: frames_ok_def)
  then show ?thesis using frames_ok_same [OF assms touch_frame_same(1), of p va] by simp
qed

lemma find_swap_slot:
  assumes "frames_ok f" "find_swap p va f = Some k"
  shows "k < MAX_SWAP_PAGES" "sslot (swap_map f ! k) = int k"
  using find_swap_Some [OF assms(1), THEN iffD1, OF assms(2)] assms(1) by (simp_all add: frames_ok_def)

lemma forget_stats_counters [simp]:
  "forget_stats (x\<lparr>page_faults := a\<rparr>) = forget_stats x"
  "forget_stats (x\<lparr>resident_pages := b\<rparr>) = forget_stats x"
  "forget_stats (x\<lparr>pages_swapped_in := c\<rparr>) = forget_stats x"
  by (simp_all add: forget_stats_def)

lemma lazy_done_facts:
  "lazy_done p t = t\<lparr>fr := fr (lazy_done p t), sch := sch (lazy_done p t)\<rparr>"
  "same_procs (sch t) (sch (lazy_done p t))" "fr (lazy_done p t) = fr t"
  unfolding lazy_done_def by (simp add: on_proc_def, rule same_procs_on_proc, simp, simp add: on_proc_def)

lemma swap_in_done_facts:
  "swap_in_done p found slot t = t\<lparr>fr := fr (swap_in_done p found slot t), sch := sch (swap_in_done p found slot t)\<rparr>"
  "same_procs (sch t) (sch (swap_in_done p found slot t))"
  "frame_table (fr (swap_in_done p found slot t)) = frame_table (fr t)"
  "slot = sslot (swap_map (fr t) ! found) \<Longrightarrow> fr (swap_in_done p found slot t) = release_swap found (fr t)"
proof -
  show "swap_in_done p found slot t = t\<lparr>fr := fr (swap_in_done p found slot t), sch := sch (swap_in_done p found slot t)\<rparr>"
    "frame_table (fr (swap_in_done p found slot t)) = frame_table (fr t)" by (simp_all add: swap_in_done_def on_proc_def)
  show "same_procs (sch t) (sch (swap_in_done p found slot t))"
    using same_procs_on_proc [of "\<lambda>x. x\<lparr>pages_swapped_in := c_int (pages_swapped_in x + 1), resident_pages := c_int (resident_pages x + 1)\<rparr>"
      "t\<lparr>fr := (fr t)\<lparr>swap_used := (swap_used (fr t))[nat slot := False], swap_map := (swap_map (fr t))[found := no_swap]\<rparr>\<rparr>" p]
    by (simp add: swap_in_done_def)
  show "fr (swap_in_done p found slot t) = release_swap found (fr t)" if "slot = sslot (swap_map (fr t) ! found)"
    using that by (simp add: swap_in_done_def on_proc_def release_swap_def)
qed

text \<open>What a call of \<open>vmfault\<close> at the page \<open>va\<close> may answer: 0 and nothing the processes see has changed, or the frame.\<close>

definition fault_answer :: "nat \<Rightarrow> u64 \<Rightarrow> (u64 \<Rightarrow> role) \<Rightarrow> 'd vm \<Rightarrow> u64 \<times> 'd vm \<Rightarrow> bool" where
  "fault_answer p va own s = (\<lambda>(r, s').
     \<exists>own' xs'. if r = 0 then paged h slot_data rinv own s own' xs' s'
                   \<and> (pte_of h s p va AND PTE_V h \<noteq> 0 \<and> \<not> user_pte h (pte_of h s p va)
                      \<or> user_frame_count (fr s') = 0 \<or> swap_full s' \<or> length xs' \<le> 2)
                else faulted p va r own s own' xs' s'
                   \<and> upage h slot_data s' p va = Some (case upage h slot_data s p va of None \<Rightarrow> replicate page_bytes 0 | Some c \<Rightarrow> c))"

lemma owned_nonzero: "mem_ok h own xs m \<Longrightarrow> own a \<noteq> Unowned \<Longrightarrow> a \<noteq> 0"
  using mem_okD(3) [of h own xs m a] ram(1) by (auto simp: phys_ok_def)

lemma fault_lazy:
  assumes ok: "vm_ok h rinv own xs s" and u: "uaddr h s p va" and np: "pte_of h s p va AND PTE_V h = 0"
    and mem: "own mem = Frame (pagetable (proc_at s p)) (path_of h va)" and none: "find_swap p va (fr s) = None"
  shows "\<exists>v. fault_map h p va mem (lazy_done p) (s\<lparr>km := set_page mem (replicate page_bytes 0) (km s)\<rparr>) = Inr v \<and> fault_answer p va own s v"
proof -
  let ?s = "s\<lparr>km := set_page mem (replicate page_bytes 0) (km s)\<rparr>"
  have np': "\<not> user_pte h (pte_of h s p va)" using np by (simp add: user_pte_def)
  note 1 = fill_frame [OF ok u np' mem, of "replicate page_bytes 0", simplified]
  note 2 = paged_uaddr [OF 1 u np]
  have m0: "mem \<noteq> 0" using owned_nonzero [OF vm_okD(1) [OF ok]] mem by simp
  have f: "frames_ok (fr ?s)" using vm_okD(2) [OF ok] by simp
  have "(\<exists>s' own' xs'. fault_map h p va mem (lazy_done p) ?s = Inr (0, s') \<and> paged h slot_data rinv own ?s own' xs' s' \<and> length xs' \<le> 2)
    \<or> (\<exists>s' own' xs'. fault_map h p va mem (lazy_done p) ?s = Inr (mem, s') \<and> faulted p va mem own ?s own' xs' s'
         \<and> upage h slot_data s' p va = Some (pm (km ?s) mem))"
    using mem none frames_ok_touch [OF f, of p va]
    by (intro fault_map_spec [OF 2] lazy_done_facts(1-2)) (simp_all add: lazy_done_facts(3) find_swap_touch)
  then show ?thesis
  proof (elim disjE exE conjE)
    fix s' own' xs'
    assume a: "fault_map h p va mem (lazy_done p) ?s = Inr (0, s')" "paged h slot_data rinv own ?s own' xs' s'" "length xs' \<le> 2"
    then show ?thesis using paged_trans [OF 1 a(2)] by (auto simp: fault_answer_def)
  next
    fix s' own' xs'
    assume a: "fault_map h p va mem (lazy_done p) ?s = Inr (mem, s')" "faulted p va mem own ?s own' xs' s'"
      "upage h slot_data s' p va = Some (pm (km ?s) mem)"
    then show ?thesis using paged_faulted [OF 1 a(2) u] m0 np' none by (auto simp: fault_answer_def upage_def)
  qed
qed

lemma fault_swap_in:
  assumes ok: "vm_ok h rinv own xs s" and u: "uaddr h s p va" and np: "pte_of h s p va AND PTE_V h = 0"
    and mem: "own mem = Frame (pagetable (proc_at s p)) (path_of h va)" and found: "find_swap p va (fr s) = Some k"
    and slot: "slot = sslot (swap_map (fr s) ! k)" and pg: "pg = slot_data (swp s) k"
  shows "\<exists>v. fault_map h p va mem (swap_in_done p k slot) (s\<lparr>km := set_page mem pg (km s)\<rparr>) = Inr v \<and> fault_answer p va own s v"
proof -
  let ?s = "s\<lparr>km := set_page mem pg (km s)\<rparr>" and ?fin = "swap_in_done p k slot"
  have np': "\<not> user_pte h (pte_of h s p va)" using np by (simp add: user_pte_def)
  have f: "frames_ok (fr s)" using vm_okD(2) [OF ok] .
  note k = find_swap_Some [OF f, THEN iffD1, OF found]
  have len: "length pg = page_bytes" using slot_length [OF vm_okD(3) [OF ok]] k pg by (simp add: PGSIZE_def)
  note 1 = fill_frame [OF ok u np' mem len]
  note 2 = paged_uaddr [OF 1 u np]
  have m0: "mem \<noteq> 0" using owned_nonzero [OF vm_okD(1) [OF ok]] mem by simp
  let ?f = "touch_frame p va (fr s)"
  note tf = frames_ok_touch [OF f, of p va]
  have sm: "swap_map ?f = swap_map (fr s)" using touch_frame_same(1) [of "fr s" p va] by (simp add: same_frames_def)
  have fin: "fr (?fin t) = release_swap k ?f" if "fr t = ?f" for t :: "'d vm" using swap_in_done_facts(4) [of slot t k p] that sm slot by simp
  have k': "k < MAX_SWAP_PAGES" "sused (swap_map ?f ! k)" using k sm by simp_all
  note rel = release_swap_ok [OF tf k']
  have uniq: "find_swap q va' (fr s) = Some k \<longleftrightarrow> q = p \<and> va' = va" for q va' using find_swap_Some [OF f] k by auto
  have fs: "find_swap q va' (release_swap k ?f) = (if q = p \<and> va' = va then None else find_swap q va' (fr s))" for q va'
    using rel(3) [of q va'] uniq [of q va'] by (simp add: find_swap_touch)
  have "(\<exists>s' own' xs'. fault_map h p va mem ?fin ?s = Inr (0, s') \<and> paged h slot_data rinv own ?s own' xs' s' \<and> length xs' \<le> 2)
    \<or> (\<exists>s' own' xs'. fault_map h p va mem ?fin ?s = Inr (mem, s') \<and> faulted p va mem own ?s own' xs' s'
         \<and> upage h slot_data s' p va = Some (pm (km ?s) mem))"
    using mem fin fs rel(1) by (intro fault_map_spec [OF 2] swap_in_done_facts(1-3)) simp_all
  then show ?thesis
  proof (elim disjE exE conjE)
    fix s' own' xs'
    assume a: "fault_map h p va mem ?fin ?s = Inr (0, s')" "paged h slot_data rinv own ?s own' xs' s'" "length xs' \<le> 2"
    then show ?thesis using paged_trans [OF 1 a(2)] by (auto simp: fault_answer_def)
  next
    fix s' own' xs'
    assume a: "fault_map h p va mem ?fin ?s = Inr (mem, s')" "faulted p va mem own ?s own' xs' s'"
      "upage h slot_data s' p va = Some (pm (km ?s) mem)"
    then show ?thesis using paged_faulted [OF 1 a(2) u] m0 np' found pg by (auto simp: fault_answer_def upage_def)
  qed
qed

lemma fault_answer_paged:
  assumes "paged h slot_data rinv own s own1 xs1 s1" "uaddr h s p va" "pte_of h s p va AND PTE_V h = 0" "fault_answer p va own1 s1 v"
  shows "fault_answer p va own s v"
proof -
  have "upage h slot_data s1 p va = upage h slot_data s p va" using assms(1,2) by (simp add: paged_def same_view_def)
  moreover have "pte_of h s1 p va AND PTE_V h = 0" using paged_uaddr(3) [OF assms(1-3)] .
  ultimately show ?thesis
    using assms(3,4) paged_trans [OF assms(1)] paged_faulted [OF assms(1) _ assms(2)]
    unfolding fault_answer_def by (fastforce split: if_splits)
qed

lemma fault_resident:
  assumes ok: "vm_ok h rinv own xs s" and u: "uaddr h s p va" and v: "pte_of h s p va AND PTE_V h \<noteq> 0"
  shows "fault_answer p va own s (if pte_of h s p va AND PTE_U h = 0 then 0 else PTE2PA h (pte_of h s p va), s\<lparr>fr := touch_frame p va (fr s)\<rparr>)"
proof -
  let ?s = "s\<lparr>fr := touch_frame p va (fr s)\<rparr>" and ?e = "pte_of h s p va"
  note 1 = paged_same_frames [OF ok touch_frame_same]
  show ?thesis
  proof (cases "user_pte h ?e")
    case True
    have "PTE2PA h ?e \<noteq> 0" using owned_nonzero [OF vm_okD(1) [OF ok]] user_frame_role [OF ok u True] by simp
    moreover have "faulted p va (PTE2PA h ?e) own s own xs ?s" using 1 True v by (simp add: faulted_def paged_def same_view_def)
    ultimately show ?thesis using True by (auto simp: fault_answer_def user_pte_def upage_def)
  next
    case False
    then show ?thesis using 1 v by (auto simp: fault_answer_def user_pte_def)
  qed
qed

lemma vmfault_spec:
  assumes ok: "vm_ok h rinv own xs s" and p: "p < nproc (sch s)" "pagetable (proc_at s p) \<noteq> 0"
    and va: "va0 < psz (proc_at s p)" "psz (proc_at s p) \<le> MAXVA h"
  shows "\<exists>v. vmfault h so (Some p) (pagetable (proc_at s p)) va0 s = Inr v \<and> fault_answer p (PGROUNDDOWN h va0) own s v"
proof -
  let ?va = "PGROUNDDOWN h va0" and ?pt = "pagetable (proc_at s p)"
  have lt: "?va < MAXVA h" using va pgrounddown_le [of va0] by (meson le_less_trans less_le_trans)
  have u: "uaddr h s p ?va" using p lt by (simp add: uaddr_def)
  have va: "\<not> psz (proc_at s p) \<le> va0" using va(1) by simp
  show ?thesis
  proof (cases "pte_of h s p ?va AND PTE_V h = 0")
    case False
    then show ?thesis using va fault_resident [OF ok u False]
      by (simp add: vmfault_def Let_def ismapped_pte [OF lt] walkaddr_pte [OF lt])
  next
    case np: True
    let ?s1 = "on_proc (\<lambda>x. x\<lparr>page_faults := c_int (page_faults x + 1)\<rparr>) p s"
    have 1: "paged h slot_data rinv own s own xs ?s1" by (rule paged_on_proc [OF ok]) simp
    note u1 = paged_uaddr [OF 1 u np]
    obtain r s2 where k: "kalloc_user h so p ?va ?s1 = Inr (r, s2)" "user_page p ?va own ?s1 r s2" using kalloc_user_spec [OF u1] by blast
    then obtain own2 xs2 where 2: "paged h slot_data rinv own ?s1 own2 xs2 s2"
      "if r = 0 then user_frame_count (fr s2) = 0 \<or> swap_full s2
       else own2 r = Frame (pagetable (proc_at s2 p)) (path_of h ?va) \<and> pm (km s2) r = replicate page_bytes 0"
      by (auto simp: user_page_def)
    note u2 = paged_uaddr [OF 2(1) u1(2,3)]
    have fs: "find_swap p ?va (fr s2) = find_swap p ?va (fr ?s1)" using 2(1) u1(2,3) by (simp add: paged_def)
    have "\<exists>v. vmfault h so (Some p) ?pt va0 s = Inr v \<and> fault_answer p ?va own ?s1 v"
    proof (cases "r = 0")
      case True
      have "vmfault h so (Some p) ?pt va0 s = Inr (0, s2)"
        using va np k(1) True by (simp add: vmfault_def Let_def ismapped_pte [OF lt] split: option.split)
      moreover have "fault_answer p ?va own ?s1 (0, s2)" using 2 True by (auto simp: fault_answer_def)
      ultimately show ?thesis by blast
    next
      case False
      with 2(2) have fr2: "own2 r = Frame (pagetable (proc_at s2 p)) (path_of h ?va)" by simp
      show ?thesis
      proof (cases "find_swap p ?va (fr ?s1)")
        case None
        have e: "vmfault h so (Some p) ?pt va0 s
            = fault_map h p ?va r (lazy_done p) (s2\<lparr>km := set_page r (replicate page_bytes 0) (km s2)\<rparr>)"
          using va np k(1) False None by (simp add: vmfault_def Let_def ismapped_pte [OF lt])
        have "find_swap p ?va (fr s2) = None" using fs None by (rule trans)
        from fault_lazy [OF u2 fr2 this] obtain v where
          v: "fault_map h p ?va r (lazy_done p) (s2\<lparr>km := set_page r (replicate page_bytes 0) (km s2)\<rparr>) = Inr v" "fault_answer p ?va own2 s2 v"
          by blast
        note 3 = fault_answer_paged [OF 2(1) u1(2,3) v(2)]
        have w: "vmfault h so (Some p) ?pt va0 s = Inr v" using e v(1) by (rule trans)
        show ?thesis by (rule exI [of _ v], rule conjI [OF w 3])
      next
        case (Some j)
        let ?slot = "sslot (swap_map (fr ?s1) ! j)"
        have j: "j < MAX_SWAP_PAGES" "?slot = int j" "sslot (swap_map (fr s2) ! j) = int j"
          using find_swap_slot [OF vm_okD(2) [OF u1(1)] Some] find_swap_slot [OF vm_okD(2) [OF u2(1)] trans [OF fs Some]] by simp_all
        obtain d where d: "sw_read so ?slot (swp s2) = Inr (0, slot_data (swp s2) j, d)" "rinv d"
          "\<forall>i < MAX_SWAP_PAGES. slot_data d i = slot_data (swp s2) i"
          using sread_spec [OF vm_okD(3) [OF u2(1)] j(1)] j(2) by auto
        let ?s3 = "s2\<lparr>swp := d\<rparr>"
        note 3 = paged_swap [OF u2(1) d(2,3)]
        note u3 = paged_uaddr [OF 3 u2(2,3)]
        have e: "vmfault h so (Some p) ?pt va0 s
            = fault_map h p ?va r (swap_in_done p j ?slot) (?s3\<lparr>km := set_page r (slot_data (swp s2) j) (km ?s3)\<rparr>)"
          using va np k(1) False Some d(1) by (simp add: vmfault_def Let_def ismapped_pte [OF lt])
        have "\<exists>v. fault_map h p ?va r (swap_in_done p j ?slot) (?s3\<lparr>km := set_page r (slot_data (swp s2) j) (km ?s3)\<rparr>) = Inr v
            \<and> fault_answer p ?va own2 ?s3 v"
          using fr2 fs Some j d(3) by (intro fault_swap_in [OF u3]) simp_all
        then obtain v where
          v: "fault_map h p ?va r (swap_in_done p j ?slot) (?s3\<lparr>km := set_page r (slot_data (swp s2) j) (km ?s3)\<rparr>) = Inr v"
            "fault_answer p ?va own2 ?s3 v" by blast
        note 4 = fault_answer_paged [OF paged_trans [OF 2(1) 3] u1(2,3) v(2)]
        have w: "vmfault h so (Some p) ?pt va0 s = Inr v" using e v(1) by (rule trans)
        show ?thesis by (rule exI [of _ v], rule conjI [OF w 4])
      qed
    qed
    then show ?thesis using fault_answer_paged [OF 1 u np] by blast
  qed
qed

lemma umem_resident: "user_pte h (pte_of h s p va) \<Longrightarrow> umem h slot_data s p va = pm (km s) (PTE2PA h (pte_of h s p va))"
  by (simp add: umem_def upage_def)

lemma fault_answer_cases:
  assumes "fault_answer p va own s (r, s1)"
  shows "\<exists>own1 xs1. kept h slot_data rinv own s own1 xs1 s1
     \<and> (if r = 0 then pte_of h s p va AND PTE_V h \<noteq> 0 \<and> \<not> user_pte h (pte_of h s p va)
            \<or> user_frame_count (fr s1) = 0 \<or> swap_full s1 \<or> length xs1 \<le> 2
        else user_pte h (pte_of h s1 p va) \<and> PTE2PA h (pte_of h s1 p va) = r \<and> pm (km s1) r = umem h slot_data s p va)
     \<and> (r \<noteq> 0 \<longrightarrow> pte_of h s p va AND PTE_V h = 0 \<longrightarrow> pte_of h s1 p va AND PTE_W h \<noteq> 0)
     \<and> (\<forall>a. own a = Kernel \<longrightarrow> own1 a = Kernel \<and> pm (km s1) a = pm (km s) a)"
proof (cases "r = 0")
  case True
  then obtain own1 xs1 where f: "paged h slot_data rinv own s own1 xs1 s1"
    "pte_of h s p va AND PTE_V h \<noteq> 0 \<and> \<not> user_pte h (pte_of h s p va) \<or> user_frame_count (fr s1) = 0 \<or> swap_full s1 \<or> length xs1 \<le> 2"
    using assms by (auto simp: fault_answer_def)
  then show ?thesis using paged_kept [OF f(1)] True by (intro exI [of _ own1] exI [of _ xs1]) (simp add: paged_def)
next
  case False
  then obtain own1 xs1 where f: "faulted p va r own s own1 xs1 s1" "upage h slot_data s1 p va = Some (umem h slot_data s p va)"
    using assms by (auto simp: fault_answer_def umem_def)
  have "umem h slot_data s1 q va' = umem h slot_data s q va'" if "uaddr h s q va'" for q va'
    using f that by (cases "q = p \<and> va' = va") (auto simp: umem_def faulted_def)
  then have "kept h slot_data rinv own s own1 xs1 s1" using f(1) by (simp add: kept_def faulted_def)
  moreover have "pm (km s1) r = umem h slot_data s p va" using f by (simp add: faulted_def upage_def)
  ultimately show ?thesis using f(1) False by (auto simp: faulted_def)
qed

end

end
