(* ===== verification/User_Copy.thy ===== *)
theory User_Copy
  imports Vm
begin

text \<open>
  Copies between the kernel and user memory of \<open>kernel/vm.c\<close>: \<open>copyout\<close>, \<open>copyin\<close>, \<open>copyinstr\<close>. The lemmas are about the bytes a process has
  at its addresses, wherever their pages are (in memory, in the swap area, or not touched yet): \<open>copyin\<close> returns them,
  \<open>copyout\<close> replaces those of its range and no other byte of any process.
\<close>

section \<open>Operations\<close>

text \<open>
  \<open>copyout\<close> of the bytes \<open>src\<close>, \<open>copyin\<close> of \<open>len\<close> bytes, \<open>copyinstr\<close> of at most \<open>max\<close> bytes. Each round of the first two
  moves at least one byte, so the number of bytes is fuel enough.
\<close>

fun copyout_loop :: "riscv_h \<Rightarrow> 'd swap_ops \<Rightarrow> nat option \<Rightarrow> u64 \<Rightarrow> nat \<Rightarrow> u64 \<Rightarrow> u8 list \<Rightarrow> 'd vm \<Rightarrow> (int \<times> 'd vm) res" where
  "copyout_loop h so me pt n dstva [] s = Inr (0, s)"
| "copyout_loop h so me pt 0 dstva (b # bs) s = Inl OutOfFuel"
| "copyout_loop h so me pt (Suc n) dstva (b # bs) s =
     (let src = b # bs; va0 = PGROUNDDOWN h dstva
      in if va0 \<ge> MAXVA h then Inr (-1, s)
         else rbind (walkaddr h pt va0 (km s))
           (\<lambda>pa. rbind (if pa = 0 then vmfault h so me pt va0 s else Inr (pa, s))
              (\<lambda>(pa0, s1).
                 if pa0 = 0 then Inr (-1, s1)
                 else rbind (walk h pt va0 False (km s1))
                   (\<lambda>(pte, _). case pte of
                      None \<Rightarrow> Inr (-1, s1)
                    | Some q \<Rightarrow>
                        if pte_val (km s1) q AND PTE_W h = 0 then Inr (-1, s1)
                        else let k = min (unat (4096 - (dstva - va0))) (length src);
                                 s2 = s1\<lparr>km := set_page pa0 (put_bytes (unat (dstva - va0)) (take k src) (pm (km s1) pa0)) (km s1)\<rparr>
                             in copyout_loop h so me pt n (va0 + 4096) (drop k src) s2))))"

definition copyout :: "riscv_h \<Rightarrow> 'd swap_ops \<Rightarrow> nat option \<Rightarrow> u64 \<Rightarrow> u64 \<Rightarrow> u8 list \<Rightarrow> 'd vm \<Rightarrow> (int \<times> 'd vm) res" where
  "copyout h so me pt dstva src s = copyout_loop h so me pt (length src) dstva src s"

fun copyin_loop :: "riscv_h \<Rightarrow> 'd swap_ops \<Rightarrow> nat option \<Rightarrow> u64 \<Rightarrow> nat \<Rightarrow> u64 \<Rightarrow> nat \<Rightarrow> u8 list \<Rightarrow> 'd vm \<Rightarrow> (int \<times> u8 list \<times> 'd vm) res" where
  "copyin_loop h so me pt n srcva 0 dst s = Inr (0, dst, s)"
| "copyin_loop h so me pt 0 srcva (Suc len) dst s = Inl OutOfFuel"
| "copyin_loop h so me pt (Suc n) srcva (Suc len) dst s =
     (let va0 = PGROUNDDOWN h srcva
      in rbind (walkaddr h pt va0 (km s))
           (\<lambda>pa. rbind (if pa = 0 then vmfault h so me pt va0 s else Inr (pa, s))
              (\<lambda>(pa0, s1).
                 if pa0 = 0 then Inr (-1, dst, s1)
                 else let k = min (unat (4096 - (srcva - va0))) (Suc len)
                      in copyin_loop h so me pt n (va0 + 4096) (Suc len - k)
                           (dst @ get_bytes (unat (srcva - va0)) k (pm (km s1) pa0)) s1)))"

definition copyin :: "riscv_h \<Rightarrow> 'd swap_ops \<Rightarrow> nat option \<Rightarrow> u64 \<Rightarrow> u64 \<Rightarrow> nat \<Rightarrow> 'd vm \<Rightarrow> (int \<times> u8 list \<times> 'd vm) res" where
  "copyin h so me pt srcva len s = copyin_loop h so me pt len srcva len [] s"

text \<open>The inner loop of \<open>copyinstr\<close>: the bytes copied from the rest of a page, and whether the 0 was among them.\<close>

fun copy_chars :: "u8 list \<Rightarrow> u8 list \<times> bool" where
  "copy_chars [] = ([], False)"
| "copy_chars (b # bs) = (if b = 0 then ([0], True) else let (cs, z) = copy_chars bs in (b # cs, z))"

fun copyinstr_loop :: "riscv_h \<Rightarrow> u64 \<Rightarrow> nat \<Rightarrow> u64 \<Rightarrow> nat \<Rightarrow> u8 list \<Rightarrow> 'd vm \<Rightarrow> (int \<times> u8 list) res" where
  "copyinstr_loop h pt n srcva 0 dst s = Inr (-1, dst)"
| "copyinstr_loop h pt 0 srcva (Suc m) dst s = Inl OutOfFuel"
| "copyinstr_loop h pt (Suc n) srcva (Suc m) dst s =
     (let va0 = PGROUNDDOWN h srcva
      in rbind (walkaddr h pt va0 (km s))
           (\<lambda>pa0. if pa0 = 0 then Inr (-1, dst)
                  else let k = min (unat (4096 - (srcva - va0))) (Suc m);
                           (cs, got_null) = copy_chars (get_bytes (unat (srcva - va0)) k (pm (km s) pa0))
                       in if got_null then Inr (0, dst @ cs)
                          else copyinstr_loop h pt n (va0 + 4096) (Suc m - k) (dst @ cs) s))"

definition copyinstr :: "riscv_h \<Rightarrow> u64 \<Rightarrow> u64 \<Rightarrow> nat \<Rightarrow> 'd vm \<Rightarrow> (int \<times> u8 list) res" where
  "copyinstr h pt srcva mx s = copyinstr_loop h pt mx srcva mx [] s"


section \<open>The bytes of a process\<close>

definition ubyte :: "riscv_h \<Rightarrow> ('d \<Rightarrow> nat \<Rightarrow> u8 list) \<Rightarrow> 'd vm \<Rightarrow> nat \<Rightarrow> u64 \<Rightarrow> u8" where
  "ubyte h slot_data s p a = umem h slot_data s p (PGROUNDDOWN h a) ! unat (a - PGROUNDDOWN h a)"

text \<open>A process with an address space, whose size is in the user range.\<close>

definition user_proc :: "riscv_h \<Rightarrow> 'd vm \<Rightarrow> nat \<Rightarrow> bool" where
  "user_proc h s p \<longleftrightarrow> p < nproc (sch s) \<and> pagetable (proc_at s p) \<noteq> 0 \<and> psz (proc_at s p) \<le> MAXVA h"

lemma user_proc_same: "same_procs (sch s) (sch s') \<Longrightarrow> user_proc h s' p = user_proc h s p"
  using same_procs_nth [of "sch s" "sch s'"] by (auto simp: user_proc_def)

definition resident :: "riscv_h \<Rightarrow> 'd vm \<Rightarrow> nat \<Rightarrow> u64 \<Rightarrow> bool" where
  "resident h s p a \<longleftrightarrow> uaddr h s p (PGROUNDDOWN h a) \<and> user_pte h (pte_of h s p (PGROUNDDOWN h a))"

definition writable :: "riscv_h \<Rightarrow> 'd vm \<Rightarrow> nat \<Rightarrow> u64 \<Rightarrow> bool" where
  "writable h s p a \<longleftrightarrow> resident h s p a \<and> pte_of h s p (PGROUNDDOWN h a) AND PTE_W h \<noteq> 0"

text \<open>The bytes \<open>bs\<close> are now at the addresses from \<open>a\<close> on; every other byte is as it was.\<close>

definition patched :: "riscv_h \<Rightarrow> ('d \<Rightarrow> nat \<Rightarrow> u8 list) \<Rightarrow> 'd vm \<Rightarrow> nat \<Rightarrow> u64 \<Rightarrow> u8 list \<Rightarrow> 'd vm \<Rightarrow> bool" where
  "patched h slot_data s p a bs s' \<longleftrightarrow> same_procs (sch s) (sch s')
   \<and> (\<forall>q b. uaddr h s q (PGROUNDDOWN h b) \<longrightarrow>
        ubyte h slot_data s' q b = (if q = p \<and> unat (b - a) < length bs then bs ! unat (b - a) else ubyte h slot_data s q b))"

text \<open>A string of \<open>k\<close> bytes and the 0 after it at \<open>a\<close>, all of it resident.\<close>

definition string_at :: "riscv_h \<Rightarrow> ('d \<Rightarrow> nat \<Rightarrow> u8 list) \<Rightarrow> 'd vm \<Rightarrow> nat \<Rightarrow> u64 \<Rightarrow> nat \<Rightarrow> bool" where
  "string_at h slot_data s p a k \<longleftrightarrow>
     (\<forall>i < Suc k. resident h s p (a + of_nat i)) \<and> (\<forall>i < k. ubyte h slot_data s p (a + of_nat i) \<noteq> 0)
   \<and> ubyte h slot_data s p (a + of_nat k) = 0"

text \<open>Addresses within a page.\<close>

lemma page_room: "page_aligned a \<Longrightarrow> j < page_bytes \<Longrightarrow> unat (a + of_nat j) = unat a + j"
proof -
  assume a: "page_aligned a" "j < page_bytes"
  obtain q where q: "unat a = 4096 * q" using a(1) by (auto simp: page_aligned_unat elim: dvdE)
  moreover have "unat a < 2 ^ 64" using unsigned_less [where 'a = nat, of a] by simp
  ultimately have "q < 2 ^ 52" by simp
  then have "unat a + j < 2 ^ 64" using q a(2) by simp
  moreover have "unat (of_nat j :: u64) = j" using a(2) by (simp add: unat_of_nat)
  ultimately show "unat (a + of_nat j) = unat a + j" by (simp add: unat_plus_if' )
qed

lemma unat_minus_of_nat:
  "n < 2 ^ 64 \<Longrightarrow> unat ((w :: u64) - of_nat n) = (if n \<le> unat w then unat w - n else unat w + 2 ^ 64 - n)"
  by (simp add: unat_sub_if' unat_of_nat)

context user_paging
begin

lemma in_page:
  assumes "page_aligned va" "j < page_bytes"
  shows "PGROUNDDOWN h (va + of_nat j) = va" "unat (va + of_nat j - va) = j"
proof -
  have "unat (PGROUNDDOWN h (va + of_nat j)) = unat va"
    using assms(1) by (simp add: pgrounddown_unat page_room [OF assms]) (auto simp: page_aligned_unat assms(2) elim: dvdE)
  then show "PGROUNDDOWN h (va + of_nat j) = va" by (simp add: word_unat_eq_iff)
  show "unat (va + of_nat j - va) = j" using assms(2) by (simp add: unat_of_nat)
qed

lemma page_offset:
  obtains off where "off < page_bytes" "a = PGROUNDDOWN h a + of_nat off" "unat (a - PGROUNDDOWN h a) = off"
    "unat (4096 - (a - PGROUNDDOWN h a)) = page_bytes - off"
proof -
  let ?off = "unat (a - PGROUNDDOWN h a)"
  have "?off = unat a - unat (PGROUNDDOWN h a)" by (rule unat_sub [OF pgrounddown_le])
  then have off: "?off < page_bytes" by (simp add: pgrounddown_unat minus_div_mult_eq_mod)
  then have "a - PGROUNDDOWN h a \<le> 4096" by (simp add: word_le_nat_alt)
  then have "unat (4096 - (a - PGROUNDDOWN h a)) = page_bytes - ?off" using unat_sub [of "a - PGROUNDDOWN h a" 4096] by simp
  with off show ?thesis by (intro that [of ?off]) simp_all
qed



lemma walkaddr_out: "MAXVA h \<le> va \<Longrightarrow> walkaddr h pt va m = Inr 0"
  by (simp add: walkaddr_def)

text \<open>The beginning of a round of \<open>copyin\<close> and \<open>copyout\<close>: the page is made resident.\<close>

lemma fetch_page:
  assumes ok: "vm_ok h rinv own xs s" and p: "user_proc h s p" and va: "page_aligned va"
  shows "\<exists>pa s1 own1 xs1. (\<forall>F. rbind (walkaddr h (pagetable (proc_at s p)) va (km s))
       (\<lambda>pa. rbind (if pa = 0 then vmfault h so (Some p) (pagetable (proc_at s p)) va s else Inr (pa, s)) F) = F (pa, s1))
     \<and> kept h slot_data rinv own s own1 xs1 s1
     \<and> (pa \<noteq> 0 \<longrightarrow> va < MAXVA h \<and> user_pte h (pte_of h s1 p va) \<and> PTE2PA h (pte_of h s1 p va) = pa
          \<and> (pte_of h s1 p va AND PTE_W h = 0 \<longrightarrow> user_pte h (pte_of h s p va)))
     \<and> (va < MAXVA h \<and> user_pte h (pte_of h s p va) \<longrightarrow> pa \<noteq> 0 \<and> s1 = s)"
proof -
  let ?pt = "pagetable (proc_at s p)"
  consider (out) "MAXVA h \<le> va" | (res) "va < MAXVA h" "user_pte h (pte_of h s p va)" | (abs) "va < MAXVA h" "\<not> user_pte h (pte_of h s p va)"
    using not_le by blast
  then show ?thesis
  proof cases
    case out
    then have "psz (proc_at s p) \<le> va" using p by (auto simp: user_proc_def)
    with out show ?thesis using kept_refl [OF ok]
      by (intro exI [of _ 0] exI [of _ s] exI [of _ own] exI [of _ xs]) (auto simp: walkaddr_def vmfault_def)
  next
    case res
    have "PTE2PA h (pte_of h s p va) \<noteq> 0"
      using owned_nonzero [OF vm_okD(1) [OF ok]] user_frame_role [OF ok _ res(2)] p va res(1) by (simp add: uaddr_def user_proc_def)
    with res show ?thesis using kept_refl [OF ok]
      by (intro exI [of _ "PTE2PA h (pte_of h s p va)"] exI [of _ s] exI [of _ own] exI [of _ xs]) (auto simp: walkaddr_pte user_pte_def)
  next
    case abs
    have w: "walkaddr h ?pt va (km s) = Inr 0" using abs by (auto simp: walkaddr_pte user_pte_def)
    show ?thesis
    proof (cases "psz (proc_at s p) \<le> va")
      case True
      with abs w show ?thesis using kept_refl [OF ok]
        by (intro exI [of _ 0] exI [of _ s] exI [of _ own] exI [of _ xs]) (auto simp: vmfault_def)
    next
      case False
      obtain r s1 where v: "vmfault h so (Some p) ?pt va s = Inr (r, s1)" "fault_answer p va own s (r, s1)"
        using vmfault_spec [OF ok, of p va] False p va by (auto simp: user_proc_def pgrounddown_id not_le)
      from fault_answer_cases [OF v(2)] obtain own1 xs1 where k: "kept h slot_data rinv own s own1 xs1 s1"
        "r \<noteq> 0 \<longrightarrow> user_pte h (pte_of h s1 p va) \<and> PTE2PA h (pte_of h s1 p va) = r
          \<and> (pte_of h s p va AND PTE_V h = 0 \<longrightarrow> pte_of h s1 p va AND PTE_W h \<noteq> 0)" by (auto split: if_splits)
      moreover have "r = 0" if "pte_of h s p va AND PTE_V h \<noteq> 0"
        using v(1) that abs False by (auto simp: vmfault_def Let_def pgrounddown_id [OF va] ismapped_pte w)
      ultimately show ?thesis using v(1) w abs
        by (intro exI [of _ r] exI [of _ s1] exI [of _ own1] exI [of _ xs1]) auto
    qed
  qed
qed

text \<open>The addresses of a range that lie on the page of its first one, and those of the following pages.\<close>

lemma chunk:
  assumes off: "off < page_bytes" "a = va + of_nat off" and va: "page_aligned va" and k: "k = min (page_bytes - off) len"
  shows "i < k \<Longrightarrow> PGROUNDDOWN h (a + of_nat i) = va" "i < k \<Longrightarrow> unat (a + of_nat i - va) = off + i"
    "k < len \<Longrightarrow> a + of_nat (k + i) = va + 4096 + of_nat i"
proof -
  have a: "a + of_nat i = va + of_nat (off + i)" for i using off(2) by simp
  show "i < k \<Longrightarrow> PGROUNDDOWN h (a + of_nat i) = va" "i < k \<Longrightarrow> unat (a + of_nat i - va) = off + i"
    using in_page [OF va, of "off + i"] k by (simp_all only: a)
  assume "k < len"
  then have "off + k = page_bytes" using k off(1) by simp
  then have "of_nat off + of_nat k = (4096 :: u64)" by (metis of_nat_add of_nat_numeral)
  then show "a + of_nat (k + i) = va + 4096 + of_nat i" using off(2) by (simp add: add.assoc [symmetric])
qed

lemma umem_length:
  assumes "vm_ok h rinv own xs s" "uaddr h s p va" "user_pte h (pte_of h s p va)"
  shows "length (pm (km s) (PTE2PA h (pte_of h s p va))) = page_bytes"
  using mem_okD(4) [OF vm_okD(1) [OF assms(1)]] user_frame_role [OF assms] by simp

lemma page_read:
  assumes kp: "kept h slot_data rinv own s own1 xs1 s1" and u: "uaddr h s p va" and r: "user_pte h (pte_of h s1 p va)"
    and off: "off < page_bytes" "a = va + of_nat off" and k: "k = min (page_bytes - off) len"
  shows "get_bytes off k (pm (km s1) (PTE2PA h (pte_of h s1 p va))) = map (\<lambda>i. ubyte h slot_data s p (a + of_nat i)) [0..<k]"
proof -
  have va: "page_aligned va" using u by (simp add: uaddr_def)
  have ok1: "vm_ok h rinv own1 xs1 s1" and u1: "uaddr h s1 p va"
    using kp u uaddr_same [of s s1] by (simp_all add: kept_def)
  have pg: "pm (km s1) (PTE2PA h (pte_of h s1 p va)) = umem h slot_data s p va"
    using kp u umem_resident [OF r] by (simp add: kept_def)
  note len = umem_length [OF ok1 u1 r]
  show ?thesis
  proof (rule nth_equalityI)
    show "length (get_bytes off k (pm (km s1) (PTE2PA h (pte_of h s1 p va)))) = length (map (\<lambda>i. ubyte h slot_data s p (a + of_nat i)) [0..<k])"
      using len k by (simp add: get_bytes_def)
    fix i
    assume "i < length (get_bytes off k (pm (km s1) (PTE2PA h (pte_of h s1 p va))))"
    then have i: "i < k" by (simp add: get_bytes_def)
    have "off + i < page_bytes" using i k by linarith
    then show "get_bytes off k (pm (km s1) (PTE2PA h (pte_of h s1 p va))) ! i = map (\<lambda>i. ubyte h slot_data s p (a + of_nat i)) [0..<k] ! i"
      using chunk(1,2) [OF off va k i] i len pg by (simp add: get_bytes_def ubyte_def)
  qed
qed

text \<open>What is said of the first \<open>k\<close> addresses of a range and of the rest is said of the whole.\<close>

lemma all_split:
  assumes "k \<le> (len :: nat)"
  shows "(\<forall>i < len. P i) \<longleftrightarrow> (\<forall>i < k. P i) \<and> (\<forall>i < len - k. P (k + i))"
proof (intro iffI allI impI conjI)
  fix i
  assume a: "(\<forall>i < k. P i) \<and> (\<forall>i < len - k. P (k + i))" "i < len"
  show "P i" using a by (cases "i < k") (auto dest: spec [of _ "i - k"])
qed (use assms in auto)

lemma map_split:
  assumes "k \<le> (len :: nat)"
  shows "map f [0..<len] = map f [0..<k] @ map (\<lambda>i. f (k + i)) [0..<len - k]"
  using assms by (intro nth_equalityI) (auto simp: nth_append)

lemma copyin_loop_spec:
  assumes "len \<le> n" "vm_ok h rinv own xs s" "user_proc h s p"
  shows "\<exists>r bs s' own' xs'. copyin_loop h so (Some p) (pagetable (proc_at s p)) n srcva len dst s = Inr (r, dst @ bs, s')
     \<and> kept h slot_data rinv own s own' xs' s'
     \<and> (r = 0 \<and> (\<forall>i < len. uaddr h s p (PGROUNDDOWN h (srcva + of_nat i))) \<and> bs = map (\<lambda>i. ubyte h slot_data s p (srcva + of_nat i)) [0..<len]
        \<or> r = -1 \<and> \<not> (\<forall>i < len. resident h s p (srcva + of_nat i)))"
  using assms
proof (induction n arbitrary: srcva len dst s own xs)
  case 0
  then show ?case using kept_refl [OF 0(2)] by (intro exI [of _ 0] exI [of _ "[]"] exI [of _ s] exI [of _ own] exI [of _ xs]) simp
next
  case (Suc n)
  show ?case
  proof (cases len)
    case 0
    then show ?thesis using kept_refl [OF Suc(3)] by (intro exI [of _ 0] exI [of _ "[]"] exI [of _ s] exI [of _ own] exI [of _ xs]) simp
  next
    case (Suc l)
    let ?va = "PGROUNDDOWN h srcva" and ?pt = "pagetable (proc_at s p)"
    obtain pa s1 own1 xs1 where f: "\<And>F :: u64 \<times> 'd vm \<Rightarrow> (int \<times> u8 list \<times> 'd vm) res. rbind (walkaddr h ?pt ?va (km s))
       (\<lambda>pa. rbind (if pa = 0 then vmfault h so (Some p) ?pt ?va s else Inr (pa, s)) F) = F (pa, s1)"
      "kept h slot_data rinv own s own1 xs1 s1"
      "pa \<noteq> 0 \<Longrightarrow> ?va < MAXVA h \<and> user_pte h (pte_of h s1 p ?va) \<and> PTE2PA h (pte_of h s1 p ?va) = pa"
      "?va < MAXVA h \<and> user_pte h (pte_of h s p ?va) \<Longrightarrow> pa \<noteq> 0 \<and> s1 = s"
      using fetch_page [OF Suc.prems(2,3), of ?va] by auto
    show ?thesis
    proof (cases "pa = 0")
      case True
      have "copyin_loop h so (Some p) ?pt (Suc n) srcva len dst s = Inr (-1, dst @ [], s1)"
        unfolding Suc copyin_loop.simps Let_def f(1) using True by simp
      moreover have "\<not> resident h s p (srcva + of_nat 0)" using f(4) True by (auto simp: resident_def uaddr_def)
      ultimately show ?thesis using f(2) Suc by (intro exI [of _ "-1"] exI [of _ "[]"] exI [of _ s1] exI [of _ own1] exI [of _ xs1]) auto
    next
      case False
      obtain off where off: "off < page_bytes" "srcva = ?va + of_nat off" "unat (srcva - ?va) = off" "unat (4096 - (srcva - ?va)) = page_bytes - off"
        by (rule page_offset)
      define k where "k = min (page_bytes - off) len"
      note c = chunk [OF off(1,2) pgrounddown_aligned k_def]
      have k: "0 < k" "k \<le> len" "off + k \<le> page_bytes" using off(1) Suc by (auto simp: k_def)
      have u: "uaddr h s p ?va" using f(3) [OF False] Suc.prems(3) by (simp add: uaddr_def user_proc_def)
      have s1: "vm_ok h rinv own1 xs1 s1" "user_proc h s1 p" "same_procs (sch s) (sch s1)"
        using f(2) Suc.prems(3) user_proc_same [of s s1 h p] by (simp_all add: kept_def)
      have pt1: "pagetable (proc_at s1 p) = ?pt" using same_procs_nth [OF s1(3)] Suc.prems(3) by (simp add: user_proc_def)
      have "len - k \<le> n" using k(1) Suc.prems(1) by simp
      from Suc.IH [OF this s1(1,2), of "?va + 4096" "dst @ get_bytes off k (pm (km s1) pa)"]
      obtain r bs s' own' xs' where ih:
        "copyin_loop h so (Some p) ?pt n (?va + 4096) (len - k) (dst @ get_bytes off k (pm (km s1) pa)) s1 = Inr (r, (dst @ get_bytes off k (pm (km s1) pa)) @ bs, s')"
        "kept h slot_data rinv own1 s1 own' xs' s'"
        "r = 0 \<and> (\<forall>i < len - k. uaddr h s1 p (PGROUNDDOWN h (?va + 4096 + of_nat i)))
             \<and> bs = map (\<lambda>i. ubyte h slot_data s1 p (?va + 4096 + of_nat i)) [0..<len - k]
          \<or> r = -1 \<and> \<not> (\<forall>i < len - k. resident h s1 p (?va + 4096 + of_nat i))"
        unfolding pt1 by blast
      have run: "copyin_loop h so (Some p) ?pt (Suc n) srcva len dst s = Inr (r, dst @ get_bytes off k (pm (km s1) pa) @ bs, s')"
        using ih(1) False off(3,4) unfolding Suc copyin_loop.simps Let_def f(1) by (simp add: k_def Suc)
      have rest: "srcva + of_nat (k + i) = ?va + 4096 + of_nat i" if "i < len - k" for i using c(3) [of i] that by simp
      have fst: "srcva + of_nat i = ?va + of_nat (off + i)" for i using off(2) by simp
      show ?thesis
        using ih(3)
      proof (elim disjE conjE)
        assume r: "r = 0" "\<forall>i < len - k. uaddr h s1 p (PGROUNDDOWN h (?va + 4096 + of_nat i))"
          "bs = map (\<lambda>i. ubyte h slot_data s1 p (?va + 4096 + of_nat i)) [0..<len - k]"
        have all: "\<forall>i < len. uaddr h s p (PGROUNDDOWN h (srcva + of_nat i))"
          unfolding all_split [OF k(2)] using c(1) u r(2) uaddr_same [OF s1(3), of h] rest by (simp del: of_nat_add)
        have "get_bytes off k (pm (km s1) pa) = map (\<lambda>i. ubyte h slot_data s p (srcva + of_nat i)) [0..<k]"
          using page_read [OF f(2) u _ off(1,2) k_def] f(3) [OF False] by simp
        moreover have "bs = map (\<lambda>i. ubyte h slot_data s p (srcva + of_nat (k + i))) [0..<len - k]"
          unfolding r(3) using r(2) rest f(2) uaddr_same [OF s1(3), of h] by (intro map_cong) (simp_all add: ubyte_def kept_def del: of_nat_add)
        ultimately have "get_bytes off k (pm (km s1) pa) @ bs = map (\<lambda>i. ubyte h slot_data s p (srcva + of_nat i)) [0..<len]"
          unfolding map_split [OF k(2)] by simp
        then show ?thesis using run r(1) all kept_trans [OF f(2) ih(2)] by blast
      next
        assume r: "r = -1" "\<not> (\<forall>i < len - k. resident h s1 p (?va + 4096 + of_nat i))"
        have "\<not> (\<forall>i < len. resident h s p (srcva + of_nat i))"
        proof
          assume a: "\<forall>i < len. resident h s p (srcva + of_nat i)"
          then have "resident h s p (srcva + of_nat 0)" using Suc by blast
          then have "s1 = s" using f(4) by (simp add: resident_def uaddr_def)
          with a r(2) show False unfolding all_split [OF k(2)] using rest by (simp del: of_nat_add)
        qed
        then show ?thesis using run r(1) kept_trans [OF f(2) ih(2)] by blast
      qed
    qed
  qed
qed

text \<open>A user page is written through its frame.\<close>

lemma write_user_page:
  assumes ok: "vm_ok h rinv own xs s" and u: "uaddr h s p va" and r: "user_pte h (pte_of h s p va)" and pg: "length pg = page_bytes"
    and s': "s' = s\<lparr>km := set_page (PTE2PA h (pte_of h s p va)) pg (km s)\<rparr>"
  shows "vm_ok h rinv own xs s'" "uaddr h s q va' \<Longrightarrow> pte_of h s' q va' = pte_of h s q va'"
    "uaddr h s q va' \<Longrightarrow> umem h slot_data s' q va' = (if q = p \<and> va' = va then pg else umem h slot_data s q va')"
proof -
  note role = user_frame_role [OF ok u r]
  have "own (PTE2PA h (pte_of h s p va)) = Kernel \<or> (\<exists>r pth. own (PTE2PA h (pte_of h s p va)) = Frame r pth)" using role by blast
  note w = vm_ok_write [OF ok this pg, folded s']
  show "vm_ok h rinv own xs s'" "uaddr h s q va' \<Longrightarrow> pte_of h s' q va' = pte_of h s q va'" by (fact w(1), fact w(2))
  assume q: "uaddr h s q va'"
  have "q = p \<and> va' = va" if e: "user_pte h (pte_of h s q va')" "PTE2PA h (pte_of h s q va') = PTE2PA h (pte_of h s p va)"
  proof -
    have "pagetable (proc_at s q) = pagetable (proc_at s p)" "path_of h va' = path_of h va"
      using user_frame_role [OF ok q e(1)] role e(2) by simp_all
    then show ?thesis using vm_okD(6) [OF ok, of q p] path_of_inj [of va' va] u q by (auto simp: uaddr_def)
  qed
  then show "umem h slot_data s' q va' = (if q = p \<and> va' = va then pg else umem h slot_data s q va')"
    using w(2) [OF q] r by (auto simp: umem_def upage_def s')
qed

lemma kept_patched: "kept h slot_data rinv own s own1 xs1 s1 \<Longrightarrow> patched h slot_data s p a [] s1"
  by (simp add: kept_def patched_def ubyte_def)

lemma patched_trans:
  assumes 1: "patched h slot_data s p a bs s1" and 2: "patched h slot_data s1 p (a + of_nat (length bs)) cs s2" and len: "length bs + length cs \<le> 2 ^ 64"
  shows "patched h slot_data s p a (bs @ cs) s2"
proof -
  have u: "uaddr h s1 q va = uaddr h s q va" for q va using 1 by (intro uaddr_same) (simp add: patched_def)
  have "same_procs (sch s) (sch s2)" using 1 2 same_procs_trans [of "sch s" "sch s1" "sch s2"] by (simp add: patched_def)
  moreover have "ubyte h slot_data s2 q b = (if q = p \<and> unat (b - a) < length (bs @ cs) then (bs @ cs) ! unat (b - a) else ubyte h slot_data s q b)"
    if q: "uaddr h s q (PGROUNDDOWN h b)" for q b
  proof (cases "unat (b - a) < length bs")
    case True
    have "length cs \<le> unat (b - (a + of_nat (length bs)))"
    proof (cases "0 < length cs")
      case pos: True
      have "length bs < 2 ^ 64" using len pos by linarith
      then have "unat (b - a - of_nat (length bs)) = unat (b - a) + 2 ^ 64 - length bs"
        using unat_minus_of_nat [of "length bs" "b - a"] True by simp
      then show ?thesis using len by (simp add: diff_diff_add [symmetric])
    qed simp
    then show ?thesis using 1 2 q u True by (auto simp: patched_def nth_append)
  next
    case False
    have "unat (b - (a + of_nat (length bs))) = unat (b - a) - length bs"
      using unat_minus_of_nat [of "length bs" "b - a"] False len unsigned_less [where 'a = nat, of "b - a"] by (simp add: diff_diff_add [symmetric])
    then show ?thesis using 1 2 q u False by (auto simp: patched_def nth_append)
  qed
  ultimately show ?thesis by (simp add: patched_def)
qed

lemma patch_page:
  assumes ok: "vm_ok h rinv own xs s" and u: "uaddr h s p va" and r: "user_pte h (pte_of h s p va)" and bs: "off + length bs \<le> page_bytes"
    and s': "s' = s\<lparr>km := set_page (PTE2PA h (pte_of h s p va)) (put_bytes off bs (pm (km s) (PTE2PA h (pte_of h s p va)))) (km s)\<rparr>"
  shows "vm_ok h rinv own xs s'" "patched h slot_data s p (va + of_nat off) bs s'" "uaddr h s q va' \<Longrightarrow> pte_of h s' q va' = pte_of h s q va'"
proof -
  let ?pg = "pm (km s) (PTE2PA h (pte_of h s p va))"
  note len = umem_length [OF ok u r]
  note w = write_user_page [OF ok u r _ s'] 
  have l: "length (put_bytes off bs ?pg) = page_bytes" using len bs by simp
  show "vm_ok h rinv own xs s'" "uaddr h s q va' \<Longrightarrow> pte_of h s' q va' = pte_of h s q va'" using w(1,2) [OF l] by simp_all
  have va: "page_aligned va" using u by (simp add: uaddr_def)
  have "ubyte h slot_data s' q b = (if q = p \<and> unat (b - (va + of_nat off)) < length bs then bs ! unat (b - (va + of_nat off)) else ubyte h slot_data s q b)"
    if q: "uaddr h s q (PGROUNDDOWN h b)" for q b
  proof (cases "unat (b - (va + of_nat off)) < length bs")
    case True
    define i where "i = unat (b - (va + of_nat off))"
    have b: "b = va + of_nat (off + i)" by (simp add: i_def)
    have i: "i < length bs" "off + i < page_bytes" using True bs by (simp_all add: i_def)
    note ip = in_page [OF va i(2), folded b]
    show ?thesis
    proof (cases "q = p")
      case True
      have "ubyte h slot_data s' q b = put_bytes off bs ?pg ! (off + i)" using w(3) [OF l q] True ip by (simp add: ubyte_def)
      also have "\<dots> = bs ! i" using i bs len by (subst put_bytes_nth) simp_all
      finally show ?thesis using True i(1) by (simp add: i_def [symmetric])
    next
      case False
      then show ?thesis using w(3) [OF l q] by (simp add: ubyte_def)
    qed
  next
    case False
    show ?thesis
    proof (cases "q = p \<and> PGROUNDDOWN h b = va")
      case True
      define j where "j = unat (b - PGROUNDDOWN h b)"
      obtain j' where j': "j' < page_bytes" "b = PGROUNDDOWN h b + of_nat j'" "unat (b - PGROUNDDOWN h b) = j'" by (rule page_offset)
      have j: "j < page_bytes" "b = va + of_nat j" using j' True by (simp_all add: j_def)
      have "\<not> (off \<le> j \<and> j < off + length bs)"
      proof
        assume "off \<le> j \<and> j < off + length bs"
        then have "b - (va + of_nat off) = of_nat (j - off)" "j - off < length bs" using j(2) by (auto simp: of_nat_diff)
        then show False using False j(1) by (simp add: unat_of_nat)
      qed
      then have "put_bytes off bs ?pg ! j = ?pg ! j" using bs len j(1) by (subst put_bytes_nth) auto
      then show ?thesis using False True w(3) [OF l q] umem_resident [OF r] by (simp add: ubyte_def j_def)
    next
      case f: False
      then show ?thesis using False w(3) [OF l q] by (auto simp: ubyte_def)
    qed
  qed
  then show "patched h slot_data s p (va + of_nat off) bs s'" by (simp add: patched_def s')
qed

text \<open>A round of \<open>copyout\<close>.\<close>

lemma copyout_round:
  assumes ok: "vm_ok h rinv own xs s" and p: "user_proc h s p" and src: "src \<noteq> []"
    and off: "off < page_bytes" "dstva = PGROUNDDOWN h dstva + of_nat off" "unat (dstva - PGROUNDDOWN h dstva) = off"
      "unat (4096 - (dstva - PGROUNDDOWN h dstva)) = page_bytes - off"
    and k: "k = min (page_bytes - off) (length src)"
  shows "(\<exists>s1 own1 xs1. copyout_loop h so (Some p) (pagetable (proc_at s p)) (Suc n) dstva src s = Inr (-1, s1)
            \<and> kept h slot_data rinv own s own1 xs1 s1 \<and> \<not> writable h s p dstva)
     \<or> (\<exists>s2 own2 xs2. copyout_loop h so (Some p) (pagetable (proc_at s p)) (Suc n) dstva src s
              = copyout_loop h so (Some p) (pagetable (proc_at s p)) n (PGROUNDDOWN h dstva + 4096) (drop k src) s2
            \<and> vm_ok h rinv own2 xs2 s2 \<and> patched h slot_data s p dstva (take k src) s2 \<and> uaddr h s p (PGROUNDDOWN h dstva)
            \<and> (writable h s p dstva \<longrightarrow> (\<forall>a. writable h s p a \<longrightarrow> writable h s2 p a)))"
proof -
  let ?va = "PGROUNDDOWN h dstva" and ?pt = "pagetable (proc_at s p)"
  obtain b bs where bs: "src = b # bs" using src by (cases src) auto
  obtain pa s1 own1 xs1 where f0: "\<forall>F :: u64 \<times> 'd vm \<Rightarrow> (int \<times> 'd vm) res. rbind (walkaddr h ?pt ?va (km s))
     (\<lambda>pa. rbind (if pa = 0 then vmfault h so (Some p) ?pt ?va s else Inr (pa, s)) F) = F (pa, s1)"
    "kept h slot_data rinv own s own1 xs1 s1"
    "pa \<noteq> 0 \<longrightarrow> ?va < MAXVA h \<and> user_pte h (pte_of h s1 p ?va) \<and> PTE2PA h (pte_of h s1 p ?va) = pa
       \<and> (pte_of h s1 p ?va AND PTE_W h = 0 \<longrightarrow> user_pte h (pte_of h s p ?va))"
    "?va < MAXVA h \<and> user_pte h (pte_of h s p ?va) \<longrightarrow> pa \<noteq> 0 \<and> s1 = s"
    using fetch_page [OF ok p pgrounddown_aligned, of dstva] by blast
  note f = f0(1) [rule_format] f0(2) f0(3) [rule_format] f0(4) [rule_format]
  have fail: ?thesis if "copyout_loop h so (Some p) ?pt (Suc n) dstva src s = Inr (-1, s1)" "\<not> writable h s p dstva"
    using that f(2) by blast
  consider (out) "MAXVA h \<le> ?va" | (none) "?va < MAXVA h" "pa = 0" | (page) "?va < MAXVA h" "pa \<noteq> 0" using not_le by blast
  then show ?thesis
  proof cases
    case out
    then show ?thesis using kept_refl [OF ok] by (auto simp: bs Let_def writable_def resident_def uaddr_def)
  next
    case none
    have "copyout_loop h so (Some p) ?pt (Suc n) dstva src s = Inr (-1, s1)"
      unfolding bs copyout_loop.simps Let_def f(1) using none by (simp add: not_le [symmetric])
    then show ?thesis using none f0(4) by (intro fail) (auto simp: writable_def resident_def)
  next
    case page
    have s1: "vm_ok h rinv own1 xs1 s1" "same_procs (sch s) (sch s1)" using f(2) by (simp_all add: kept_def)
    have pt1: "pagetable (proc_at s1 p) = ?pt" using same_procs_nth [OF s1(2)] p by (simp add: user_proc_def)
    have u: "uaddr h s p ?va" using p page(1) by (simp add: uaddr_def user_proc_def)
    then have u1: "uaddr h s1 p ?va" using uaddr_same [OF s1(2)] by simp
    note r = f0(3) [THEN mp, OF page(2)]
    obtain q where q: "leaf_slot h (km s1) ?pt ?va = Some q" "pte_of h s1 p ?va = pte_val (km s1) q"
      using r pt1 by (cases "leaf_slot h (km s1) ?pt ?va") (auto simp: pte_at_def user_pte_def)
    show ?thesis
    proof (cases "pte_of h s1 p ?va AND PTE_W h = 0")
      case True
      have "copyout_loop h so (Some p) ?pt (Suc n) dstva src s = Inr (-1, s1)"
        unfolding bs copyout_loop.simps Let_def f(1) using page q True by (simp add: not_le [symmetric] walk_noalloc)
      moreover have "s1 = s" using r True page(1) f0(4) by simp
      ultimately show ?thesis using True by (intro fail) (auto simp: writable_def)
    next
      case False
      let ?s2 = "s1\<lparr>km := set_page pa (put_bytes off (take k src) (pm (km s1) pa)) (km s1)\<rparr>"
      have run: "copyout_loop h so (Some p) ?pt (Suc n) dstva src s = copyout_loop h so (Some p) ?pt n (?va + 4096) (drop k src) ?s2"
        unfolding bs copyout_loop.simps Let_def f(1) using page q False off(3,4) by (simp add: not_le [symmetric] walk_noalloc k bs)
      have "off + length (take k src) \<le> page_bytes" using k off(1) by simp
      note w = patch_page [OF s1(1) u1 _ this, of ?s2, unfolded off(2) [symmetric]]
      have 2: "vm_ok h rinv own1 xs1 ?s2" "patched h slot_data s1 p dstva (take k src) ?s2"
        "\<And>q va'. uaddr h s1 q va' \<Longrightarrow> pte_of h ?s2 q va' = pte_of h s1 q va'" using w r by simp_all
      have "patched h slot_data s p dstva (take k src) ?s2"
        using patched_trans [OF kept_patched [OF f(2)], of p dstva "take k src" ?s2] 2(2) k by simp
      moreover have "\<forall>a. writable h s p a \<longrightarrow> writable h ?s2 p a" if "writable h s p dstva"
      proof -
        have "s1 = s" using that page(1) f0(4) by (simp add: writable_def resident_def)
        then show ?thesis using 2(3) by (auto simp: writable_def resident_def uaddr_def)
      qed
      ultimately show ?thesis using run 2(1) u by blast
    qed
  qed
qed

lemma copyout_loop_spec:
  assumes "length src \<le> n" "vm_ok h rinv own xs s" "user_proc h s p" "length src \<le> 2 ^ 64"
  shows "\<exists>r j s' own' xs'. copyout_loop h so (Some p) (pagetable (proc_at s p)) n dstva src s = Inr (r, s')
     \<and> vm_ok h rinv own' xs' s' \<and> j \<le> length src \<and> patched h slot_data s p dstva (take j src) s'
     \<and> (r = 0 \<and> j = length src \<and> (\<forall>i < length src. uaddr h s p (PGROUNDDOWN h (dstva + of_nat i)))
        \<or> r = -1 \<and> \<not> (\<forall>i < length src. writable h s p (dstva + of_nat i)))"
  using assms
proof (induction n arbitrary: dstva src s own xs)
  case 0
  then show ?case using kept_patched [OF kept_refl [OF 0(2)]] by auto
next
  case (Suc n)
  show ?case
  proof (cases "src = []")
    case True
    then show ?thesis using kept_patched [OF kept_refl [OF Suc.prems(2)]] Suc.prems(2) by auto
  next
    case ne: False
    let ?va = "PGROUNDDOWN h dstva" and ?pt = "pagetable (proc_at s p)"
    obtain off where off: "off < page_bytes" "dstva = ?va + of_nat off" "unat (dstva - ?va) = off" "unat (4096 - (dstva - ?va)) = page_bytes - off"
      by (rule page_offset)
    define k where "k = min (page_bytes - off) (length src)"
    note c = chunk [OF off(1,2) pgrounddown_aligned k_def]
    have k: "0 < k" "k \<le> length src" using off(1) ne by (auto simp: k_def)
    from copyout_round [OF Suc.prems(2,3) ne off k_def, of n] show ?thesis
    proof (elim disjE exE conjE)
      fix s1 own1 xs1
      assume a: "copyout_loop h so (Some p) ?pt (Suc n) dstva src s = Inr (-1, s1)" "kept h slot_data rinv own s own1 xs1 s1" "\<not> writable h s p dstva"
      have "\<not> (\<forall>i < length src. writable h s p (dstva + of_nat i))" using a(3) ne by (auto intro: exI [of _ 0])
      moreover have "vm_ok h rinv own1 xs1 s1" "patched h slot_data s p dstva (take 0 src) s1" using a(2) kept_patched [OF a(2)] by (simp_all add: kept_def)
      ultimately show ?thesis using a(1) by blast
    next
      fix s2 own2 xs2
      assume a: "copyout_loop h so (Some p) ?pt (Suc n) dstva src s = copyout_loop h so (Some p) ?pt n (?va + 4096) (drop k src) s2"
        "vm_ok h rinv own2 xs2 s2" "patched h slot_data s p dstva (take k src) s2" "uaddr h s p ?va"
        "writable h s p dstva \<longrightarrow> (\<forall>a. writable h s p a \<longrightarrow> writable h s2 p a)"
      have sp: "same_procs (sch s) (sch s2)" using a(3) by (simp add: patched_def)
      have p2: "user_proc h s2 p" "pagetable (proc_at s2 p) = ?pt"
        using user_proc_same [OF sp, of h p] same_procs_nth [OF sp] Suc.prems(3) by (simp_all add: user_proc_def)
      have "length (drop k src) \<le> n" "length (drop k src) \<le> 2 ^ 64" using k Suc.prems(1,4) by simp_all
      from Suc.IH [OF this(1) a(2) p2(1) this(2), of "?va + 4096", unfolded p2(2)] obtain r j s' own' xs' where ih:
        "copyout_loop h so (Some p) ?pt n (?va + 4096) (drop k src) s2 = Inr (r, s')" "vm_ok h rinv own' xs' s'"
        "j \<le> length (drop k src)" "patched h slot_data s2 p (?va + 4096) (take j (drop k src)) s'"
        "r = 0 \<and> j = length (drop k src) \<and> (\<forall>i < length (drop k src). uaddr h s2 p (PGROUNDDOWN h (?va + 4096 + of_nat i)))
        \<or> r = -1 \<and> \<not> (\<forall>i < length (drop k src). writable h s2 p (?va + 4096 + of_nat i))" by blast
      have rest: "dstva + of_nat (k + i) = ?va + 4096 + of_nat i" if "i < length src - k" for i using c(3) [of i] that by simp
      have "patched h slot_data s p dstva (take k src @ take j (drop k src)) s'"
      proof (cases "k < length src")
        case True
        have "dstva + of_nat (length (take k src)) = ?va + 4096" using c(3) [of 0] True k by simp
        then show ?thesis using patched_trans [OF a(3)] ih(3,4) k Suc.prems(4) by simp
      next
        case False
        then have "drop k src = []" by simp
        then show ?thesis using ih(1) a(3) by simp
      qed
      then have pj: "patched h slot_data s p dstva (take (k + j) src) s'" by (simp add: take_add)
      show ?thesis
        using ih(5)
      proof (elim disjE conjE)
        assume r: "r = 0" "j = length (drop k src)" "\<forall>i < length (drop k src). uaddr h s2 p (PGROUNDDOWN h (?va + 4096 + of_nat i))"
        have "\<forall>i < length src. uaddr h s p (PGROUNDDOWN h (dstva + of_nat i))"
          unfolding all_split [OF k(2)] using c(1) a(4) r(3) uaddr_same [OF sp, of h] rest by (simp del: of_nat_add)
        moreover have "k + j = length src" using r(2) k(2) by simp
        ultimately show ?thesis using a(1) ih(1,2) pj r(1) by (intro exI [of _ 0] exI [of _ "length src"] exI [of _ s'] exI [of _ own'] exI [of _ xs']) simp
      next
        assume r: "r = -1" "\<not> (\<forall>i < length (drop k src). writable h s2 p (?va + 4096 + of_nat i))"
        have "\<not> (\<forall>i < length src. writable h s p (dstva + of_nat i))"
        proof
          assume w: "\<forall>i < length src. writable h s p (dstva + of_nat i)"
          then have "writable h s p (dstva + of_nat 0)" using ne by blast
          with a(5) w r(2) show False unfolding all_split [OF k(2)] using rest by (simp del: of_nat_add) blast
        qed
        moreover have "k + j \<le> length src" using ih(3) k(2) by simp
        ultimately show ?thesis using a(1) ih(1,2) pj r(1)
          by (intro exI [of _ "-1"] exI [of _ "k + j"] exI [of _ s'] exI [of _ own'] exI [of _ xs']) simp
      qed
    qed
  qed
qed

lemma copy_chars_eq: "copy_chars bs = (if 0 \<in> set bs then (takeWhile (\<lambda>b. b \<noteq> 0) bs @ [0], True) else (bs, False))"
  by (induction bs) auto

lemma takeWhile_first:
  assumes "k < n" "f k = (0 :: u8)" "\<forall>i < k. f i \<noteq> 0"
  shows "takeWhile (\<lambda>b. b \<noteq> 0) (map f [0..<n]) @ [0] = map f [0..<Suc k]"
proof -
  have "[0..<n] = [0..<k] @ k # [Suc k..<n]" using assms(1) by (metis less_imp_le_nat upt_add_eq_append upt_conv_Cons le_add_diff_inverse zero_le)
  then have "map f [0..<n] = map f [0..<k] @ 0 # map f [Suc k..<n]" using assms(2) by simp
  moreover have "takeWhile (\<lambda>b. b \<noteq> 0) (map f [0..<k] @ 0 # map f [Suc k..<n]) = map f [0..<k]"
    using assms(3) by (subst takeWhile_append2) auto
  ultimately show ?thesis using assms(2) by simp
qed

lemma string_unique: "string_at h slot_data s p a j \<Longrightarrow> string_at h slot_data s p a k \<Longrightarrow> j = k"
  unfolding string_at_def by (metis linorder_neqE_nat)

lemma copyinstr_loop_spec:
  assumes "mx \<le> n" "vm_ok h rinv own xs s" "user_proc h s p"
  shows "\<exists>r bs. copyinstr_loop h (pagetable (proc_at s p)) n srcva mx dst s = Inr (r, dst @ bs)
     \<and> (\<forall>k < mx. string_at h slot_data s p srcva k \<longrightarrow> r = 0 \<and> bs = map (\<lambda>i. ubyte h slot_data s p (srcva + of_nat i)) [0..<Suc k])
     \<and> ((\<forall>k < mx. \<not> string_at h slot_data s p srcva k) \<longrightarrow> r = -1)"
  using assms
proof (induction n arbitrary: srcva mx dst)
  case 0
  then show ?case by simp
next
  case (Suc n)
  show ?case
  proof (cases mx)
    case 0
    then show ?thesis by simp
  next
    case (Suc l)
    let ?va = "PGROUNDDOWN h srcva" and ?pt = "pagetable (proc_at s p)"
    show ?thesis
    proof (cases "resident h s p srcva")
      case False
      then have "walkaddr h ?pt ?va (km s) = Inr 0"
        using Suc.prems(3) by (cases "?va < MAXVA h") (auto simp: walkaddr_pte walkaddr_out resident_def user_pte_def uaddr_def user_proc_def not_less)
      then have "copyinstr_loop h ?pt (Suc n) srcva mx dst s = Inr (-1, dst @ [])" by (simp add: Suc)
      moreover have "\<not> string_at h slot_data s p srcva k" for k
        using False unfolding string_at_def by (auto intro: exI [of _ 0])
      ultimately show ?thesis by blast
    next
      case True
      then have u: "uaddr h s p ?va" and r: "user_pte h (pte_of h s p ?va)" by (simp_all add: resident_def)
      obtain off where off: "off < page_bytes" "srcva = ?va + of_nat off" "unat (srcva - ?va) = off" "unat (4096 - (srcva - ?va)) = page_bytes - off"
        by (rule page_offset)
      define k where "k = min (page_bytes - off) mx"
      note c = chunk [OF off(1,2) pgrounddown_aligned k_def]
      have k: "0 < k" "k \<le> mx" using off(1) Suc by (auto simp: k_def)
      let ?f = "\<lambda>i. ubyte h slot_data s p (srcva + of_nat i)"
      have pa: "walkaddr h ?pt ?va (km s) = Inr (PTE2PA h (pte_of h s p ?va))" "PTE2PA h (pte_of h s p ?va) \<noteq> 0"
        using u r owned_nonzero [OF vm_okD(1) [OF Suc.prems(2)]] user_frame_role [OF Suc.prems(2) u r]
        by (auto simp: walkaddr_pte uaddr_def user_pte_def)
      have bytes: "get_bytes off k (pm (km s) (PTE2PA h (pte_of h s p ?va))) = map ?f [0..<k]"
        by (rule page_read [OF kept_refl [OF Suc.prems(2)] u r off(1,2) k_def])
      have res: "resident h s p (srcva + of_nat i)" if "i < k" for i using c(1) [OF that] True by (simp add: resident_def)
      have step: "copyinstr_loop h ?pt (Suc n) srcva mx dst s =
        (if 0 \<in> set (map ?f [0..<k]) then Inr (0, dst @ takeWhile (\<lambda>b. b \<noteq> 0) (map ?f [0..<k]) @ [0])
         else copyinstr_loop h ?pt n (?va + 4096) (mx - k) (dst @ map ?f [0..<k]) s)"
        using pa off(3,4) bytes by (simp add: Suc k_def copy_chars_eq Let_def)
      show ?thesis
      proof (cases "\<exists>j < k. ?f j = 0")
        case True
        define j where "j = (LEAST j. ?f j = 0)"
        have j: "?f j = 0" "j < k" "\<forall>i < j. ?f i \<noteq> 0"
          using True LeastI [of "\<lambda>j. ?f j = 0"] Least_le [of "\<lambda>j. ?f j = 0"] not_less_Least [of _ "\<lambda>j. ?f j = 0"]
          unfolding j_def by (blast, meson le_less_trans, blast)
        have st: "string_at h slot_data s p srcva j" using j res by (auto simp: string_at_def)
        have "0 \<in> set (map ?f [0..<k])" using True by force
        then have run: "copyinstr_loop h ?pt (Suc n) srcva mx dst s = Inr (0, dst @ map ?f [0..<Suc j])"
          using step takeWhile_first [OF j(2,1,3)] by simp
        have "k' = j" if "string_at h slot_data s p srcva k'" for k' by (rule string_unique [OF that st])
        moreover have "j < mx" using j(2) k(2) by simp
        ultimately show ?thesis using run st by (intro exI [of _ 0] exI [of _ "map ?f [0..<Suc j]"]) blast
      next
        case False
        have rest: "srcva + of_nat (k + i) = ?va + 4096 + of_nat i" if "i < mx - k" for i using c(3) [of i] that by simp
        have shift: "string_at h slot_data s p srcva (k + m) \<longleftrightarrow> string_at h slot_data s p (?va + 4096) m" if m: "m < mx - k" for m
        proof -
          have "Suc (k + m) - k = Suc m" "k + m - k = m" by simp_all
          then have "(\<forall>i < Suc (k + m). P (srcva + of_nat i)) \<longleftrightarrow> (\<forall>i < k. P (srcva + of_nat i)) \<and> (\<forall>i < Suc m. P (?va + 4096 + of_nat i))"
            "(\<forall>i < k + m. P (srcva + of_nat i)) \<longleftrightarrow> (\<forall>i < k. P (srcva + of_nat i)) \<and> (\<forall>i < m. P (?va + 4096 + of_nat i))" for P
            using all_split [of k "Suc (k + m)" "\<lambda>i. P (srcva + of_nat i)"] all_split [of k "k + m" "\<lambda>i. P (srcva + of_nat i)"] rest m
            by (simp_all del: of_nat_add)
          from this(1) [of "resident h s p"] this(2) [of "\<lambda>a. ubyte h slot_data s p a \<noteq> 0"]
          show ?thesis using rest [OF m] res False unfolding string_at_def by (simp del: of_nat_add)
        qed
        have big: "k \<le> j" if "string_at h slot_data s p srcva j" for j
          using that False by (auto simp: string_at_def not_less [symmetric])
        have "mx - k \<le> n" using k Suc.prems(1) by simp
        from Suc.IH [OF this Suc.prems(2,3), of "?va + 4096" "dst @ map ?f [0..<k]"] obtain r bs where ih:
          "copyinstr_loop h ?pt n (?va + 4096) (mx - k) (dst @ map ?f [0..<k]) s = Inr (r, (dst @ map ?f [0..<k]) @ bs)"
          "\<forall>m < mx - k. string_at h slot_data s p (?va + 4096) m \<longrightarrow> r = 0 \<and> bs = map (\<lambda>i. ubyte h slot_data s p (?va + 4096 + of_nat i)) [0..<Suc m]"
          "(\<forall>m < mx - k. \<not> string_at h slot_data s p (?va + 4096) m) \<longrightarrow> r = -1" by blast
        have "copyinstr_loop h ?pt (Suc n) srcva mx dst s = Inr (r, dst @ map ?f [0..<k] @ bs)"
          using step ih(1) False by auto
        moreover have "r = 0 \<and> map ?f [0..<k] @ bs = map ?f [0..<Suc j]" if j: "j < mx" "string_at h slot_data s p srcva j" for j
        proof -
          have m: "j = k + (j - k)" "j - k < mx - k" using big [OF j(2)] j(1) k(2) by simp_all
          then have "string_at h slot_data s p (?va + 4096) (j - k)" using shift [OF m(2)] j(2) by simp
          with ih(2) m(2) have i: "r = 0" "bs = map (\<lambda>i. ubyte h slot_data s p (?va + 4096 + of_nat i)) [0..<Suc (j - k)]" by blast+
          have "Suc j - k = Suc (j - k)" "k \<le> Suc j" using big [OF j(2)] by simp_all
          then have "map ?f [0..<Suc j] = map ?f [0..<k] @ map (\<lambda>i. ?f (k + i)) [0..<Suc (j - k)]" using map_split [of k "Suc j" ?f] by simp
          also have "map (\<lambda>i. ?f (k + i)) [0..<Suc (j - k)] = bs" unfolding i(2) using rest m(2) by (intro map_cong) (auto simp del: of_nat_add)
          finally show ?thesis using i(1) by simp
        qed
        moreover have "r = -1" if "\<forall>j < mx. \<not> string_at h slot_data s p srcva j"
          using that ih(3) shift k by (metis add.commute less_diff_conv)
        ultimately show ?thesis by blast
      qed
    qed
  qed
qed

end

end
