(* ===== verification/Process.thy ===== *)
theory Process
  imports User_Copy
begin

text \<open>
  The life of a process in \<open>kernel/proc.c\<close>, where it needs memory: \<open>allocproc\<close>, \<open>proc_pagetable\<close>, \<open>freeproc\<close>, \<open>growproc\<close>, \<open>kfork\<close>,
  \<open>kwait\<close>, \<open>userinit\<close>. The trapframe of a process is a page of memory; its fields are read and written at the offsets of \<open>proc.h\<close>.
  Open files and the current directory belong to the file system and have no counterpart here; neither has the saved kernel context.
\<close>

section \<open>The trapframe\<close>

datatype tf_reg =
    TF_kernel_satp | TF_kernel_sp | TF_kernel_trap | TF_epc | TF_kernel_hartid
  | TF_ra | TF_sp | TF_gp | TF_tp | TF_t0 | TF_t1 | TF_t2 | TF_s0 | TF_s1
  | TF_a0 | TF_a1 | TF_a2 | TF_a3 | TF_a4 | TF_a5 | TF_a6 | TF_a7
  | TF_s2 | TF_s3 | TF_s4 | TF_s5 | TF_s6 | TF_s7 | TF_s8 | TF_s9 | TF_s10 | TF_s11
  | TF_t3 | TF_t4 | TF_t5 | TF_t6

text \<open>The offset of a field, in words of eight bytes.\<close>

primrec tf_off :: "tf_reg \<Rightarrow> nat" where
  "tf_off TF_kernel_satp = 0" | "tf_off TF_kernel_sp = 1" | "tf_off TF_kernel_trap = 2" | "tf_off TF_epc = 3"
| "tf_off TF_kernel_hartid = 4" | "tf_off TF_ra = 5" | "tf_off TF_sp = 6" | "tf_off TF_gp = 7" | "tf_off TF_tp = 8"
| "tf_off TF_t0 = 9" | "tf_off TF_t1 = 10" | "tf_off TF_t2 = 11" | "tf_off TF_s0 = 12" | "tf_off TF_s1 = 13"
| "tf_off TF_a0 = 14" | "tf_off TF_a1 = 15" | "tf_off TF_a2 = 16" | "tf_off TF_a3 = 17" | "tf_off TF_a4 = 18"
| "tf_off TF_a5 = 19" | "tf_off TF_a6 = 20" | "tf_off TF_a7 = 21" | "tf_off TF_s2 = 22" | "tf_off TF_s3 = 23"
| "tf_off TF_s4 = 24" | "tf_off TF_s5 = 25" | "tf_off TF_s6 = 26" | "tf_off TF_s7 = 27" | "tf_off TF_s8 = 28"
| "tf_off TF_s9 = 29" | "tf_off TF_s10 = 30" | "tf_off TF_s11 = 31" | "tf_off TF_t3 = 32" | "tf_off TF_t4 = 33"
| "tf_off TF_t5 = 34" | "tf_off TF_t6 = 35"

definition tf_get :: "nat \<Rightarrow> tf_reg \<Rightarrow> 'd vm \<Rightarrow> u64" where
  "tf_get p r s = get64 (pm (km s) (trapframe (proc_at s p))) (tf_off r)"

definition tf_set :: "nat \<Rightarrow> tf_reg \<Rightarrow> u64 \<Rightarrow> 'd vm \<Rightarrow> 'd vm" where
  "tf_set p r w s =
     (let tf = trapframe (proc_at s p) in s\<lparr>km := set_page tf (put64 (tf_off r) w (pm (km s) tf)) (km s)\<rparr>)"


section \<open>Operations\<close>

definition proc_pagetable :: "riscv_h \<Rightarrow> nat option \<Rightarrow> nat \<Rightarrow> 'd vm \<Rightarrow> (u64 \<times> 'd vm) res" where
  "proc_pagetable h me p s =
     (let (pt, m1) = uvmcreate (km s)
      in if pt = 0 then Inr (0, s\<lparr>km := m1\<rparr>)
         else rbind (mappages h pt (TRAMPOLINE h) 4096 (trampoline h) (PTE_R h OR PTE_X h) m1)
           (\<lambda>(r, m2).
              if r < 0 then rbind (uvmfree h me pt 0 (s\<lparr>km := m2\<rparr>)) (\<lambda>s1. Inr (0, s1))
              else rbind (mappages h pt (TRAPFRAME h) 4096 (trapframe (proc_at s p)) (PTE_R h OR PTE_W h) m2)
                (\<lambda>(r, m3).
                   if r < 0
                   then rbind (uvmunmap h me pt (TRAMPOLINE h) 1 False (s\<lparr>km := m3\<rparr>))
                          (\<lambda>s1. rbind (uvmfree h me pt 0 s1) (\<lambda>s2. Inr (0, s2)))
                   else Inr (pt, s\<lparr>km := m3\<rparr>))))"

definition proc_freepagetable :: "riscv_h \<Rightarrow> nat option \<Rightarrow> u64 \<Rightarrow> u64 \<Rightarrow> 'd vm \<Rightarrow> 'd vm res" where
  "proc_freepagetable h me pt sz s =
     rbind (uvmunmap h me pt (TRAMPOLINE h) 1 False s)
       (\<lambda>s1. rbind (uvmunmap h me pt (TRAPFRAME h) 1 False s1) (uvmfree h me pt sz))"

definition freeproc :: "riscv_h \<Rightarrow> nat option \<Rightarrow> nat \<Rightarrow> 'd vm \<Rightarrow> 'd vm res" where
  "freeproc h me p s =
     rbind (if trapframe (proc_at s p) \<noteq> 0
            then rbind (kfree h (trapframe (proc_at s p)) (km s)) (\<lambda>m. Inr (s\<lparr>km := m\<rparr>))
            else Inr s)
       (\<lambda>s1. let s2 = on_proc (\<lambda>x. x\<lparr>trapframe := 0\<rparr>) p s1
             in rbind (if pagetable (proc_at s2 p) \<noteq> 0
                       then proc_freepagetable h me (pagetable (proc_at s2 p)) (psz (proc_at s2 p))
                              (s2\<lparr>fr := free_proc_swap_slots p (fr s2)\<rparr>)
                       else Inr s2)
                  (\<lambda>s3. Inr (on_proc (\<lambda>x. x\<lparr>pagetable := 0, psz := 0, pid := 0, parent := None, pname := [], pchan := None,
                                         pkilled := 0, xstate := 0, pstate := UNUSED\<rparr>) p s3)))"

definition allocproc :: "riscv_h \<Rightarrow> nat option \<Rightarrow> 'd vm \<Rightarrow> (nat option \<times> 'd vm) res" where
  "allocproc h me s =
     (case find_idx (\<lambda>x. pstate x = UNUSED) (procs (sch s)) of
        None \<Rightarrow> Inr (None, s)
      | Some p \<Rightarrow>
          let (i, sc) = allocpid (sch s);
              s1 = on_proc (\<lambda>x. x\<lparr>pid := i, pstate := USED\<rparr>) p (s\<lparr>sch := sc\<rparr>);
              (tf, m) = kalloc (km s1);
              s2 = on_proc (\<lambda>x. x\<lparr>trapframe := tf\<rparr>) p (s1\<lparr>km := m\<rparr>)
          in if tf = 0 then rbind (freeproc h me p s2) (\<lambda>s3. Inr (None, s3))
             else rbind (proc_pagetable h me p s2)
               (\<lambda>(pt, s3).
                  let s4 = on_proc (\<lambda>x. x\<lparr>pagetable := pt\<rparr>) p s3
                  in if pt = 0 then rbind (freeproc h me p s4) (\<lambda>s5. Inr (None, s5))
                     else Inr (Some p, on_proc (\<lambda>x. x\<lparr>page_faults := 0, pages_swapped_in := 0, pages_swapped_out := 0, pages_evicted := 0,
                                                  resident_pages := 0, syscount := 0, plevel := 0, ticks_used := 0,
                                                  times_scheduled := 0, last_syscall_count := 0, pticks := [0, 0, 0, 0]\<rparr>) p s4)))"

text \<open>A null result of \<open>allocproc\<close> is dereferenced.\<close>

definition userinit :: "riscv_h \<Rightarrow> 'd vm \<Rightarrow> 'd vm res" where
  "userinit h s =
     rbind (allocproc h None s)
       (\<lambda>(p, s1). case p of
          None \<Rightarrow> Inl Fault
        | Some i \<Rightarrow> Inr (on_proc (\<lambda>x. x\<lparr>pstate := RUNNABLE\<rparr>) i (s1\<lparr>sch := (sch s1)\<lparr>initproc := Some i\<rparr>\<rparr>)))"

definition growproc :: "riscv_h \<Rightarrow> nat \<Rightarrow> int \<Rightarrow> 'd vm \<Rightarrow> (int \<times> 'd vm) res" where
  "growproc h me n s =
     (let sz = psz (proc_at s me); pt = pagetable (proc_at s me)
      in if n > 0
         then if sz + of_int n > TRAPFRAME h then Inr (-1, s)
              else rbind (uvmalloc h (Some me) pt sz (sz + of_int n) (PTE_W h) s)
                     (\<lambda>(sz, s1). if sz = 0 then Inr (-1, s1) else Inr (0, on_proc (\<lambda>x. x\<lparr>psz := sz\<rparr>) me s1))
         else if n < 0
         then rbind (uvmdealloc h (Some me) pt sz (sz + of_int n) s) (\<lambda>(sz, s1). Inr (0, on_proc (\<lambda>x. x\<lparr>psz := sz\<rparr>) me s1))
         else Inr (0, on_proc (\<lambda>x. x\<lparr>psz := sz\<rparr>) me s))"

text \<open>\<open>kfork\<close>; \<open>safestrcpy\<close> of \<open>string.c\<close> is a parameter, \<open>struct trapframe\<close> has 288 bytes.\<close>

definition kfork :: "riscv_h \<Rightarrow> 'd swap_ops \<Rightarrow> (string \<Rightarrow> string) \<Rightarrow> nat \<Rightarrow> 'd vm \<Rightarrow> (int \<times> 'd vm) res" where
  "kfork h so safestrcpy p s =
     rbind (allocproc h (Some p) s)
       (\<lambda>(r, s1). case r of
          None \<Rightarrow> Inr (-1, s1)
        | Some np \<Rightarrow>
            rbind (uvmcopy h so (Some p) (pagetable (proc_at s1 p)) (pagetable (proc_at s1 np)) (psz (proc_at s1 p)) np s1)
              (\<lambda>(r, s2).
                 if r < 0 then rbind (freeproc h (Some p) np s2) (\<lambda>s3. Inr (-1, s3))
                 else let s3 = on_proc (\<lambda>x. x\<lparr>psz := psz (proc_at s2 p)\<rparr>) np s2;
                          tf = trapframe (proc_at s3 np);
                          s4 = s3\<lparr>km := set_page tf (put_bytes 0 (get_bytes 0 288 (pm (km s3) (trapframe (proc_at s3 p)))) (pm (km s3) tf)) (km s3)\<rparr>;
                          s5 = tf_set np TF_a0 0 s4;
                          s6 = on_proc (\<lambda>x. x\<lparr>pname := safestrcpy (pname (proc_at s5 p))\<rparr>) np s5;
                          s7 = on_proc (\<lambda>x. x\<lparr>parent := Some p\<rparr>) np s6;
                          s8 = on_proc (\<lambda>x. x\<lparr>pstate := RUNNABLE\<rparr>) np s7
                      in Inr (pid (proc_at s6 np), s8)))"

definition bytes32 :: "int \<Rightarrow> u8 list" where
  "bytes32 n = take 4 (bytes64 (of_int n))"

text \<open>The scan of \<open>kwait\<close> over the table: a value to return, if a child was found, and \<open>havekids\<close>.\<close>

fun kwait_scan ::
  "riscv_h \<Rightarrow> 'd swap_ops \<Rightarrow> nat \<Rightarrow> u64 \<Rightarrow> nat list \<Rightarrow> bool \<Rightarrow> 'd vm \<Rightarrow> (int option \<times> bool \<times> 'd vm) res" where
  "kwait_scan h so p addr [] havekids s = Inr (None, havekids, s)"
| "kwait_scan h so p addr (i # is) havekids s =
     (if parent (proc_at s i) = Some p
      then if pstate (proc_at s i) = ZOMBIE
           then rbind (if addr \<noteq> 0 then copyout h so (Some p) (pagetable (proc_at s p)) addr (bytes32 (xstate (proc_at s i))) s else Inr (0, s))
                  (\<lambda>(r, s1). if r < 0 then Inr (Some (-1), True, s1)
                             else rbind (freeproc h (Some p) i s1) (\<lambda>s2. Inr (Some (pid (proc_at s i)), True, s2)))
           else kwait_scan h so p addr is True s
      else kwait_scan h so p addr is havekids s)"

text \<open>A round of the loop of \<open>kwait\<close>; \<open>None\<close>: the process sleeps and scans again when it is woken.\<close>

definition kwait :: "riscv_h \<Rightarrow> 'd swap_ops \<Rightarrow> nat \<Rightarrow> nat \<Rightarrow> u64 \<Rightarrow> 'd vm \<Rightarrow> (int option \<times> 'd vm) res" where
  "kwait h so cpu p addr s =
     rbind (kwait_scan h so p addr [0..<nproc (sch s)] False s)
       (\<lambda>(r, havekids, s1). case r of
          Some v \<Rightarrow> Inr (Some v, s1)
        | None \<Rightarrow>
            if \<not> havekids \<or> killed p (sch s1) \<noteq> 0 then Inr (Some (-1), s1)
            else rbind (sleep cpu p (ChanProc p) (sch s1)) (\<lambda>sc. Inr (None, s1\<lparr>sch := sc\<rparr>)))"

end
