(* ===== verification/Virtio_Disk.thy ===== *)
theory Virtio_Disk
  imports Buffer_Cache
begin

unbundle bit_operations_syntax

text \<open>
  The virtio block driver, the second half of \<open>kernel/virtio_disk.c\<close>: the descriptor
  allocator, \<open>virtio_disk_rw\<close> and the interrupt handler \<open>virtio_disk_intr\<close>.

  The device is not code of the repository. It is the argument \<open>dev\<close>: what the device does to
  the memory it shares with the driver, and to its own state, until it raises its next interrupt.
  What the driver relies on is the locale \<open>virtio_device\<close>, the behaviour the virtio standard
  documents for a block device. The constants of \<open>virtio.h\<close> are a record argument \<open>h\<close>.

  A pointer handed to the device is a \<open>dma_addr\<close>: it names the object it points to.
\<close>

section \<open>State\<close>

record virtio_h =
  VRING_DESC_F_NEXT :: u16
  VRING_DESC_F_WRITE :: u16
  VIRTIO_BLK_T_IN :: u32
  VIRTIO_BLK_T_OUT :: u32
  BLK_REQ_SIZE :: u32

datatype dma_addr = DNull | DOps nat | DData nat | DStatus nat

record virtq_desc =
  d_addr :: dma_addr
  d_len :: u32
  d_flags :: u16
  d_next :: u16

record virtio_blk_req =
  rq_kind :: u32
  rq_reserved :: u32
  rq_sector :: u64

text \<open>
  The memory the device can access: the descriptor table, the two rings, the request headers
  \<open>disk.ops\<close>, the status bytes \<open>disk.info[i].status\<close> and the data of the buffers.
\<close>

record virtq =
  vq_desc :: "virtq_desc list"
  avail_ring :: "u16 list"
  avail_idx :: u16
  used_ring :: "u32 list"
  used_ring_idx :: u16
  vq_ops :: "virtio_blk_req list"
  vq_status :: "u8 list"
  vq_data :: "nat \<Rightarrow> block"

text \<open>\<open>struct disk\<close> with the flags \<open>b->disk\<close> of the buffers and the state of the device.\<close>

record 'd disk =
  disk_mem :: virtq
  disk_free :: "bool list"
  disk_used_idx :: u16
  info_b :: "nat option list"
  b_disk :: "nat \<Rightarrow> bool"
  vdev :: 'd

text \<open>\<open>NUM\<close> is the length of \<open>disk.free\<close>, of the descriptor table and of the rings.\<close>

abbreviation NUM :: "'d disk \<Rightarrow> nat" where
  "NUM v \<equiv> length (disk_free v)"

type_synonym 'd device = "virtq \<Rightarrow> 'd \<Rightarrow> virtq \<times> 'd"


section \<open>Descriptors\<close>

definition upd_desc :: "nat \<Rightarrow> (virtq_desc \<Rightarrow> virtq_desc) \<Rightarrow> virtq \<Rightarrow> virtq" where
  "upd_desc i f m = m\<lparr>vq_desc := (vq_desc m)[i := f (vq_desc m ! i)]\<rparr>"

definition alloc_desc :: "'d disk \<Rightarrow> nat option \<times> 'd disk" where
  "alloc_desc v =
     (case find_idx (\<lambda>f. f) (disk_free v) of
        Some i \<Rightarrow> (Some i, v\<lparr>disk_free := (disk_free v)[i := False]\<rparr>)
      | None \<Rightarrow> (None, v))"

definition free_desc :: "nat \<Rightarrow> 'd disk \<Rightarrow> 'd disk res" where
  "free_desc i v =
     (if i \<ge> NUM v then Inl (Panic ''free_desc 1'')
      else if disk_free v ! i then Inl (Panic ''free_desc 2'')
      else Inr (v\<lparr>disk_mem := upd_desc i (\<lambda>d. d\<lparr>d_addr := DNull, d_len := 0, d_flags := 0, d_next := 0\<rparr>) (disk_mem v),
                  disk_free := (disk_free v)[i := True]\<rparr>))"

text \<open>Each round of \<open>free_chain\<close> frees one more descriptor, or panics: the loop ends.\<close>

definition in_use :: "'d disk \<Rightarrow> nat" where
  "in_use v = length (filter Not (disk_free v))"

lemma free_desc_in_use: "free_desc i v = Inr v' \<Longrightarrow> in_use v' < in_use v"
  using count_filter_update [of i "disk_free v" Not True] filter_length_pos [of i "disk_free v" Not]
  by (auto simp: free_desc_def in_use_def split: if_splits)

function free_chain :: "virtio_h \<Rightarrow> nat \<Rightarrow> 'd disk \<Rightarrow> 'd disk res" where
  "free_chain h i v =
     (let flag = d_flags (vq_desc (disk_mem v) ! i);
          nxt = d_next (vq_desc (disk_mem v) ! i)
      in case free_desc i v of
           Inl e \<Rightarrow> Inl e
         | Inr v' \<Rightarrow> if flag AND VRING_DESC_F_NEXT h \<noteq> 0 then free_chain h (unat nxt) v' else Inr v')"
  by pat_completeness auto
termination
  by (relation "measure (\<lambda>(h, i, v). in_use v)") (simp_all add: free_desc_in_use)

declare free_chain.simps [simp del]

fun free_descs :: "nat list \<Rightarrow> 'd disk \<Rightarrow> 'd disk res" where
  "free_descs [] v = Inr v"
| "free_descs (i # is) v = rbind (free_desc i v) (free_descs is)"

text \<open>\<open>got\<close> is the filled part of \<open>idx\<close>; \<open>None\<close> is the return value -1.\<close>

fun alloc_descs :: "nat \<Rightarrow> nat list \<Rightarrow> 'd disk \<Rightarrow> (nat list option \<times> 'd disk) res" where
  "alloc_descs 0 got v = Inr (Some got, v)"
| "alloc_descs (Suc n) got v =
     (case alloc_desc v of
        (Some i, v') \<Rightarrow> alloc_descs n (got @ [i]) v'
      | (None, v') \<Rightarrow> rbind (free_descs got v') (\<lambda>v''. Inr (None, v'')))"

definition alloc3_desc :: "'d disk \<Rightarrow> (nat list option \<times> 'd disk) res" where
  "alloc3_desc v = alloc_descs 3 [] v"


section \<open>Requests\<close>

text \<open>The three descriptors of a request: header, data, status byte.\<close>

definition format_request ::
  "virtio_h \<Rightarrow> nat \<Rightarrow> nat \<Rightarrow> u64 \<Rightarrow> bool \<Rightarrow> nat \<Rightarrow> nat \<Rightarrow> nat \<Rightarrow> virtq \<Rightarrow> virtq" where
  "format_request h bs b sector write i0 i1 i2 m =
     (let m1 = m\<lparr>vq_ops := (vq_ops m)[i0 :=
            \<lparr>rq_kind = (if write then VIRTIO_BLK_T_OUT h else VIRTIO_BLK_T_IN h), rq_reserved = 0, rq_sector = sector\<rparr>]\<rparr>;
          m2 = upd_desc i0 (\<lambda>d. d\<lparr>d_addr := DOps i0, d_len := BLK_REQ_SIZE h,
                 d_flags := VRING_DESC_F_NEXT h, d_next := of_nat i1\<rparr>) m1;
          m3 = upd_desc i1 (\<lambda>d. d\<lparr>d_addr := DData b, d_len := of_nat bs,
                 d_flags := (if write then 0 else VRING_DESC_F_WRITE h) OR VRING_DESC_F_NEXT h, d_next := of_nat i2\<rparr>) m2;
          m4 = m3\<lparr>vq_status := (vq_status m3)[i0 := 0xff]\<rparr>
      in upd_desc i2 (\<lambda>d. d\<lparr>d_addr := DStatus i0, d_len := 1, d_flags := VRING_DESC_F_WRITE h, d_next := 0\<rparr>) m4)"

lemma unat_minus_one_less:
  fixes x y :: "'a::len word"
  assumes "x \<noteq> y"
  shows "unat (y - (x + 1)) < unat (y - x)"
proof -
  have "y - x \<noteq> 0" using assms by simp
  then have "unat (y - x - 1) < unat (y - x)" by (simp add: unat_minus_one unat_gt_0)
  then show ?thesis by (simp add: algebra_simps)
qed

function virtio_disk_intr :: "'d disk \<Rightarrow> 'd disk res" where
  "virtio_disk_intr v =
     (if disk_used_idx v = used_ring_idx (disk_mem v) then Inr v
      else let id = unat (used_ring (disk_mem v) ! (unat (disk_used_idx v) mod NUM v))
           in if id \<ge> NUM v then Inl Fault
              else if vq_status (disk_mem v) ! id \<noteq> 0 then Inl (Panic ''virtio_disk_intr status'')
              else case info_b v ! id of
                     None \<Rightarrow> Inl Fault
                   | Some b \<Rightarrow> virtio_disk_intr (v\<lparr>b_disk := (b_disk v)(b := False), disk_used_idx := disk_used_idx v + 1\<rparr>))"
  by pat_completeness auto

termination
  by (relation "measure (\<lambda>v. unat (used_ring_idx (disk_mem v) - disk_used_idx v))")
    (simp_all add: unat_minus_one_less)

declare virtio_disk_intr.simps [simp del]

text \<open>\<open>while(b->disk == 1) sleep(b, ...)\<close>: the device works, then its interrupt is handled.\<close>

fun wait_disk :: "'d device \<Rightarrow> nat \<Rightarrow> nat \<Rightarrow> 'd disk \<Rightarrow> 'd disk res" where
  "wait_disk dev 0 b v = Inl Blocked"
| "wait_disk dev (Suc fuel) b v =
     (if b_disk v b
      then let (m, d) = dev (disk_mem v) (vdev v)
           in rbind (virtio_disk_intr (v\<lparr>disk_mem := m, vdev := d\<rparr>)) (wait_disk dev fuel b)
      else Inr v)"

definition virtio_disk_rw :: "virtio_h \<Rightarrow> nat \<Rightarrow> 'd device \<Rightarrow> nat \<Rightarrow> 'd disk driver" where
  "virtio_disk_rw h bs dev fuel b blockno write data v =
     rbind (alloc3_desc v)
       (\<lambda>(idx, v1). case idx of
          Some [i0, i1, i2] \<Rightarrow>
            (let sector = ucast (blockno * of_nat (bs div 512));
                 m1 = format_request h bs b sector write i0 i1 i2
                        ((disk_mem v1)\<lparr>vq_data := (vq_data (disk_mem v1))(b := data)\<rparr>);
                 m2 = m1\<lparr>avail_ring := (avail_ring m1)[unat (avail_idx m1) mod NUM v1 := of_nat i0]\<rparr>;
                 m3 = m2\<lparr>avail_idx := avail_idx m2 + 1\<rparr>;
                 v2 = v1\<lparr>disk_mem := m3, b_disk := (b_disk v1)(b := True), info_b := (info_b v1)[i0 := Some b]\<rparr>
             in rbind (wait_disk dev fuel b v2)
                  (\<lambda>v3. rbind (free_chain h i0 (v3\<lparr>info_b := (info_b v3)[i0 := None]\<rparr>))
                    (\<lambda>v4. Inr (vq_data (disk_mem v4) b, v4))))
        | _ \<Rightarrow> Inl Blocked)"


section \<open>The descriptor allocator\<close>

lemma upd_desc_simps [simp]:
  "length (vq_desc (upd_desc i f m)) = length (vq_desc m)"
  "avail_ring (upd_desc i f m) = avail_ring m"
  "avail_idx (upd_desc i f m) = avail_idx m"
  "used_ring (upd_desc i f m) = used_ring m"
  "used_ring_idx (upd_desc i f m) = used_ring_idx m"
  "vq_ops (upd_desc i f m) = vq_ops m"
  "vq_status (upd_desc i f m) = vq_status m"
  "vq_data (upd_desc i f m) = vq_data m"
  by (simp_all add: upd_desc_def)

lemma upd_desc_nth:
  "j < length (vq_desc m) \<Longrightarrow> vq_desc (upd_desc i f m) ! j = (if i = j then f (vq_desc m ! j) else vq_desc m ! j)"
  by (simp add: upd_desc_def nth_list_update)

text \<open>The free map \<open>f\<close> with the descriptors of \<open>is\<close> taken.\<close>

definition taken :: "bool list \<Rightarrow> nat list \<Rightarrow> bool list" where
  "taken f is = map (\<lambda>i. f ! i \<and> i \<notin> set is) [0..<length f]"

lemma taken_simps [simp]:
  "length (taken f is) = length f"
  "i < length f \<Longrightarrow> taken f is ! i = (f ! i \<and> i \<notin> set is)"
  "taken f [] = f"
  by (simp_all add: taken_def map_nth)

lemma taken_snoc: "i < length f \<Longrightarrow> (taken f is)[i := False] = taken f (is @ [i])"
  by (rule nth_equalityI) (auto simp: nth_list_update)

lemma taken_free: "i < length f \<Longrightarrow> f ! i \<Longrightarrow> i \<notin> set is \<Longrightarrow> (taken f (i # is))[i := True] = taken f is"
  by (rule nth_equalityI) (auto simp: nth_list_update)

lemma count_taken:
  assumes "distinct is" "\<And>i. i \<in> set is \<Longrightarrow> i < length f \<and> f ! i"
  shows "length (filter (\<lambda>b. b) (taken f is)) + length is = length (filter (\<lambda>b. b) f)"
  using assms
proof (induction "is" rule: rev_induct)
  case Nil
  then show ?case by simp
next
  case (snoc i "is")
  then have "i < length f" "f ! i" by simp_all
  with snoc have "length (filter (\<lambda>b. b) (taken f (is @ [i]))) + 1 = length (filter (\<lambda>b. b) (taken f is))"
    using count_filter_update [of i "taken f is" "\<lambda>b. b" False] by (simp add: taken_snoc)
  with snoc show ?case by simp
qed

lemma free_descs_taken:
  assumes "disk_free v = taken f is" "distinct is" "\<And>i. i \<in> set is \<Longrightarrow> i < length f \<and> f ! i"
  shows "\<exists>m. free_descs is v = Inr (v\<lparr>disk_mem := m, disk_free := f\<rparr>)"
  using assms
proof (induction "is" arbitrary: v)
  case Nil
  then show ?case by (intro exI [of _ "disk_mem v"]) simp
next
  case (Cons i "is")
  have i: "i < length f" "f ! i" using Cons.prems(3) by simp_all
  with Cons.prems(1,2) have "free_desc i v = Inr (v\<lparr>
      disk_mem := upd_desc i (\<lambda>d. d\<lparr>d_addr := DNull, d_len := 0, d_flags := 0, d_next := 0\<rparr>) (disk_mem v),
      disk_free := taken f is\<rparr>)"
    by (simp add: free_desc_def taken_free)
  then show ?case using Cons.IH [of "v\<lparr>disk_mem := _, disk_free := taken f is\<rparr>"] Cons.prems by simp
qed

lemma alloc_descs_spec:
  assumes "disk_free v = taken f got" "distinct got" "\<And>i. i \<in> set got \<Longrightarrow> i < length f \<and> f ! i"
  shows "\<exists>r v'. alloc_descs n got v = Inr (r, v') \<and>
     (case r of
        None \<Rightarrow> length (filter (\<lambda>b. b) f) < n + length got \<and> disk_free v' = f
      | Some idx \<Rightarrow> length idx = n + length got \<and> distinct idx \<and> (\<forall>i \<in> set idx. i < length f \<and> f ! i)
          \<and> v' = v\<lparr>disk_free := taken f idx\<rparr>)"
  using assms
proof (induction n arbitrary: got v)
  case 0
  then show ?case by simp
next
  case (Suc n)
  show ?case
  proof (cases "find_idx (\<lambda>f. f) (disk_free v)")
    case None
    then have "filter (\<lambda>b. b) (taken f got) = []"
      using Suc.prems(1) by (simp add: find_idx_None_iff filter_empty_conv)
    then have "length (filter (\<lambda>b. b) f) = length got" using count_taken [OF Suc.prems(2,3)] by simp
    moreover obtain m where "free_descs got v = Inr (v\<lparr>disk_mem := m, disk_free := f\<rparr>)"
      using free_descs_taken [OF Suc.prems] by blast
    ultimately show ?thesis using None by (simp add: alloc_desc_def)
  next
    case (Some i)
    then have i: "i < length f" "f ! i" "i \<notin> set got"
      using find_idx_SomeD(1,2) [OF Some] by (simp_all add: Suc.prems(1))
    have "\<exists>r v'. alloc_descs n (got @ [i]) (v\<lparr>disk_free := taken f (got @ [i])\<rparr>) = Inr (r, v') \<and>
     (case r of
        None \<Rightarrow> length (filter (\<lambda>b. b) f) < n + length (got @ [i]) \<and> disk_free v' = f
      | Some idx \<Rightarrow> length idx = n + length (got @ [i]) \<and> distinct idx \<and> (\<forall>i \<in> set idx. i < length f \<and> f ! i)
          \<and> v' = v\<lparr>disk_free := taken f (got @ [i])\<rparr>\<lparr>disk_free := taken f idx\<rparr>)"
      using Suc.prems(2,3) i by (intro Suc.IH) auto
    then obtain r v' where "alloc_descs n (got @ [i]) (v\<lparr>disk_free := taken f (got @ [i])\<rparr>) = Inr (r, v')"
      "case r of
        None \<Rightarrow> length (filter (\<lambda>b. b) f) < n + length (got @ [i]) \<and> disk_free v' = f
      | Some idx \<Rightarrow> length idx = n + length (got @ [i]) \<and> distinct idx \<and> (\<forall>i \<in> set idx. i < length f \<and> f ! i)
          \<and> v' = v\<lparr>disk_free := taken f (got @ [i])\<rparr>\<lparr>disk_free := taken f idx\<rparr>" by blast
    then show ?thesis using Some i(1) by (intro exI [of _ r] exI [of _ v'])
        (simp add: alloc_desc_def Suc.prems(1) taken_snoc split: option.splits)
  qed
qed

text \<open>Three descriptors or none.\<close>

lemma alloc3_desc_spec:
  "\<exists>r v'. alloc3_desc v = Inr (r, v') \<and>
     (case r of
        None \<Rightarrow> length (filter (\<lambda>b. b) (disk_free v)) < 3 \<and> disk_free v' = disk_free v
      | Some idx \<Rightarrow> length idx = 3 \<and> distinct idx \<and> (\<forall>i \<in> set idx. i < NUM v \<and> disk_free v ! i)
          \<and> v' = v\<lparr>disk_free := taken (disk_free v) idx\<rparr>)"
  using alloc_descs_spec [of v "disk_free v" "[]" 3] by (simp add: alloc3_desc_def cong: option.case_cong)

lemma alloc3_desc_enough:
  assumes "3 \<le> length (filter (\<lambda>b. b) (disk_free v))"
  obtains i0 i1 i2 where "alloc3_desc v = Inr (Some [i0, i1, i2], v\<lparr>disk_free := taken (disk_free v) [i0, i1, i2]\<rparr>)"
    "distinct [i0, i1, i2]" "\<And>i. i \<in> {i0, i1, i2} \<Longrightarrow> i < NUM v \<and> disk_free v ! i"
proof -
  obtain idx where "alloc3_desc v = Inr (Some idx, v\<lparr>disk_free := taken (disk_free v) idx\<rparr>)"
    "length idx = 3" "distinct idx" "\<forall>i \<in> set idx. i < NUM v \<and> disk_free v ! i"
    using alloc3_desc_spec [of v] assms by (auto split: option.splits)
  moreover from this(2) obtain i0 i1 i2 where "idx = [i0, i1, i2]"
    by (auto simp: length_Suc_conv numeral_3_eq_3)
  ultimately show ?thesis using that by auto
qed


section \<open>The device\<close>

text \<open>
  The request a block device finds in the chain of descriptors at \<open>head\<close>: whether it is a
  write, the sector, the buffer, its length, the status byte. \<open>None\<close> for a chain the standard
  does not allow.
\<close>

definition blk_request :: "virtio_h \<Rightarrow> virtq \<Rightarrow> nat \<Rightarrow> (bool \<times> nat \<times> nat \<times> nat \<times> nat) option" where
  "blk_request h m head =
     (let d0 = vq_desc m ! head;
          d1 = vq_desc m ! unat (d_next d0);
          d2 = vq_desc m ! unat (d_next d1);
          more = (\<lambda>d. d_flags d AND VRING_DESC_F_NEXT h \<noteq> 0);
          writable = (\<lambda>d. d_flags d AND VRING_DESC_F_WRITE h \<noteq> 0)
      in case (d_addr d0, d_addr d1, d_addr d2) of
           (DOps i, DData b, DStatus s) \<Rightarrow>
             (if more d0 \<and> more d1 \<and> \<not> more d2 \<and> \<not> writable d0 \<and> writable d2
                 \<and> d_len d0 = BLK_REQ_SIZE h \<and> d_len d2 = 1
                 \<and> rq_kind (vq_ops m ! i) = (if writable d1 then VIRTIO_BLK_T_IN h else VIRTIO_BLK_T_OUT h)
              then Some (\<not> writable d1, unat (rq_sector (vq_ops m ! i)), b, unat (d_len d1), s)
              else None)
         | _ \<Rightarrow> None)"

text \<open>Completion: the status byte is 0 and the head of the chain is in the used ring.\<close>

definition blk_done :: "nat \<Rightarrow> nat \<Rightarrow> virtq \<Rightarrow> virtq" where
  "blk_done head s m =
     m\<lparr>vq_status := (vq_status m)[s := 0],
       used_ring := (used_ring m)[unat (used_ring_idx m) mod length (used_ring m) := of_nat head],
       used_ring_idx := used_ring_idx m + 1\<rparr>"

definition blk_read :: "(nat \<Rightarrow> u8) \<Rightarrow> nat \<Rightarrow> nat \<Rightarrow> block" where
  "blk_read img off len = map img [off..<off + len]"

definition blk_write :: "(nat \<Rightarrow> u8) \<Rightarrow> nat \<Rightarrow> block \<Rightarrow> nat \<Rightarrow> u8" where
  "blk_write img off d = (\<lambda>p. if off \<le> p \<and> p < off + length d then d ! (p - off) else img p)"

lemma blk_read_write_same: "blk_read (blk_write img off d) off (length d) = d"
  by (rule nth_equalityI) (simp_all add: blk_read_def blk_write_def)

lemma blk_read_write_other:
  assumes "off' + len \<le> off \<or> off + length d \<le> off'"
  shows "blk_read (blk_write img off d) off' len = blk_read img off' len"
  using assms by (auto simp: blk_read_def blk_write_def)

text \<open>
  The contract of the device, with the bytes of its image \<open>img\<close>, its size \<open>capacity\<close> and the
  number \<open>seen\<close> of the available ring up to which it has served requests: the next request of
  the available ring, if its range is inside the image, is served and put into the used ring.
\<close>

locale virtio_device =
  fixes h :: virtio_h
    and dev :: "'d device"
    and img :: "'d \<Rightarrow> nat \<Rightarrow> u8"
    and seen :: "'d \<Rightarrow> u16"
    and dinv :: "'d \<Rightarrow> bool"
    and capacity :: nat
  assumes flags: "VRING_DESC_F_NEXT h \<noteq> 0" "VRING_DESC_F_WRITE h \<noteq> 0"
      "VRING_DESC_F_NEXT h AND VRING_DESC_F_WRITE h = 0"
    and kinds: "VIRTIO_BLK_T_IN h \<noteq> VIRTIO_BLK_T_OUT h"
    and dev_read: "dinv d \<Longrightarrow> avail_idx m = seen d + 1 \<Longrightarrow>
          head = unat (avail_ring m ! (unat (seen d) mod length (avail_ring m))) \<Longrightarrow>
          blk_request h m head = Some (False, sector, b, len, s) \<Longrightarrow> sector * 512 + len \<le> capacity \<Longrightarrow>
          \<exists>d'. dev m d = (blk_done head s (m\<lparr>vq_data := (vq_data m)(b := blk_read (img d) (sector * 512) len)\<rparr>), d')
             \<and> dinv d' \<and> seen d' = avail_idx m \<and> img d' = img d"
    and dev_write: "dinv d \<Longrightarrow> avail_idx m = seen d + 1 \<Longrightarrow>
          head = unat (avail_ring m ! (unat (seen d) mod length (avail_ring m))) \<Longrightarrow>
          blk_request h m head = Some (True, sector, b, len, s) \<Longrightarrow> sector * 512 + len \<le> capacity \<Longrightarrow>
          length (vq_data m b) = len \<Longrightarrow>
          \<exists>d'. dev m d = (blk_done head s m, d')
             \<and> dinv d' \<and> seen d' = avail_idx m \<and> img d' = blk_write (img d) (sector * 512) (vq_data m b)"

text \<open>The driver between two requests.\<close>

definition disk_idle :: "('d \<Rightarrow> u16) \<Rightarrow> ('d \<Rightarrow> bool) \<Rightarrow> 'd disk \<Rightarrow> bool" where
  "disk_idle seen dinv v \<longleftrightarrow>
     3 \<le> NUM v \<and> NUM v < 2 ^ 16 \<and> (\<forall>f \<in> set (disk_free v). f)
   \<and> length (vq_desc (disk_mem v)) = NUM v \<and> length (avail_ring (disk_mem v)) = NUM v
   \<and> length (used_ring (disk_mem v)) = NUM v \<and> length (vq_ops (disk_mem v)) = NUM v
   \<and> length (vq_status (disk_mem v)) = NUM v \<and> length (info_b v) = NUM v
   \<and> disk_used_idx v = used_ring_idx (disk_mem v) \<and> seen (vdev v) = avail_idx (disk_mem v) \<and> dinv (vdev v)"

definition disk_block :: "nat \<Rightarrow> ('d \<Rightarrow> nat \<Rightarrow> u8) \<Rightarrow> 'd disk \<Rightarrow> u32 \<Rightarrow> block" where
  "disk_block bs img v n = blk_read (img (vdev v)) (unat n * bs) bs"

text \<open>The block numbers whose sector number fits \<open>uint\<close>, of blocks inside the image.\<close>

definition block_valid :: "nat \<Rightarrow> nat \<Rightarrow> u32 \<Rightarrow> bool" where
  "block_valid bs capacity n \<longleftrightarrow> unat n * (bs div 512) < 2 ^ 32 \<and> (unat n + 1) * bs \<le> capacity"

lemma block_sector:
  assumes "block_valid bs capacity n" "512 dvd bs"
  shows "unat (ucast (n * of_nat (bs div 512)) :: u64) * 512 = unat n * bs"
    "unat (ucast (n * of_nat (bs div 512)) :: u64) * 512 + bs \<le> capacity"
proof -
  have "unat (n * of_nat (bs div 512)) = unat n * (bs div 512)"
    using assms(1) by (simp add: block_valid_def unat_word_ariths unat_of_nat mod_mult_right_eq)
  then have "unat (ucast (n * of_nat (bs div 512)) :: u64) = unat n * (bs div 512)"
    using assms(1) by (simp add: block_valid_def unsigned_ucast_eq take_bit_nat_eq_self)
  with assms show "unat (ucast (n * of_nat (bs div 512)) :: u64) * 512 = unat n * bs"
    by (simp add: mult.assoc)
  with assms(1) show "unat (ucast (n * of_nat (bs div 512)) :: u64) * 512 + bs \<le> capacity"
    by (simp add: block_valid_def)
qed

lemma disk_block_write:
  assumes "img (vdev v') = blk_write (img (vdev v)) (unat n * bs) d" "length d = bs"
  shows "disk_block bs img v' = (disk_block bs img v)(n := d)"
proof
  fix k
  show "disk_block bs img v' k = ((disk_block bs img v)(n := d)) k"
  proof (cases "k = n")
    case True
    then show ?thesis using assms blk_read_write_same [of _ _ d] by (simp add: disk_block_def)
  next
    case False
    then have "unat k + 1 \<le> unat n \<or> unat n + 1 \<le> unat k" by (simp add: word_unat_eq_iff) linarith
    then have "(unat k + 1) * bs \<le> unat n * bs \<or> (unat n + 1) * bs \<le> unat k * bs"
      by (metis mult_le_mono1)
    then show ?thesis using False assms by (simp add: disk_block_def blk_read_write_other add.commute)
  qed
qed

lemma blk_request_cong:
  assumes "vq_desc m' = vq_desc m" "vq_ops m' = vq_ops m"
  shows "blk_request h m' i = blk_request h m i"
  unfolding blk_request_def assms by (rule refl)

text \<open>\<open>free_chain\<close> on a chain of three.\<close>

definition zero_desc :: "virtq_desc \<Rightarrow> virtq_desc" where
  "zero_desc d = d\<lparr>d_addr := DNull, d_len := 0, d_flags := 0, d_next := 0\<rparr>"

lemma free_desc_zero:
  "i < NUM v \<Longrightarrow> \<not> disk_free v ! i \<Longrightarrow>
     free_desc i v = Inr (v\<lparr>disk_mem := upd_desc i zero_desc (disk_mem v), disk_free := (disk_free v)[i := True]\<rparr>)"
  by (simp add: free_desc_def zero_desc_def [abs_def])

lemma free_chain_step:
  assumes "i < NUM v" "\<not> disk_free v ! i" "d = vq_desc (disk_mem v) ! i"
  shows "free_chain h i v =
    (let v' = v\<lparr>disk_mem := upd_desc i zero_desc (disk_mem v), disk_free := (disk_free v)[i := True]\<rparr>
     in if d_flags d AND VRING_DESC_F_NEXT h \<noteq> 0 then free_chain h (unat (d_next d)) v' else Inr v')"
  using assms by (subst free_chain.simps) (simp add: free_desc_zero Let_def)

lemma free_chain3:
  assumes "i0 < NUM v" "i1 < NUM v" "i2 < NUM v" "distinct [i0, i1, i2]" "NUM v < 2 ^ 16"
    and "\<not> disk_free v ! i0" "\<not> disk_free v ! i1" "\<not> disk_free v ! i2"
    and len: "length (vq_desc (disk_mem v)) = NUM v"
    and d0: "d_flags (vq_desc (disk_mem v) ! i0) AND VRING_DESC_F_NEXT h \<noteq> 0" "d_next (vq_desc (disk_mem v) ! i0) = of_nat i1"
    and d1: "d_flags (vq_desc (disk_mem v) ! i1) AND VRING_DESC_F_NEXT h \<noteq> 0" "d_next (vq_desc (disk_mem v) ! i1) = of_nat i2"
    and d2: "d_flags (vq_desc (disk_mem v) ! i2) AND VRING_DESC_F_NEXT h = 0"
  shows "free_chain h i0 v = Inr (v\<lparr>
      disk_mem := upd_desc i2 zero_desc (upd_desc i1 zero_desc (upd_desc i0 zero_desc (disk_mem v))),
      disk_free := (disk_free v)[i0 := True, i1 := True, i2 := True]\<rparr>)"
proof -
  have n: "unat (of_nat i1 :: u16) = i1" "unat (of_nat i2 :: u16) = i2"
    using assms(2,3,5) by (simp_all add: unat_of_nat_small)
  show ?thesis
    using assms(1-4,6-8) len d0 d1 d2
    by (simp add: free_chain_step Let_def upd_desc_nth n)
qed

context virtio_device
begin

lemma flag_bits:
  "VRING_DESC_F_WRITE h AND VRING_DESC_F_NEXT h = 0"
  "(VRING_DESC_F_WRITE h OR VRING_DESC_F_NEXT h) AND VRING_DESC_F_NEXT h = VRING_DESC_F_NEXT h"
  "(VRING_DESC_F_WRITE h OR VRING_DESC_F_NEXT h) AND VRING_DESC_F_WRITE h = VRING_DESC_F_WRITE h"
  using flags(3) by (simp_all add: and.commute bit.conj_disj_distrib)

text \<open>What the driver writes is a request the device accepts, with the parameters of the call.\<close>

lemma format_request_chain:
  assumes "distinct [i0, i1, i2]" "i0 < length (vq_desc m)" "i1 < length (vq_desc m)" "i2 < length (vq_desc m)"
    and "length (vq_ops m) = length (vq_desc m)" "length (vq_desc m) < 2 ^ 16" "bs < 2 ^ 32"
    and m'_def: "m' = format_request h bs b sector write i0 i1 i2 m"
  shows "blk_request h m' i0 = Some (write, unat sector, b, bs, i0)"
    and "d_flags (vq_desc m' ! i0) AND VRING_DESC_F_NEXT h \<noteq> 0" "d_next (vq_desc m' ! i0) = of_nat i1"
    and "d_flags (vq_desc m' ! i1) AND VRING_DESC_F_NEXT h \<noteq> 0" "d_next (vq_desc m' ! i1) = of_nat i2"
    and "d_flags (vq_desc m' ! i2) AND VRING_DESC_F_NEXT h = 0"
proof -
  have n: "unat (of_nat i1 :: u16) = i1" "unat (of_nat i2 :: u16) = i2" "unat (of_nat bs :: u32) = bs"
    using assms(3,4,6,7) by (simp_all add: unat_of_nat_small)
  note d = upd_desc_nth assms(1-6) flags flag_bits n
  have desc: "vq_desc m' ! i0 = (vq_desc m ! i0)\<lparr>d_addr := DOps i0, d_len := BLK_REQ_SIZE h,
                 d_flags := VRING_DESC_F_NEXT h, d_next := of_nat i1\<rparr>"
    "vq_desc m' ! i1 = (vq_desc m ! i1)\<lparr>d_addr := DData b, d_len := of_nat bs,
                 d_flags := (if write then 0 else VRING_DESC_F_WRITE h) OR VRING_DESC_F_NEXT h, d_next := of_nat i2\<rparr>"
    "vq_desc m' ! i2 = (vq_desc m ! i2)\<lparr>d_addr := DStatus i0, d_len := 1, d_flags := VRING_DESC_F_WRITE h, d_next := 0\<rparr>"
    using assms(1-6) by (auto simp: m'_def format_request_def Let_def upd_desc_nth)
  have ops: "vq_ops m' ! i0 = \<lparr>rq_kind = (if write then VIRTIO_BLK_T_OUT h else VIRTIO_BLK_T_IN h),
      rq_reserved = 0, rq_sector = sector\<rparr>"
    using assms(2,5) by (simp add: m'_def format_request_def Let_def)
  show "blk_request h m' i0 = Some (write, unat sector, b, bs, i0)"
    using flags by (simp add: blk_request_def Let_def desc ops n flag_bits)
qed (use flags assms(1-6) in \<open>auto simp: m'_def format_request_def Let_def upd_desc_nth flag_bits\<close>)

lemma format_request_simps [simp]:
  "length (vq_desc (format_request h bs b sector write i0 i1 i2 m)) = length (vq_desc m)"
  "length (vq_ops (format_request h bs b sector write i0 i1 i2 m)) = length (vq_ops m)"
  "length (vq_status (format_request h bs b sector write i0 i1 i2 m)) = length (vq_status m)"
  "avail_ring (format_request h bs b sector write i0 i1 i2 m) = avail_ring m"
  "avail_idx (format_request h bs b sector write i0 i1 i2 m) = avail_idx m"
  "used_ring (format_request h bs b sector write i0 i1 i2 m) = used_ring m"
  "used_ring_idx (format_request h bs b sector write i0 i1 i2 m) = used_ring_idx m"
  "vq_data (format_request h bs b sector write i0 i1 i2 m) = vq_data m"
  by (simp_all add: format_request_def Let_def)

lemma virtio_disk_intr_one:
  assumes "used_ring_idx (disk_mem v) = disk_used_idx v + 1"
    and "unat (used_ring (disk_mem v) ! (unat (disk_used_idx v) mod NUM v)) = i" "i < NUM v"
    and "vq_status (disk_mem v) ! i = 0" "info_b v ! i = Some b"
  shows "virtio_disk_intr v = Inr (v\<lparr>b_disk := (b_disk v)(b := False), disk_used_idx := disk_used_idx v + 1\<rparr>)"
  using assms by (simp add: virtio_disk_intr.simps)

text \<open>The device serves the one pending request, its interrupt ends the wait.\<close>

lemma wait_disk_one:
  assumes "b_disk v b" "dinv (vdev v)" "avail_idx (disk_mem v) = seen (vdev v) + 1"
    and ring: "unat (avail_ring (disk_mem v) ! (unat (seen (vdev v)) mod length (avail_ring (disk_mem v)))) = i"
    and req: "blk_request h (disk_mem v) i = Some (write, sector, b, len, i)" "sector * 512 + len \<le> capacity"
    and data: "length (vq_data (disk_mem v) b) = len"
    and i: "i < NUM v" "NUM v < 2 ^ 16" "info_b v ! i = Some b"
    and lens: "length (vq_status (disk_mem v)) = NUM v" "length (used_ring (disk_mem v)) = NUM v"
    and used: "disk_used_idx v = used_ring_idx (disk_mem v)"
  shows "\<exists>d' D. wait_disk dev (Suc (Suc fuel)) b v = Inr (v\<lparr>
       disk_mem := blk_done i i ((disk_mem v)\<lparr>vq_data := D\<rparr>), vdev := d',
       b_disk := (b_disk v)(b := False), disk_used_idx := disk_used_idx v + 1\<rparr>)
     \<and> D b = (if write then vq_data (disk_mem v) b else blk_read (img (vdev v)) (sector * 512) len)
     \<and> dinv d' \<and> seen d' = avail_idx (disk_mem v)
     \<and> img d' = (if write then blk_write (img (vdev v)) (sector * 512) (vq_data (disk_mem v) b) else img (vdev v))"
proof -
  obtain d' D where dev: "dev (disk_mem v) (vdev v) = (blk_done i i ((disk_mem v)\<lparr>vq_data := D\<rparr>), d')"
    and D: "D b = (if write then vq_data (disk_mem v) b else blk_read (img (vdev v)) (sector * 512) len)"
    and d': "dinv d'" "seen d' = avail_idx (disk_mem v)"
      "img d' = (if write then blk_write (img (vdev v)) (sector * 512) (vq_data (disk_mem v) b) else img (vdev v))"
  proof (cases "write")
    case True
    with dev_write [OF assms(2,3) ring [symmetric] _ req(2) data] req(1) show thesis using that [of "vq_data (disk_mem v)"] by auto
  next
    case False
    with dev_read [OF assms(2,3) ring [symmetric] _ req(2)] req(1) show thesis using that [of "(vq_data (disk_mem v))(b := blk_read (img (vdev v)) (sector * 512) len)"] by auto
  qed
  let ?v = "v\<lparr>disk_mem := blk_done i i ((disk_mem v)\<lparr>vq_data := D\<rparr>), vdev := d'\<rparr>"
  have "virtio_disk_intr ?v = Inr (?v\<lparr>b_disk := (b_disk ?v)(b := False), disk_used_idx := disk_used_idx ?v + 1\<rparr>)"
  proof (rule virtio_disk_intr_one [of _ i])
    have "unat (used_ring_idx (disk_mem v)) mod NUM v < NUM v" using i(1) by (intro mod_less_divisor) linarith
    then show "unat (used_ring (disk_mem ?v) ! (unat (disk_used_idx ?v) mod NUM ?v)) = i"
      using i lens used by (simp add: blk_done_def unat_of_nat_small)
  qed (use i lens used in \<open>simp_all add: blk_done_def\<close>)
  then have "wait_disk dev (Suc (Suc fuel)) b v = Inr (v\<lparr>
       disk_mem := blk_done i i ((disk_mem v)\<lparr>vq_data := D\<rparr>), vdev := d',
       b_disk := (b_disk v)(b := False), disk_used_idx := disk_used_idx v + 1\<rparr>)"
    using dev assms(1) by simp
  then show ?thesis using D d' by blast
qed

lemma virtio_disk_rw_spec:
  assumes idle: "disk_idle seen dinv v" and n: "block_valid bs capacity n"
    and bs: "512 dvd bs" "bs < 2 ^ 32" and data: "length data = bs"
  shows "\<exists>v'. virtio_disk_rw h bs dev (Suc (Suc fuel)) b n write data v
      = Inr (if write then data else disk_block bs img v n, v')
    \<and> disk_idle seen dinv v' \<and> b_disk v' = (b_disk v)(b := False)
    \<and> img (vdev v') = (if write then blk_write (img (vdev v)) (unat n * bs) data else img (vdev v))"
proof -
  let ?f = "disk_free v"
  have all: "filter (\<lambda>b. b) ?f = ?f" using idle by (auto simp: disk_idle_def intro!: filter_True)
  then have "3 \<le> length (filter (\<lambda>b. b) ?f)" using idle by (simp add: disk_idle_def)
  then obtain i0 i1 i2
    where alloc: "alloc3_desc v = Inr (Some [i0, i1, i2], v\<lparr>disk_free := taken ?f [i0, i1, i2]\<rparr>)"
      and di: "distinct [i0, i1, i2]" and got: "\<And>i. i \<in> {i0, i1, i2} \<Longrightarrow> i < NUM v \<and> ?f ! i"
    using alloc3_desc_enough by blast
  have lt: "i0 < NUM v" "i1 < NUM v" "i2 < NUM v" "?f ! i0" "?f ! i1" "?f ! i2"
    using got by auto
  define sector :: u64 where "sector = ucast (n * of_nat (bs div 512))"
  note sec = block_sector [OF n bs(1), folded sector_def]
  define m0 where "m0 = (disk_mem v)\<lparr>vq_data := (vq_data (disk_mem v))(b := data)\<rparr>"
  define m1 where "m1 = format_request h bs b sector write i0 i1 i2 m0"
  have lens: "length (vq_desc m0) = NUM v" "length (vq_ops m0) = NUM v" "length (vq_status m0) = NUM v"
    "length (avail_ring m0) = NUM v" "length (used_ring m0) = NUM v" "NUM v < 2 ^ 16" "length (info_b v) = NUM v"
    using idle by (simp_all add: disk_idle_def m0_def)
  have chain: "blk_request h m1 i0 = Some (write, unat sector, b, bs, i0)"
    "d_flags (vq_desc m1 ! i0) AND VRING_DESC_F_NEXT h \<noteq> 0" "d_next (vq_desc m1 ! i0) = of_nat i1"
    "d_flags (vq_desc m1 ! i1) AND VRING_DESC_F_NEXT h \<noteq> 0" "d_next (vq_desc m1 ! i1) = of_nat i2"
    "d_flags (vq_desc m1 ! i2) AND VRING_DESC_F_NEXT h = 0"
    using format_request_chain [OF di _ _ _ _ _ bs(2) m1_def] lt lens by simp_all
  define m3 where "m3 = m1\<lparr>avail_ring := (avail_ring m1)[unat (avail_idx m1) mod NUM v := of_nat i0],
      avail_idx := avail_idx m1 + 1\<rparr>"
  define v2 where "v2 = v\<lparr>disk_free := taken ?f [i0, i1, i2], disk_mem := m3,
      b_disk := (b_disk v)(b := True), info_b := (info_b v)[i0 := Some b]\<rparr>"
  have req: "blk_request h m3 i0 = Some (write, unat sector, b, bs, i0)"
    using chain(1) by (simp add: m3_def cong: blk_request_cong)
  have pos: "unat (avail_idx m0) mod NUM v < NUM v" using idle by (intro mod_less_divisor) (auto simp: disk_idle_def)
  have pend: "avail_idx m3 = seen (vdev v) + 1" "length (avail_ring m3) = NUM v"
    "unat (avail_ring m3 ! (unat (seen (vdev v)) mod length (avail_ring m3))) = i0"
    using idle lens(4) pos unat_of_nat_small [of i0, where 'a = 16] lt(1) lens(6)
    by (simp_all add: m3_def m1_def m0_def disk_idle_def)
  have "\<exists>d' D. wait_disk dev (Suc (Suc fuel)) b v2 = Inr (v2\<lparr>
       disk_mem := blk_done i0 i0 ((disk_mem v2)\<lparr>vq_data := D\<rparr>), vdev := d',
       b_disk := (b_disk v2)(b := False), disk_used_idx := disk_used_idx v2 + 1\<rparr>)
     \<and> D b = (if write then vq_data (disk_mem v2) b else blk_read (img (vdev v2)) (unat sector * 512) bs)
     \<and> dinv d' \<and> seen d' = avail_idx (disk_mem v2)
     \<and> img d' = (if write then blk_write (img (vdev v2)) (unat sector * 512) (vq_data (disk_mem v2) b) else img (vdev v2))"
    by (rule wait_disk_one) (use req pend idle lens lt sec data in
        \<open>simp_all add: v2_def disk_idle_def m3_def m1_def m0_def\<close>)
  then obtain d' D where wait: "wait_disk dev (Suc (Suc fuel)) b v2 = Inr (v2\<lparr>
       disk_mem := blk_done i0 i0 (m3\<lparr>vq_data := D\<rparr>), vdev := d',
       b_disk := (b_disk v)(b := False), disk_used_idx := disk_used_idx v + 1\<rparr>)"
     and D: "D b = (if write then data else disk_block bs img v n)"
     and d': "dinv d'" "seen d' = avail_idx m3"
       "img d' = (if write then blk_write (img (vdev v)) (unat n * bs) data else img (vdev v))"
    by (auto simp: v2_def sec disk_block_def m3_def m1_def m0_def)
  let ?v3 = "v2\<lparr>disk_mem := blk_done i0 i0 (m3\<lparr>vq_data := D\<rparr>), vdev := d',
       b_disk := (b_disk v)(b := False), disk_used_idx := disk_used_idx v + 1, info_b := (info_b v2)[i0 := None]\<rparr>"
  let ?v4 = "?v3\<lparr>disk_mem := upd_desc i2 zero_desc (upd_desc i1 zero_desc (upd_desc i0 zero_desc (disk_mem ?v3))),
      disk_free := (disk_free ?v3)[i0 := True, i1 := True, i2 := True]\<rparr>"
  have free: "free_chain h i0 ?v3 = Inr ?v4"
    by (rule free_chain3) (use chain(2-) lens lt di in \<open>simp_all add: v2_def blk_done_def m3_def m1_def\<close>)
  have "disk_free ?v4 = ?f"
    using di lt by (intro nth_equalityI) (auto simp: v2_def nth_list_update)
  then have "disk_idle seen dinv ?v4"
    using idle d' by (auto simp: disk_idle_def v2_def blk_done_def m3_def m1_def m0_def)
  moreover have "virtio_disk_rw h bs dev (Suc (Suc fuel)) b n write data v = Inr (D b, ?v4)"
    using wait free
    by (simp add: virtio_disk_rw_def alloc Let_def v2_def m3_def m1_def m0_def sector_def blk_done_def)
  ultimately show ?thesis using D d'(3) by (intro exI [of _ ?v4]) simp
qed

end


section \<open>What the driver provides\<close>

locale virtio_driver = virtio_device +
  fixes bs :: nat and fuel :: nat
  assumes bs_sectors: "512 dvd bs" and bs_range: "bs < 2 ^ 32"

sublocale virtio_driver \<subseteq> drv: block_driver bs "virtio_disk_rw h bs dev (Suc (Suc fuel))"
  "disk_block bs img" "disk_idle seen dinv" "block_valid bs capacity"
proof unfold_locales
  fix v n
  show "length (disk_block bs img v n) = bs" by (simp add: disk_block_def blk_read_def)
next
  fix v :: "'a disk" and n :: u32 and data :: block and b
  assume A: "disk_idle seen dinv v" "block_valid bs capacity n" "length data = bs"
  note rw = virtio_disk_rw_spec [OF A(1,2) bs_sectors bs_range A(3), of fuel b]
  show "\<exists>v'. virtio_disk_rw h bs dev (Suc (Suc fuel)) b n False data v = Inr (disk_block bs img v n, v')
      \<and> disk_idle seen dinv v' \<and> disk_block bs img v' = disk_block bs img v"
    using rw [of False] by (auto simp: disk_block_def [abs_def])
  show "\<exists>v'. virtio_disk_rw h bs dev (Suc (Suc fuel)) b n True data v = Inr (data, v')
      \<and> disk_idle seen dinv v' \<and> disk_block bs img v' = (disk_block bs img v)(n := data)"
    using rw [of True] disk_block_write [of img _ v n bs data] A(3) by force
qed


section \<open>A device\<close>

text \<open>
  A device that serves the next request of the ring as the standard says, with the constants of
  the standard. A request outside the image gets the status 1 (an I/O error).
\<close>

record blk_dev =
  dv_img :: "nat \<Rightarrow> u8"
  dv_seen :: u16

definition virtio_std :: virtio_h where
  "virtio_std = \<lparr>VRING_DESC_F_NEXT = 1, VRING_DESC_F_WRITE = 2, VIRTIO_BLK_T_IN = 0, VIRTIO_BLK_T_OUT = 1, BLK_REQ_SIZE = 16\<rparr>"

definition blk_device :: "virtio_h \<Rightarrow> nat \<Rightarrow> blk_dev device" where
  "blk_device h capacity m d =
     (if avail_idx m = dv_seen d then (m, d)
      else let head = unat (avail_ring m ! (unat (dv_seen d) mod length (avail_ring m)))
           in case blk_request h m head of
                None \<Rightarrow> (m, d)
              | Some (wr, sector, b, len, s) \<Rightarrow>
                  (if sector * 512 + len > capacity
                   then ((blk_done head s m)\<lparr>vq_status := (vq_status m)[s := 1]\<rparr>, d\<lparr>dv_seen := dv_seen d + 1\<rparr>)
                   else if wr
                   then (blk_done head s m,
                         d\<lparr>dv_img := blk_write (dv_img d) (sector * 512) (vq_data m b), dv_seen := dv_seen d + 1\<rparr>)
                   else (blk_done head s (m\<lparr>vq_data := (vq_data m)(b := blk_read (dv_img d) (sector * 512) len)\<rparr>),
                         d\<lparr>dv_seen := dv_seen d + 1\<rparr>)))"

interpretation std: virtio_driver virtio_std "blk_device virtio_std capacity" dv_img dv_seen "\<lambda>d. True"
  capacity 1024 fuel
  for capacity fuel
  by unfold_locales (auto simp: virtio_std_def blk_device_def Let_def)


section \<open>Properties of the driver\<close>

text \<open>A driver with eight descriptors, and a blank image.\<close>

definition idle_disk :: "blk_dev disk" where
  "idle_disk =
     \<lparr>disk_mem = \<lparr>vq_desc = replicate 8 \<lparr>d_addr = DNull, d_len = 0, d_flags = 0, d_next = 0\<rparr>,
        avail_ring = replicate 8 0, avail_idx = 0, used_ring = replicate 8 0, used_ring_idx = 0,
        vq_ops = replicate 8 \<lparr>rq_kind = 0, rq_reserved = 0, rq_sector = 0\<rparr>, vq_status = replicate 8 0,
        vq_data = (\<lambda>b. [])\<rparr>,
      disk_free = replicate 8 True, disk_used_idx = 0, info_b = replicate 8 None, b_disk = (\<lambda>b. False),
      vdev = \<lparr>dv_img = (\<lambda>p. 0), dv_seen = 0\<rparr>\<rparr>"

lemma idle_disk_idle: "disk_idle dv_seen (\<lambda>d. True) idle_disk"
  by (simp add: disk_idle_def idle_disk_def)

text \<open>
  C20: Descriptors are allocated all or nothing. \<open>alloc3_desc\<close> never panics. It takes three
  different free descriptors and changes nothing but their marks, or, with fewer than three free, it
  fails and every descriptor it had taken is free again.
\<close>

theorem alloc3_all_or_nothing:
  "\<exists>r v'. alloc3_desc v = Inr (r, v') \<and>
     (case r of
        None \<Rightarrow> length (filter (\<lambda>b. b) (disk_free v)) < 3 \<and> disk_free v' = disk_free v
      | Some idx \<Rightarrow> length idx = 3 \<and> distinct idx \<and> (\<forall>i \<in> set idx. i < NUM v \<and> disk_free v ! i)
          \<and> v' = v\<lparr>disk_free := taken (disk_free v) idx\<rparr>)"
  by (rule alloc3_desc_spec)

theorem alloc3_all_or_nothing_witness:
  "\<exists>r v'. alloc3_desc (idle_disk\<lparr>disk_free := [True, False, True, False]\<rparr>) = Inr (r, v')
     \<and> disk_free v' = [True, False, True, False]"
proof -
  let ?v = "idle_disk\<lparr>disk_free := [True, False, True, False]\<rparr>"
  have "card (set idx) \<le> card {0, 2::nat}" if "\<forall>i \<in> set idx. i < NUM ?v \<and> disk_free ?v ! i" for idx
  proof (rule card_mono)
    show "set idx \<subseteq> {0, 2}"
    proof
      fix i assume "i \<in> set idx"
      with that have "i < 4" "[True, False, True, False] ! i" by auto
      then show "i \<in> {0, 2}" by (auto simp: less_Suc_eq numeral_eq_Suc)
    qed
  qed simp
  then have "\<not> (length idx = 3 \<and> distinct idx \<and> (\<forall>i \<in> set idx. i < NUM ?v \<and> disk_free ?v ! i))" for idx
    using distinct_card [of idx] by fastforce
  then show ?thesis using alloc3_all_or_nothing [of ?v] by (fastforce split: option.splits)
qed

text \<open>
  C19: A transfer. With a device that keeps the contract, an idle driver and a block inside the image,
  \<open>virtio_disk_rw\<close> returns: a read delivers the bytes of the block and leaves the image as it
  is, a write puts the buffer at the place of the block and nowhere else, and the driver is idle
  again, with all its descriptors free and the buffer no longer owned by the disk.
\<close>

theorem virtio_disk_rw_transfers:
  assumes "virtio_device h dev img seen dinv capacity" "disk_idle seen dinv v" "block_valid bs capacity n"
    and "512 dvd bs" "bs < 2 ^ 32" "length data = bs"
  shows "\<exists>v'. virtio_disk_rw h bs dev (Suc (Suc fuel)) b n write data v
      = Inr (if write then data else blk_read (img (vdev v)) (unat n * bs) bs, v')
    \<and> disk_idle seen dinv v' \<and> \<not> b_disk v' b
    \<and> img (vdev v') = (if write then blk_write (img (vdev v)) (unat n * bs) data else img (vdev v))"
  using virtio_device.virtio_disk_rw_spec [OF assms(1-6), of fuel b "write"]
  by (auto simp: disk_block_def)

theorem virtio_disk_rw_transfers_witness:
  "\<exists>v'. virtio_disk_rw virtio_std 1024 (blk_device virtio_std 8192) (Suc (Suc 0)) 0 3 True (replicate 1024 7) idle_disk
      = Inr (replicate 1024 7, v') \<and> \<not> b_disk v' 0 \<and> dv_img (vdev v') 3072 = 7 \<and> dv_img (vdev v') 4096 = 0"
proof -
  have dev: "virtio_device virtio_std (blk_device virtio_std 8192) dv_img dv_seen (\<lambda>d. True) 8192"
    by (rule std.virtio_device_axioms)
  have "block_valid 1024 8192 3" by (simp add: block_valid_def)
  from virtio_disk_rw_transfers [OF dev idle_disk_idle this, of "replicate 1024 7" 0 0 True]
  show ?thesis by (auto simp: blk_write_def idle_disk_def)
qed

end
