(* ===== verification/Swap_Stack.thy ===== *)
theory Swap_Stack
  imports Swap_Area Virtio_Disk
begin

text \<open>
  The storage stack put together: the swap area of \<open>kernel/virtio_disk.c\<close> over the buffer cache and
  request queue of \<open>kernel/bio.c\<close>, over the virtio driver, over a device. Any device that keeps the
  contract \<open>virtio_device\<close> gives a swap area that keeps the contract \<open>swap_device\<close>.
\<close>

text \<open>The blocks of the swap region: \<open>rows\<close> rows of one block per simulated disk.\<close>

definition swap_region :: "int \<Rightarrow> u32 \<Rightarrow> bool" where
  "swap_region rows n \<longleftrightarrow> SWAP_START_BLOCK \<le> uint n \<and> uint n < SWAP_START_BLOCK + 4 * rows"

lemma swap_region_phys:
  assumes "rows \<le> max_row" "0 \<le> d" "d < 4" "0 \<le> r" "r < rows"
  shows "swap_region rows (swap_phys_block d r)"
  using swap_phys_block_uint [of d r] assms by (simp add: swap_region_def SWAP_START_BLOCK_def)

text \<open>The size the disk image must have for the swap region.\<close>

definition image_fits :: "nat \<Rightarrow> nat \<Rightarrow> int \<Rightarrow> bool" where
  "image_fits bs capacity rows \<longleftrightarrow>
     (SWAP_START_BLOCK + 4 * rows) * int bs \<le> int capacity
   \<and> (SWAP_START_BLOCK + 4 * rows) * int (bs div 512) \<le> 2 ^ 32"

lemma swap_region_valid:
  assumes "image_fits bs capacity rows" "swap_region rows n"
  shows "block_valid bs capacity n"
proof -
  have n: "int (unat n) + 1 \<le> SWAP_START_BLOCK + 4 * rows"
    using assms(2) by (simp add: swap_region_def)
  have "(int (unat n) + 1) * int bs \<le> (SWAP_START_BLOCK + 4 * rows) * int bs"
    using n by (intro mult_right_mono) auto
  then have "int ((unat n + 1) * bs) \<le> int capacity"
    using assms(1) by (simp add: image_fits_def algebra_simps)
  moreover have "int (unat n * (bs div 512)) < int (2 ^ 32)"
  proof (cases "bs div 512 = 0")
    case False
    then have "int (unat n) * int (bs div 512) < (SWAP_START_BLOCK + 4 * rows) * int (bs div 512)"
      using n by (intro mult_strict_right_mono) auto
    then show ?thesis using assms(1) by (simp add: image_fits_def)
  qed simp
  ultimately show ?thesis unfolding block_valid_def by (simp only: of_nat_less_iff of_nat_le_iff)
qed

locale swap_stack = virtio_driver +
  fixes level :: "nat \<Rightarrow> int" and me :: "nat option" and rootdev :: u32 and rows :: int
  assumes stack_bs: "0 < bs" "bs dvd PGSIZE"
    and stack_rows: "rows \<le> max_row" "int MAX_SWAP_PAGES * int (BLOCKS_PER_PAGE bs) \<le> 2 * rows"
    and stack_image: "image_fits bs capacity rows"

sublocale swap_stack \<subseteq> cache: block_cache bs "virtio_disk_rw h bs dev (Suc (Suc fuel))"
  "disk_block bs img" "disk_idle seen dinv" "block_valid bs capacity" level me rootdev "swap_region rows"
  by unfold_locales (rule swap_region_valid [OF stack_image])

sublocale swap_stack \<subseteq> swap: raid_swap bs
  "block_read (virtio_disk_rw h bs dev (Suc (Suc fuel))) level me rootdev"
  "block_write (virtio_disk_rw h bs dev (Suc (Suc fuel))) level me rootdev"
  "\<lambda>s. disk_block bs img (drv s)"
  "bio_inv bs (disk_block bs img) (disk_idle seen dinv) (swap_region rows) rootdev" "swap_region rows" rows
  by unfold_locales (rule stack_bs stack_rows swap_region_phys [OF stack_rows(1)]; assumption?)+

text \<open>
  The stack with the block size of xv6 on the device of the standard: 256 pages of 4 blocks
  need 512 rows, and with the 1000 blocks before the swap region an image of 3048 blocks.
\<close>

definition swap_image :: nat where
  "swap_image = 3048 * 1024"

interpretation xv6: swap_stack virtio_std "blk_device virtio_std swap_image" dv_img dv_seen "\<lambda>d. True"
  swap_image 1024 fuel level me rootdev 512
  for fuel level me rootdev
  by unfold_locales
    (auto simp: PGSIZE_def MAX_SWAP_PAGES_def BLOCKS_PER_PAGE_def max_row_def image_fits_def
      SWAP_START_BLOCK_def swap_image_def)


section \<open>Properties of the stack\<close>

abbreviation stack_rw :: "virtio_h \<Rightarrow> nat \<Rightarrow> 'd device \<Rightarrow> nat \<Rightarrow> 'd disk driver" where
  "stack_rw h bs dev fuel \<equiv> virtio_disk_rw h bs dev (Suc (Suc fuel))"

abbreviation stack_inv where
  "stack_inv bs img seen dinv rows rootdev \<equiv> bio_inv bs (disk_block bs img) (disk_idle seen dinv) (swap_region rows) rootdev"

context swap_stack
begin

lemmas stack_round_trip = swap.dev.swap_round_trip
lemmas stack_write = swap.swap_disk_write_spec
lemmas stack_read = swap.swap_disk_read_spec
lemmas stack_block_read = cache.block_read_spec
lemmas stack_block_write = cache.block_write_spec
lemmas stack_dispatcher = drv.dispatcher_drains

end

text \<open>
  C1: A page that is swapped out comes back. Over any device that keeps the virtio contract, in every RAID
  mode, with the failed disk of RAID5 included: a page written to slot \<open>n\<close> is read back unchanged
  from slot \<open>n\<close>, also after a page has been written to another slot. All three calls return 0.
\<close>

theorem swap_out_swap_in:
  assumes "swap_stack h dev img seen dinv capacity bs rows"
    and "stack_inv bs img seen dinv rows rootdev (rstore r)"
    and "n < MAX_SWAP_PAGES" "length page = PGSIZE" "m < MAX_SWAP_PAGES" "length page' = PGSIZE" "m \<noteq> n"
    and get: "get = block_read (stack_rw h bs dev fuel) level me rootdev"
    and put: "put = block_write (stack_rw h bs dev fuel) level me rootdev"
  shows "\<exists>r1 r2 r3. swap_disk_write bs get put (int n) page r = Inr (0, r1)
     \<and> swap_disk_write bs get put (int m) page' r1 = Inr (0, r2)
     \<and> swap_disk_read bs get (int n) r2 = Inr (0, page, r3)"
  unfolding get put by (rule swap_stack.stack_round_trip [OF assms(1-7)])

text \<open>The stack after boot: blank buffers, \<open>binit\<close> done, an idle driver over a blank image.\<close>

definition boot_stack :: "int \<Rightarrow> blk_dev disk bio raid" where
  "boot_stack mode =
     \<lparr>raid_mode = mode,
      rstore = \<lparr>bc = cold_cache 1024 30,
                dq = binit_queue \<lparr>req_pool = replicate MAX_DISK_REQS init_req, dq_head = None, dq_busy = False,
                  disk_sched_policy = 0, current_disk_head = 0, disk_reads = 0, disk_writes = 0,
                  disk_total_latency = 0, disk_req_count = 0\<rparr>,
                drv = idle_disk\<rparr>\<rparr>"

lemma boot_stack_inv: "rootdev \<noteq> 0 \<Longrightarrow> stack_inv 1024 dv_img dv_seen (\<lambda>d. True) 512 rootdev (rstore (boot_stack mode))"
  by (simp add: bio_inv_def boot_stack_def cold_cache_inv binit_queue_idle idle_disk_idle MAX_DISK_REQS_def)

theorem swap_out_swap_in_witness:
  "\<exists>r1 r2 r3.
     swap_disk_write 1024 (block_read (stack_rw virtio_std 1024 (blk_device virtio_std swap_image) 0) (\<lambda>p. 0) None 1)
       (block_write (stack_rw virtio_std 1024 (blk_device virtio_std swap_image) 0) (\<lambda>p. 0) None 1)
       255 (replicate PGSIZE 9) (boot_stack RAID5) = Inr (0, r1)
   \<and> swap_disk_write 1024 (block_read (stack_rw virtio_std 1024 (blk_device virtio_std swap_image) 0) (\<lambda>p. 0) None 1)
       (block_write (stack_rw virtio_std 1024 (blk_device virtio_std swap_image) 0) (\<lambda>p. 0) None 1)
       0 (replicate PGSIZE 1) r1 = Inr (0, r2)
   \<and> swap_disk_read 1024 (block_read (stack_rw virtio_std 1024 (blk_device virtio_std swap_image) 0) (\<lambda>p. 0) None 1)
       255 r2 = Inr (0, replicate PGSIZE 9, r3)"
  using swap_out_swap_in [OF xv6.swap_stack_axioms boot_stack_inv, of 1 255 "replicate PGSIZE 9" 0 "replicate PGSIZE 1"]
  by (simp add: MAX_SWAP_PAGES_def)



text \<open>
  C15: The dispatcher returns. Given a queue of requests for buffers of the cache and blocks of the device,
  \<open>run_disk_dispatcher\<close> ends after as many transfers as there are requests: the queue is empty, \<open>busy\<close> is
  clear, each queued request is completed and no other one is touched, and each is counted once.
\<close>

theorem dispatcher_serves_all:
  assumes "swap_stack h dev img seen dinv capacity bs rows"
    and "queue_of (dq s) xs" "length xs < fuel'" "disk_idle seen dinv (drv s)" "bufs_sized bs (bc s)"
    and "\<And>i. i \<in> set xs \<Longrightarrow> rq_b (req_pool (dq s) ! i) < nbuf (bc s)
          \<and> block_valid bs capacity (b_blockno (bc_buf (bc s) ! rq_b (req_pool (dq s) ! i)))"
  shows "\<exists>s'. run_disk_dispatcher fuel' (stack_rw h bs dev fuel) level s = Inr s'
     \<and> queue_of (dq s') [] \<and> \<not> dq_busy (dq s')
     \<and> disk_req_count (dq s') = disk_req_count (dq s) + of_nat (length xs)
     \<and> (\<forall>i < length (req_pool (dq s)). rq_completed (req_pool (dq s') ! i) = (rq_completed (req_pool (dq s) ! i) \<or> i \<in> set xs))"
  using swap_stack.stack_dispatcher [OF assms(1-5) assms(6), of fuel level] by blast

theorem dispatcher_serves_all_witness:
  "\<exists>s'. run_disk_dispatcher 4 (stack_rw virtio_std 1024 (blk_device virtio_std swap_image) 0) (\<lambda>p. 0)
      \<lparr>bc = cold_cache 1024 3, dq = three_requests 1, drv = idle_disk\<rparr> = Inr s'
    \<and> disk_req_count (dq s') = 3 \<and> rq_completed (req_pool (dq s') ! 2)"
proof -
  let ?s = "\<lparr>bc = cold_cache 1024 3, dq = three_requests 1, drv = idle_disk\<rparr>"
  have bufs: "bufs_sized 1024 (cold_cache 1024 3)"
    using cold_cache_inv [of 3 1 1024 "\<lambda>n. []" "\<lambda>n. False"] by (simp add: cache_inv_def)
  have q: "queue_of (three_requests 1) [0, 1, 2]" by (simp add: queue_of_def three_requests_def init_req_def)
  have zero: "rq_b (req_pool (three_requests 1) ! i) = 0" if "i \<in> set [0, 1, 2]" for i
    using that by (auto simp: three_requests_def init_req_def)
  have "b_blockno (bc_buf (cold_cache 1024 3) ! 0) = 0"
  proof -
    have "\<forall>b \<in> set (bc_buf (cold_cache 1024 3)). b_blockno b = 0"
      unfolding cold_cache_def by (rule binit_cache_all) (auto simp: blank_def)
    then show ?thesis by (simp add: cold_cache_def)
  qed
  then have blk: "rq_b (req_pool (dq ?s) ! i) < nbuf (bc ?s)
      \<and> block_valid 1024 swap_image (b_blockno (bc_buf (bc ?s) ! rq_b (req_pool (dq ?s) ! i)))" if "i \<in> set [0, 1, 2]" for i
    using zero [OF that] by (simp add: block_valid_def swap_image_def cold_cache_def)
  have "length (req_pool (dq ?s)) = 3" "disk_req_count (dq ?s) = 0" by (simp_all add: three_requests_def)
  then show ?thesis
    using dispatcher_serves_all [OF xv6.swap_stack_axioms, of ?s "[0, 1, 2]" 4 0 "\<lambda>p. 0"] q bufs idle_disk_idle blk
    by auto
qed

end
