(* ===== verification/Syscalls.thy ===== *)
theory Syscalls
  imports Process Swap_Stack
begin

text \<open>
  System calls: argument access and the dispatcher of \<open>kernel/syscall.c\<close>, the handlers of \<open>kernel/sysproc.c\<close>. A handler runs as process
  \<open>p\<close> on CPU \<open>cpu\<close>; it returns a value, sleeps, or exits. The handlers of the file system are not in this repository and are
  a parameter, as are the constants and the structure layout of headers that are not.
\<close>

section \<open>State\<close>

type_synonym 'v kernel = "'v bio raid vm"

datatype sys_out = Ret u64 | Sleeps | Exits

type_synonym 'v handler = "'v kernel \<Rightarrow> (sys_out \<times> 'v kernel) res"

text \<open>
  \<open>vm.h\<close>: \<open>SBRK_EAGER\<close>; the bytes of a \<open>struct mlfqinfo\<close> with the given level, number of schedulings, system calls and ticks;
  \<open>string.c\<close>: \<open>safestrcpy\<close> into a name of 16 bytes; the handlers of \<open>sysfile.c\<close> by their number.
\<close>

record 'v sys_h =
  SBRK_EAGER :: int
  mlfqinfo_bytes :: "int \<Rightarrow> int \<Rightarrow> u64 \<Rightarrow> int list \<Rightarrow> u8 list"
  safestrcpy :: "string \<Rightarrow> string"
  sysfile :: "int \<Rightarrow> nat \<Rightarrow> 'v handler"

abbreviation minus_one :: u64 where
  "minus_one \<equiv> -1"


section \<open>Arguments\<close>

definition argraw :: "nat \<Rightarrow> int \<Rightarrow> 'd vm \<Rightarrow> u64 res" where
  "argraw p n s =
     (if n = 0 then Inr (tf_get p TF_a0 s)
      else if n = 1 then Inr (tf_get p TF_a1 s)
      else if n = 2 then Inr (tf_get p TF_a2 s)
      else if n = 3 then Inr (tf_get p TF_a3 s)
      else if n = 4 then Inr (tf_get p TF_a4 s)
      else if n = 5 then Inr (tf_get p TF_a5 s)
      else Inl (Panic ''argraw''))"

definition argint :: "nat \<Rightarrow> int \<Rightarrow> 'd vm \<Rightarrow> int res" where
  "argint p n s = rbind (argraw p n s) (\<lambda>w. Inr (c_int (uint w)))"

definition argaddr :: "nat \<Rightarrow> int \<Rightarrow> 'd vm \<Rightarrow> u64 res" where
  "argaddr p n s = argraw p n s"

definition fetchaddr :: "riscv_h \<Rightarrow> 'd swap_ops \<Rightarrow> nat \<Rightarrow> u64 \<Rightarrow> 'd vm \<Rightarrow> (int \<times> u64 \<times> 'd vm) res" where
  "fetchaddr h so p addr s =
     (if addr \<ge> psz (proc_at s p) \<or> addr + 8 > psz (proc_at s p) then Inr (-1, 0, s)
      else rbind (copyin h so (Some p) (pagetable (proc_at s p)) addr 8 s)
             (\<lambda>(r, bs, s1). if r \<noteq> 0 then Inr (-1, 0, s1) else Inr (0, le64 bs, s1)))"

text \<open>\<open>strlen(buf)\<close> of the copied string: the bytes before the first 0.\<close>

definition fetchstr :: "riscv_h \<Rightarrow> nat \<Rightarrow> u64 \<Rightarrow> nat \<Rightarrow> 'd vm \<Rightarrow> (int \<times> u8 list) res" where
  "fetchstr h p addr mx s =
     rbind (copyinstr h (pagetable (proc_at s p)) addr mx s)
       (\<lambda>(r, buf). if r < 0 then Inr (-1, buf) else Inr (int (length (takeWhile (\<lambda>b. b \<noteq> 0) buf)), buf))"

definition argstr :: "riscv_h \<Rightarrow> nat \<Rightarrow> int \<Rightarrow> nat \<Rightarrow> 'd vm \<Rightarrow> (int \<times> u8 list) res" where
  "argstr h p n mx s = rbind (argaddr p n s) (\<lambda>addr. fetchstr h p addr mx s)"


section \<open>Handlers\<close>

definition sys_exit :: "nat \<Rightarrow> nat \<Rightarrow> 'v handler" where
  "sys_exit cpu p s = rbind (argint p 0 s) (\<lambda>n. rbind (kexit cpu p n (sch s)) (\<lambda>sc. Inr (Exits, s\<lparr>sch := sc\<rparr>)))"

definition sys_getpid :: "nat \<Rightarrow> 'v handler" where
  "sys_getpid p s = Inr (Ret (of_int (pid (proc_at s p))), s)"

definition sys_fork :: "riscv_h \<Rightarrow> 'v sys_h \<Rightarrow> 'v bio raid swap_ops \<Rightarrow> nat \<Rightarrow> 'v handler" where
  "sys_fork h sh so p s = rbind (kfork h so (safestrcpy sh) p s) (\<lambda>(r, s1). Inr (Ret (of_int r), s1))"

definition sys_wait :: "riscv_h \<Rightarrow> 'v bio raid swap_ops \<Rightarrow> nat \<Rightarrow> nat \<Rightarrow> 'v handler" where
  "sys_wait h so cpu p s =
     rbind (argaddr p 0 s)
       (\<lambda>addr. rbind (kwait h so cpu p addr s)
          (\<lambda>(r, s1). case r of Some v \<Rightarrow> Inr (Ret (of_int v), s1) | None \<Rightarrow> Inr (Sleeps, s1)))"

definition sys_sbrk :: "riscv_h \<Rightarrow> 'v sys_h \<Rightarrow> nat \<Rightarrow> 'v handler" where
  "sys_sbrk h sh p s =
     rbind (argint p 0 s)
       (\<lambda>n. rbind (argint p 1 s)
          (\<lambda>t. let addr = psz (proc_at s p)
               in if t = SBRK_EAGER sh \<or> n < 0
                  then rbind (growproc h p n s) (\<lambda>(r, s1). if r < 0 then Inr (Ret minus_one, s1) else Inr (Ret addr, s1))
                  else if addr + of_int n < addr then Inr (Ret minus_one, s)
                  else if addr + of_int n > TRAPFRAME h then Inr (Ret minus_one, s)
                  else Inr (Ret addr, on_proc (\<lambda>x. x\<lparr>psz := psz x + of_int n\<rparr>) p s)))"

text \<open>
  The loop of \<open>sys_pause\<close> and \<open>sys_sleep\<close> from its test on: it runs once more each time the process is woken. The
  comparison \<open>ticks - ticks0 < n\<close> is one of unsigned numbers.
\<close>

definition tick_wait :: "nat \<Rightarrow> nat \<Rightarrow> u32 \<Rightarrow> int \<Rightarrow> 'v handler" where
  "tick_wait cpu p ticks0 n s =
     (if ticks (sch s) - ticks0 < of_int n
      then if killed p (sch s) \<noteq> 0 then Inr (Ret minus_one, s)
           else rbind (sleep cpu p ChanTicks (sch s)) (\<lambda>sc. Inr (Sleeps, s\<lparr>sch := sc\<rparr>))
      else Inr (Ret 0, s))"

definition sys_pause :: "nat \<Rightarrow> nat \<Rightarrow> 'v handler" where
  "sys_pause cpu p s = rbind (argint p 0 s) (\<lambda>n. tick_wait cpu p (ticks (sch s)) (if n < 0 then 0 else n) s)"

definition sys_kill :: "nat \<Rightarrow> 'v handler" where
  "sys_kill p s = rbind (argint p 0 s) (\<lambda>n. let (r, sc) = kkill n (sch s) in Inr (Ret (of_int r), s\<lparr>sch := sc\<rparr>))"

definition sys_uptime :: "'v handler" where
  "sys_uptime s = Inr (Ret (ucast (ticks (sch s))), s)"

definition sys_hello :: "'v handler" where
  "sys_hello s = Inr (Ret 0, s)"

definition sys_getpid2 :: "nat \<Rightarrow> 'v handler" where
  "sys_getpid2 p s = Inr (Ret (of_int (pid (proc_at s p))), s)"

definition sys_getppid :: "nat \<Rightarrow> 'v handler" where
  "sys_getppid p s =
     (case parent (proc_at s p) of
        Some q \<Rightarrow> Inr (Ret (of_int (pid (proc_at s q))), s)
      | None \<Rightarrow> Inr (Ret minus_one, s))"

definition sys_getnumchild :: "nat \<Rightarrow> 'v handler" where
  "sys_getnumchild p s = Inr (Ret (of_int (getnumchild p (sch s))), s)"

definition sys_sleep :: "nat \<Rightarrow> nat \<Rightarrow> 'v handler" where
  "sys_sleep cpu p s = rbind (argint p 0 s) (\<lambda>n. tick_wait cpu p (ticks (sch s)) n s)"

definition sys_getsyscount :: "nat \<Rightarrow> 'v handler" where
  "sys_getsyscount p s = Inr (Ret (syscount (proc_at s p)), s)"

definition sys_getchildsyscount :: "nat \<Rightarrow> 'v handler" where
  "sys_getchildsyscount p s =
     rbind (argint p 0 s)
       (\<lambda>n. case find_idx (\<lambda>x. pid x = n \<and> parent x = Some p \<and> pstate x \<noteq> UNUSED) (procs (sch s)) of
          Some i \<Rightarrow> Inr (Ret (syscount (proc_at s i)), s)
        | None \<Rightarrow> Inr (Ret minus_one, s))"

definition sys_getlevel :: "nat \<Rightarrow> 'v handler" where
  "sys_getlevel p s = Inr (Ret (of_int (plevel (proc_at s p))), s)"

text \<open>\<open>copyout\<close> of a structure to the caller, and the result of the system call.\<close>

definition put_struct :: "riscv_h \<Rightarrow> 'v bio raid swap_ops \<Rightarrow> nat \<Rightarrow> u64 \<Rightarrow> u8 list \<Rightarrow> 'v handler" where
  "put_struct h so p addr bs s =
     rbind (copyout h so (Some p) (pagetable (proc_at s p)) addr bs s)
       (\<lambda>(r, s1). if r < 0 then Inr (Ret minus_one, s1) else Inr (Ret 0, s1))"

definition sys_getmlfqinfo :: "riscv_h \<Rightarrow> 'v sys_h \<Rightarrow> 'v bio raid swap_ops \<Rightarrow> nat \<Rightarrow> 'v handler" where
  "sys_getmlfqinfo h sh so p s =
     rbind (argint p 0 s)
       (\<lambda>n. rbind (argaddr p 1 s)
          (\<lambda>addr. case find_idx (\<lambda>x. pid x = n) (procs (sch s)) of
             Some i \<Rightarrow> let x = proc_at s i
                       in put_struct h so p addr
                            (mlfqinfo_bytes sh (plevel x) (times_scheduled x) (syscount x) (map (\<lambda>k. pticks x ! k) [0..<4])) s
           | None \<Rightarrow> Inr (Ret minus_one, s)))"

definition sys_getdiskstats :: "riscv_h \<Rightarrow> 'v bio raid swap_ops \<Rightarrow> nat \<Rightarrow> 'v handler" where
  "sys_getdiskstats h so p s =
     rbind (argaddr p 0 s)
       (\<lambda>addr. let q = dq (rstore (swp s))
               in put_struct h so p addr
                    (bytes64 (disk_reads q) @ bytes64 (disk_writes q) @ bytes64 (get_avg_disk_latency q)) s)"

definition sys_setdisksched :: "nat \<Rightarrow> 'v handler" where
  "sys_setdisksched p s =
     rbind (argint p 0 s)
       (\<lambda>policy. if policy \<noteq> 0 \<and> policy \<noteq> 1 then Inr (Ret minus_one, s)
                 else Inr (Ret 0, s\<lparr>swp := (swp s)\<lparr>rstore := (rstore (swp s))\<lparr>dq := set_disk_policy policy (dq (rstore (swp s)))\<rparr>\<rparr>\<rparr>))"

definition sys_setraidmode :: "nat \<Rightarrow> 'v handler" where
  "sys_setraidmode p s =
     rbind (argint p 0 s)
       (\<lambda>mode. if mode < 0 \<or> mode > 2 then Inr (Ret minus_one, s) else Inr (Ret 0, s\<lparr>swp := set_raid_mode mode (swp s)\<rparr>))"

definition sys_getvmstats :: "riscv_h \<Rightarrow> 'v bio raid swap_ops \<Rightarrow> nat \<Rightarrow> 'v handler" where
  "sys_getvmstats h so p s =
     rbind (argint p 0 s)
       (\<lambda>n. rbind (argaddr p 1 s)
          (\<lambda>addr. case find_idx (\<lambda>x. pid x = n) (procs (sch s)) of
             Some i \<Rightarrow> let x = proc_at s i
                       in put_struct h so p addr
                            (bytes32 (page_faults x) @ bytes32 (pages_swapped_in x) @ bytes32 (pages_swapped_out x)
                             @ bytes32 (pages_evicted x) @ bytes32 (resident_pages x)) s
           | None \<Rightarrow> Inr (Ret minus_one, s)))"


section \<open>The dispatcher\<close>

text \<open>The table \<open>syscalls[]\<close>; its entry 0 is empty.\<close>

definition syscalls :: "riscv_h \<Rightarrow> 'v sys_h \<Rightarrow> 'v bio raid swap_ops \<Rightarrow> nat \<Rightarrow> nat \<Rightarrow> (int \<times> 'v handler) list" where
  "syscalls h sh so cpu p =
     [(1, sys_fork h sh so p), (2, sys_exit cpu p), (3, sys_wait h so cpu p), (4, sysfile sh 4 p), (5, sysfile sh 5 p),
      (6, sys_kill p), (7, sysfile sh 7 p), (8, sysfile sh 8 p), (9, sysfile sh 9 p), (10, sysfile sh 10 p),
      (11, sys_getpid p), (12, sys_sbrk h sh p), (13, sys_pause cpu p), (14, sys_uptime), (15, sysfile sh 15 p),
      (16, sysfile sh 16 p), (17, sysfile sh 17 p), (18, sysfile sh 18 p), (19, sysfile sh 19 p), (20, sysfile sh 20 p),
      (21, sysfile sh 21 p), (22, sys_hello), (23, sys_getpid2 p), (24, sys_getppid p), (25, sys_getnumchild p),
      (26, sys_sleep cpu p), (27, sys_getsyscount p), (28, sys_getchildsyscount p), (29, sys_getlevel p),
      (30, sys_getmlfqinfo h sh so p), (31, sys_getvmstats h so p), (32, sys_getdiskstats h so p),
      (33, sys_setdisksched p), (34, sys_setraidmode p)]"

text \<open>The result goes to \<open>a0\<close> when the handler returns; while it sleeps or after an exit nothing is stored.\<close>

definition syscall :: "riscv_h \<Rightarrow> 'v sys_h \<Rightarrow> 'v bio raid swap_ops \<Rightarrow> nat \<Rightarrow> nat \<Rightarrow> 'v handler" where
  "syscall h sh so cpu p s =
     (let s1 = on_proc (\<lambda>x. x\<lparr>syscount := syscount x + 1\<rparr>) p s;
          num = c_int (uint (tf_get p TF_a7 s1))
      in case (if num > 0 \<and> num < 35 then map_of (syscalls h sh so cpu p) num else None) of
           Some f \<Rightarrow> rbind (f s1) (\<lambda>(r, s2). case r of Ret v \<Rightarrow> Inr (r, tf_set p TF_a0 v s2) | _ \<Rightarrow> Inr (r, s2))
         | None \<Rightarrow> Inr (Ret minus_one, tf_set p TF_a0 minus_one s1))"

end
