(* ===== verification/Address_Space.thy ===== *)
theory Address_Space
  imports User_Copy
begin

text \<open>
  What \<open>uvmunmap\<close>, \<open>uvmdealloc\<close>, \<open>uvmalloc\<close> and \<open>uvmcopy\<close> of \<open>kernel/vm.c\<close> do to an address space: they change the entries
  of their range and nothing that another process sees. \<open>uvmcopy\<close> gives the child every page the parent sees.
\<close>

section \<open>Changes of one address space\<close>

definition framed :: "riscv_h \<Rightarrow> (u64 \<Rightarrow> role) \<Rightarrow> 'd vm \<Rightarrow> nat \<Rightarrow> u64 \<Rightarrow> bool" where
  "framed h own s p va \<longleftrightarrow>
     (pte_of h s p va AND PTE_V h \<noteq> 0 \<longrightarrow>
        (\<exists>pa fl. pte_of h s p va = PA2PTE h pa OR fl \<and> fl < 1024 \<and> own pa = Frame (pagetable (proc_at s p)) (path_of h va)))"

definition changed ::
  "riscv_h \<Rightarrow> ('d \<Rightarrow> nat \<Rightarrow> u8 list) \<Rightarrow> ('d \<Rightarrow> bool) \<Rightarrow> nat \<Rightarrow> u64 set \<Rightarrow> (u64 \<Rightarrow> role) \<Rightarrow> 'd vm \<Rightarrow> (u64 \<Rightarrow> role) \<Rightarrow> u64 list \<Rightarrow> 'd vm \<Rightarrow> bool" where
  "changed h slot_data rinv p E own s own' xs' s' \<longleftrightarrow>
     vm_ok h rinv own' xs' s' \<and> sch s' = sch s
   \<and> (\<forall>i. tracked (fr s') i \<longrightarrow> tracked (fr s) i \<and> fproc (frame_table (fr s') ! i) = fproc (frame_table (fr s) ! i)
        \<and> fva (frame_table (fr s') ! i) = fva (frame_table (fr s) ! i))
   \<and> (\<forall>q va. uaddr h s q va \<and> (q \<noteq> p \<or> va \<notin> E) \<longrightarrow> pte_of h s' q va = pte_of h s q va
        \<and> upage h slot_data s' q va = upage h slot_data s q va \<and> find_swap q va (fr s') = find_swap q va (fr s))
   \<and> (\<forall>a. own a \<noteq> Free \<and> (\<forall>va \<in> E. own a \<noteq> Frame (pagetable (proc_at s p)) (path_of h va)) \<longrightarrow>
        own' a = own a \<and> (own a = Kernel \<longrightarrow> pm (km s') a = pm (km s) a))"

lemma changedD:
  assumes "changed h sd rinv p E own s own' xs' s'"
  shows "vm_ok h rinv own' xs' s'" "sch s' = sch s"
    "tracked (fr s') i \<Longrightarrow> tracked (fr s) i \<and> fproc (frame_table (fr s') ! i) = fproc (frame_table (fr s) ! i)
        \<and> fva (frame_table (fr s') ! i) = fva (frame_table (fr s) ! i)"
    "uaddr h s q va \<Longrightarrow> q \<noteq> p \<or> va \<notin> E \<Longrightarrow> pte_of h s' q va = pte_of h s q va
        \<and> upage h sd s' q va = upage h sd s q va \<and> find_swap q va (fr s') = find_swap q va (fr s)"
    "own a \<noteq> Free \<Longrightarrow> (\<And>va. va \<in> E \<Longrightarrow> own a \<noteq> Frame (pagetable (proc_at s p)) (path_of h va)) \<Longrightarrow> own' a = own a"
    "own a = Kernel \<Longrightarrow> own' a = Kernel \<and> pm (km s') a = pm (km s) a"
    "uaddr h s' q va \<longleftrightarrow> uaddr h s q va"
  using assms unfolding changed_def by (blast, blast, blast, blast, blast, simp, simp add: uaddr_def)

lemma changed_refl: "vm_ok h rinv own xs s \<Longrightarrow> changed h sd rinv p E own s own xs s"
  by (simp add: changed_def)

lemma changed_trans:
  assumes a: "changed h sd rinv p E own s own1 xs1 s1" and b: "changed h sd rinv p F own1 s1 own2 xs2 s2"
  shows "changed h sd rinv p (E \<union> F) own s own2 xs2 s2"
proof -
  note u = changedD(7) [OF a] and sc = changedD(2) [OF a]
  have "own2 c = own c \<and> (own c = Kernel \<longrightarrow> pm (km s2) c = pm (km s) c)"
    if c: "own c \<noteq> Free" "\<forall>va \<in> E \<union> F. own c \<noteq> Frame (pagetable (proc_at s p)) (path_of h va)" for c
  proof -
    have 1: "own1 c = own c" using changedD(5) [OF a, of c] c by blast
    then have "own2 c = own1 c" using changedD(5) [OF b, of c] c sc by simp
    then show ?thesis using 1 changedD(6) [OF a, of c] changedD(6) [OF b, of c] by simp
  qed
  moreover have "pte_of h s2 q va = pte_of h s q va \<and> upage h sd s2 q va = upage h sd s q va \<and> find_swap q va (fr s2) = find_swap q va (fr s)"
    if "uaddr h s q va" "q \<noteq> p \<or> va \<notin> E \<union> F" for q va
    using changedD(4) [OF a that(1)] changedD(4) [OF b, of q va] that u by auto
  moreover have "tracked (fr s) i \<and> fproc (frame_table (fr s2) ! i) = fproc (frame_table (fr s) ! i)
        \<and> fva (frame_table (fr s2) ! i) = fva (frame_table (fr s) ! i)" if "tracked (fr s2) i" for i
    using changedD(3) [OF b that] changedD(3) [OF a, of i] by simp
  ultimately show ?thesis using changedD(1,2) [OF b] sc unfolding changed_def by (auto simp del: Un_iff)
qed

lemma changed_mono:
  assumes "changed h sd rinv p E own s own' xs' s'" "E \<subseteq> F"
  shows "changed h sd rinv p F own s own' xs' s'"
  using assms unfolding changed_def by blast

text \<open>The child's pages of \<open>E\<close> are the parent's.\<close>

definition copied :: "riscv_h \<Rightarrow> ('d \<Rightarrow> nat \<Rightarrow> u8 list) \<Rightarrow> nat \<Rightarrow> nat \<Rightarrow> u64 set \<Rightarrow> 'd vm \<Rightarrow> 'd vm \<Rightarrow> bool" where
  "copied h slot_data p c E s s' \<longleftrightarrow>
     (\<forall>va \<in> E. upage h slot_data s' c va = upage h slot_data s p va
        \<and> (user_pte h (pte_of h s p va) \<longrightarrow> PTE_FLAGS h (pte_of h s' c va) = PTE_FLAGS h (pte_of h s p va)))"

text \<open>No frame of the child is tracked, and it has nothing at \<open>va\<close>.\<close>

definition untouched :: "riscv_h \<Rightarrow> nat \<Rightarrow> u64 \<Rightarrow> 'd vm \<Rightarrow> bool" where
  "untouched h c va s \<longleftrightarrow> uaddr h s c va \<and> pte_of h s c va AND PTE_V h = 0 \<and> find_swap c va (fr s) = None"

definition untracked :: "nat \<Rightarrow> 'd vm \<Rightarrow> bool" where
  "untracked c s \<longleftrightarrow> (\<forall>i. tracked (fr s) i \<longrightarrow> fproc (frame_table (fr s) ! i) \<noteq> Some c)"

text \<open>The valid entries of a part of the address space map frames of this place.\<close>

definition space :: "riscv_h \<Rightarrow> nat \<Rightarrow> u64 set \<Rightarrow> (u64 \<Rightarrow> role) \<Rightarrow> 'd vm \<Rightarrow> bool" where
  "space h c E own s \<longleftrightarrow> (\<forall>va \<in> E. uaddr h s c va \<and> framed h own s c va)"

definition free_slots :: "frames \<Rightarrow> nat" where
  "free_slots f = length (filter Not (swap_used f))"

context user_paging
begin

lemma changed_one:
  assumes ok: "vm_ok h rinv own xs s" and u: "uaddr h s p va" and pt: "pt = pagetable (proc_at s p)"
    and m: "mem_ok h own' xs' m'"
    and keep: "\<And>a. own a \<noteq> Free \<Longrightarrow> own a \<noteq> Frame pt (path_of h va) \<Longrightarrow> own' a = own a"
    and pages: "\<And>a. own a = Kernel \<or> (\<exists>r pth. own a = Frame r pth) \<Longrightarrow> own a \<noteq> Frame pt (path_of h va) \<Longrightarrow> pm m' a = pm (km s) a"
    and pte: "\<And>pt' va'. own pt' = Table pt' [] \<Longrightarrow> page_aligned va' \<Longrightarrow> va' < MAXVA h \<Longrightarrow>
       pte_at h m' pt' va' = (if pt' = pt \<and> va' = va then e else pte_at h (km s) pt' va')"
    and d: "rinv d" "\<And>q va' k. find_swap q va' (fr s) = Some k \<Longrightarrow> slot_data d k = slot_data (swp s) k"
    and g: "frames_ok g" "\<And>q va'. q \<noteq> p \<or> va' \<noteq> va \<Longrightarrow> find_swap q va' g = find_swap q va' (fr s)"
      "\<And>i. tracked g i \<Longrightarrow> tracked (fr s) i \<and> fproc (frame_table g ! i) = fproc (frame_table (fr s) ! i)
         \<and> fva (frame_table g ! i) = fva (frame_table (fr s) ! i)"
    and sw: "find_swap p va g \<noteq> None \<Longrightarrow> e AND PTE_V h = 0"
    and tr: "\<And>i. tracked g i \<Longrightarrow> fproc (frame_table g ! i) = Some p \<Longrightarrow> fva (frame_table g ! i) = va \<Longrightarrow>
       e AND PTE_V h \<noteq> 0 \<Longrightarrow> e AND PTE_U h \<noteq> 0"
    and s': "s' = s\<lparr>km := m', swp := d, fr := g\<rparr>"
  shows "changed h slot_data rinv p {va} own s own' xs' s'" and "pte_of h s' p va = e"
proof -
  have p': "pte_of h s' q va' = (if q = p \<and> va' = va then e else pte_of h s q va')" if "uaddr h s q va'" for q va'
  proof -
    have "own (pagetable (proc_at s q)) = Table (pagetable (proc_at s q)) []" using vm_okD(5) [OF ok] that by (simp add: uaddr_def)
    moreover have "pagetable (proc_at s q) = pt \<longleftrightarrow> q = p" using vm_okD(6) [OF ok, of q p] that u pt by (auto simp: uaddr_def)
    ultimately show ?thesis using pte that by (simp add: s' uaddr_def)
  qed
  show pe: "pte_of h s' p va = e" using p' [OF u] by simp
  have "vm_ok h rinv own' xs' s'"
  proof (rule vm_ok_change [OF ok])
    show "same_procs (sch s) (sch s')" "mem_ok h own' xs' (km s')" "frames_ok (fr s')" "rinv (swp s')" using m g(1) d(1) by (simp_all add: s')
    show "own' a = Table a []" if "own a = Table a []" for a using keep [of a] that by simp
    show "uaddr h s q va' \<and> pte_of h s' q va' AND PTE_V h = 0" if f: "find_swap q va' (fr s') = Some k" for q va' k
    proof (cases "q = p \<and> va' = va")
      case True
      then show ?thesis using sw u pe f by (auto simp: s')
    next
      case False
      then have "find_swap q va' (fr s) = Some k" using f g(2) [of q va'] by (simp add: s')
      from vm_okD(8) [OF ok this] p' [of q va'] False show ?thesis by auto
    qed
    fix i q
    assume i: "tracked (fr s') i" "fproc (frame_table (fr s') ! i) = Some q"
    let ?a = "fva (frame_table (fr s') ! i)"
    have gi: "tracked (fr s) i" "fproc (frame_table (fr s) ! i) = Some q" "?a = fva (frame_table (fr s) ! i)"
      using i g(3) [of i] by (simp_all add: s')
    have v: "q < nproc (sch s) \<and> page_aligned ?a \<and> ?a < MAXVA h
      \<and> (uaddr h s q ?a \<longrightarrow> pte_of h s q ?a AND PTE_V h \<noteq> 0 \<longrightarrow> pte_of h s q ?a AND PTE_U h \<noteq> 0)"
      using vm_okD(7) [OF ok gi(1,2)] gi(3) by (simp add: uaddr_def)
    moreover have "uaddr h s q ?a \<longrightarrow> pte_of h s' q ?a AND PTE_V h \<noteq> 0 \<longrightarrow> pte_of h s' q ?a AND PTE_U h \<noteq> 0"
      using p' [of q ?a] v tr [of i] i by (auto simp: s')
    ultimately show "q < nproc (sch s) \<and> page_aligned ?a \<and> ?a < MAXVA h
      \<and> (uaddr h s q ?a \<longrightarrow> pte_of h s' q ?a AND PTE_V h \<noteq> 0 \<longrightarrow> pte_of h s' q ?a AND PTE_U h \<noteq> 0)" by blast
  qed
  moreover have "upage h slot_data s' q va' = upage h slot_data s q va'" if q: "uaddr h s q va'" "q \<noteq> p \<or> va' \<noteq> va" for q va'
  proof -
    have e: "pte_of h s' q va' = pte_of h s q va'" using p' [OF q(1)] q(2) by auto
    show ?thesis
    proof (cases "user_pte h (pte_of h s q va')")
      case True
      note r = user_frame_role [OF ok q(1) True]
      have "\<not> (pagetable (proc_at s q) = pt \<and> path_of h va' = path_of h va)"
        using vm_okD(6) [OF ok, of q p] path_of_inj [of va' va] q u pt by (auto simp: uaddr_def)
      then have "pm m' (PTE2PA h (pte_of h s q va')) = pm (km s) (PTE2PA h (pte_of h s q va'))" using r by (intro pages) auto
      then show ?thesis using e True by (simp add: upage_def s')
    next
      case False
      have "map_option (slot_data d) (find_swap q va' (fr s)) = map_option (slot_data (swp s)) (find_swap q va' (fr s))"
        using d(2) [of q va'] by (cases "find_swap q va' (fr s)") simp_all
      then show ?thesis using e False g(2) [OF q(2)] by (simp add: upage_def s')
    qed
  qed
  ultimately show "changed h slot_data rinv p {va} own s own' xs' s'"
    using p' g(2,3) keep pages unfolding changed_def by (auto simp: s' pt)
qed

text \<open>A free page is taken, filled, and given back.\<close>

lemma borrow_page:
  assumes ok: "mem_ok h own (x # xs) m" and pg: "length pg = page_bytes"
  shows "\<exists>m1 m'. kalloc m = (x, m1) \<and> x \<noteq> 0 \<and> pm (set_page x pg m1) x = pg \<and> kfree h x (set_page x pg m1) = Inr m'
     \<and> mem_ok h own (x # xs) m'
     \<and> (\<forall>b. b \<noteq> x \<longrightarrow> pm m' b = pm m b) \<and> (\<forall>pt va. own pt = Table pt [] \<longrightarrow> pte_at h m' pt va = pte_at h m pt va)"
proof -
  note x = kalloc_pop [OF mem_okD(1) [OF ok]]
  let ?m1 = "m\<lparr>freelist := get64 (pm m x) 0, pm := (pm m)(x := replicate page_bytes 5)\<rparr>"
  let ?m2 = "m\<lparr>freelist := get64 (pm m x) 0, pm := (pm m)(x := pg)\<rparr>"
  have e: "set_page x pg ?m1 = ?m2" by (simp add: set_page_def)
  note t = take_page [OF ok _ pg refl, of Kernel, simplified]
  have ox: "own x = Free" using mem_okD(2) [OF ok, of x] by simp
  obtain m' where m': "kfree h x ?m2 = Inr m'" "mem_ok h ((own(x := Kernel))(x := Free)) (x # xs) m'"
    "\<forall>b. b \<noteq> x \<longrightarrow> pm m' b = pm ?m2 b"
    "\<forall>pt va. (own(x := Kernel)) pt = Table pt [] \<longrightarrow> pte_at h m' pt va = pte_at h ?m2 pt va"
    using give_page [OF t(1), of x] by auto
  have "(own(x := Kernel))(x := Free) = own" using ox by auto
  then have "mem_ok h own (x # xs) m'" using m'(2) by simp
  moreover have "pte_at h m' pt va = pte_at h m pt va" if "own pt = Table pt []" for pt va
  proof -
    have "pt \<noteq> x" using that ox by auto
    then show ?thesis using m'(4) t(2) [OF that] that by simp
  qed
  moreover have "kfree h x (set_page x pg ?m1) = Inr m'" unfolding e by (rule m'(1))
  ultimately show ?thesis using x(1,3) m'(3) by (intro exI [of _ ?m1, OF exI [of _ m']]) simp
qed

lemma insert_reserved:
  assumes f: "frames_ok f" and r: "reserve_slot f = Some (k, g)"
  shows "insert_swap p va k g = (True, with_swap k p va f)" "k < MAX_SWAP_PAGES" "\<not> swap_used f ! k"
    "free_slots f \<le> free_slots (with_swap k p va f) + 1"
proof -
  have len: "length (swap_used f) = MAX_SWAP_PAGES" "length (swap_map f) = MAX_SWAP_PAGES" using f by (simp_all add: frames_ok_def)
  note k = reserve_slot_Some [OF r]
  show "k < MAX_SWAP_PAGES" "\<not> swap_used f ! k" using k len by simp_all
  have "find_idx (\<lambda>e. \<not> sused e) (swap_map f) = find_idx Not (swap_used f)"
    using f len by (intro find_idx_nth_cong) (simp_all add: frames_ok_def)
  moreover have "find_idx Not (swap_used f) = Some k" using r by (simp add: reserve_slot_def split: option.splits)
  ultimately show "insert_swap p va k g = (True, with_swap k p va f)" using k by (simp add: insert_swap_def with_swap_def)
  show "free_slots f \<le> free_slots (with_swap k p va f) + 1"
    using count_filter_update [of k "swap_used f" Not True] k by (simp add: free_slots_def with_swap_def)
qed

text \<open>
  The answer of one round of \<open>uvmcopy\<close> for the address \<open>va\<close>: the child sees the page that the parent sees, or
  nothing is mapped. A round takes at most three pages (the copy and two tables) and one swap slot.
\<close>

definition copy_answer :: "nat \<Rightarrow> nat \<Rightarrow> u64 \<Rightarrow> (u64 \<Rightarrow> role) \<Rightarrow> u64 list \<Rightarrow> 'd vm \<Rightarrow> bool \<times> 'd vm \<Rightarrow> bool" where
  "copy_answer p child va own xs s = (\<lambda>(r, s').
     \<exists>own' xs'. changed h slot_data rinv child {va} own s own' xs' s' \<and> framed h own' s' child va
       \<and> (if r then copied h slot_data p child {va} s s' \<and> length xs \<le> length xs' + 3 \<and> free_slots (fr s) \<le> free_slots (fr s') + 1
          else pte_of h s' child va AND PTE_V h = 0 \<and> (length xs \<le> 2 \<or> free_slots (fr s) = 0)))"

lemma copy_failed:
  assumes ok: "vm_ok h rinv own xs s" and c: "untouched h c va s"
    and m: "mem_ok h own' xs' m'" "\<And>a. own a \<noteq> Free \<Longrightarrow> own' a = own a"
      "\<And>a. own a = Kernel \<or> (\<exists>r pth. own a = Frame r pth) \<Longrightarrow> pm m' a = pm (km s) a"
      "\<And>pt va. own pt = Table pt [] \<Longrightarrow> pte_at h m' pt va = pte_at h (km s) pt va"
    and d: "rinv d" "\<forall>k < MAX_SWAP_PAGES. slot_data d k = slot_data (swp s) k"
    and full: "length xs \<le> 2 \<or> free_slots (fr s) = 0"
  shows "copy_answer p c va own xs s (False, s\<lparr>km := m', swp := d\<rparr>)"
proof -
  let ?s = "s\<lparr>km := m', swp := d\<rparr>"
  have u: "uaddr h s c va" and np: "pte_of h s c va AND PTE_V h = 0" and none: "find_swap c va (fr s) = None"
    using c by (simp_all add: untouched_def)
  have s': "?s = s\<lparr>km := m', swp := d, fr := fr s\<rparr>" by simp
  have dk: "slot_data d k = slot_data (swp s) k" if "find_swap q va' (fr s) = Some k" for q va' k
    using d(2) find_swap_Some [OF vm_okD(2) [OF ok]] that by auto
  have "changed h slot_data rinv c {va} own s own' xs' ?s" and "pte_of h ?s c va = pte_of h s c va"
    using np none m(4)
    by (intro changed_one [where e = "pte_of h s c va", OF ok u refl m(1) m(2) m(3) _ d(1) dk vm_okD(2) [OF ok] _ _ _ _ s']; simp)+
  then show ?thesis using np full by (auto simp: copy_answer_def copied_def framed_def)
qed

lemma swap_added:
  assumes ok: "vm_ok h rinv own xs s" and c: "untouched h c va s"
    and m: "mem_ok h own xs m'" "\<And>a. own a = Kernel \<or> (\<exists>r pth. own a = Frame r pth) \<Longrightarrow> pm m' a = pm (km s) a"
      "\<And>pt va. own pt = Table pt [] \<Longrightarrow> pte_at h m' pt va = pte_at h (km s) pt va"
    and k: "k < MAX_SWAP_PAGES" "\<not> swap_used (fr s) ! k"
    and d: "rinv d" "\<forall>j < MAX_SWAP_PAGES. slot_data d j = (if j = k then pg else slot_data (swp s) j)"
    and s': "s' = s\<lparr>km := m', swp := d, fr := with_swap k c va (fr s)\<rparr>"
  shows "changed h slot_data rinv c {va} own s own xs s'" and "pte_of h s' c va = pte_of h s c va" and "upage h slot_data s' c va = Some pg"
proof -
  have u: "uaddr h s c va" and np: "pte_of h s c va AND PTE_V h = 0" and none: "find_swap c va (fr s) = None"
    using c by (simp_all add: untouched_def)
  note f = vm_okD(2) [OF ok]
  note w = with_swap_ok [OF f k none]
  have dk: "slot_data d j = slot_data (swp s) j" if "find_swap q va' (fr s) = Some j" for q va' j
    using d(2) find_swap_Some [OF f, of q va' j] that k f by (auto simp: frames_ok_def)
  have tr: "tracked (with_swap k c va (fr s)) i = tracked (fr s) i" "frame_table (with_swap k c va (fr s)) = frame_table (fr s)" for i
    by (simp_all add: tracked_def with_swap_def)
  have "changed h slot_data rinv c {va} own s own xs s' \<and> pte_of h s' c va = pte_of h s c va"
    using np m(3) w(2) tr
    by (intro conjI changed_one [where e = "pte_of h s c va", OF ok u refl m(1) _ m(2) _ d(1) dk w(1) _ _ _ _ s']; auto)
  then show "changed h slot_data rinv c {va} own s own xs s'" and pe: "pte_of h s' c va = pte_of h s c va" by simp_all
  show "upage h slot_data s' c va = Some pg" using pe np w(2) d(2) k(1) by (simp add: upage_def user_pte_def s')
qed

lemma copy_swapped_spec:
  assumes ok: "vm_ok h rinv own xs s" and c: "untouched h c va s"
    and f: "find_swap p va (fr s) = Some j"
  shows "\<exists>v. copy_swapped h so (sslot (swap_map (fr s) ! j)) va c s = Inr v \<and> copy_answer p c va own xs s v"
proof -
  note fo = vm_okD(2) [OF ok] and mo = vm_okD(1) [OF ok]
  have j: "j < MAX_SWAP_PAGES" "sslot (swap_map (fr s) ! j) = int j" using find_swap_slot [OF fo f] by simp_all
  have np: "pte_of h s c va AND PTE_V h = 0" using c by (simp add: untouched_def)
  have up: "upage h slot_data s p va = Some (slot_data (swp s) j)" "\<not> user_pte h (pte_of h s p va)"
    using vm_okD(8) [OF ok f] f by (simp_all add: upage_def user_pte_def)
  show ?thesis
  proof (cases xs)
    case Nil
    then have "kalloc (km s) = (0, km s)" using kalloc_empty mem_okD(1) [OF mo] by simp
    moreover have "copy_answer p c va own xs s (False, s\<lparr>km := km s, swp := swp s\<rparr>)"
      using vm_okD(3) [OF ok] Nil by (intro copy_failed [OF ok c mo]) simp_all
    ultimately show ?thesis by (simp add: copy_swapped_def)
  next
    case (Cons x xs1)
    obtain d where d: "sread (int j) (swp s) = Inr (0, slot_data (swp s) j, d)" "rinv d"
      "\<forall>k < MAX_SWAP_PAGES. slot_data d k = slot_data (swp s) k"
      using sread_spec [OF vm_okD(3) [OF ok] j(1)] by blast
    have len: "length (slot_data (swp s) j) = page_bytes" using slot_length [OF vm_okD(3) [OF ok] j(1)] by (simp add: PGSIZE_def)
    obtain m1 m' where b: "kalloc (km s) = (x, m1)" "x \<noteq> 0" "pm (set_page x (slot_data (swp s) j) m1) x = slot_data (swp s) j"
      "kfree h x (set_page x (slot_data (swp s) j) m1) = Inr m'" "mem_ok h own (x # xs1) m'"
      "\<forall>b. b \<noteq> x \<longrightarrow> pm m' b = pm (km s) b" "\<forall>pt va. own pt = Table pt [] \<longrightarrow> pte_at h m' pt va = pte_at h (km s) pt va"
      using borrow_page [OF _ len] mo Cons by blast
    have ox: "own x = Free" using mem_okD(2) [OF mo, of x] Cons by simp
    have pages: "pm m' a = pm (km s) a" if "own a = Kernel \<or> (\<exists>r pth. own a = Frame r pth)" for a
    proof -
      have "a \<noteq> x" using ox that by auto
      then show ?thesis using b(6) by simp
    qed
    show ?thesis
    proof (cases "reserve_slot (fr s)")
      case None
      then have "free_slots (fr s) = 0" by (simp add: reserve_slot_def find_idx_None_iff free_slots_def filter_empty_conv split: option.splits)
      then have "copy_answer p c va own xs s (False, s\<lparr>km := m', swp := d\<rparr>)"
        using b(7) pages by (intro copy_failed [OF ok c b(5) _ _ _ d(2,3)]) simp_all
      then show ?thesis using None b(1,2,4) d(1) j(2) by (simp add: copy_swapped_def)
    next
      case (Some kg)
      obtain k g where kg: "reserve_slot (fr s) = Some (k, g)" using Some by (cases kg) simp
      note i = insert_reserved [OF fo kg]
      obtain d2 where d2: "swrite (int k) (slot_data (swp s) j) d = Inr (0, d2)" "rinv d2"
        "\<forall>m < MAX_SWAP_PAGES. slot_data d2 m = (if m = k then slot_data (swp s) j else slot_data d m)"
        using swrite_spec [OF d(2) i(2), of "slot_data (swp s) j"] len by (auto simp: PGSIZE_def)
      let ?s = "s\<lparr>km := m', swp := d2, fr := with_swap k c va (fr s)\<rparr>"
      have run: "copy_swapped h so (sslot (swap_map (fr s) ! j)) va c s = Inr (True, ?s)"
        using b(1-4) d(1) d2(1) j(2) kg i(1) by (simp add: copy_swapped_def)
      note a = swap_added [OF ok c _ pages _ i(2,3) d2(2) _ refl, of "slot_data (swp s) j"]
      have "changed h slot_data rinv c {va} own s own xs ?s" "pte_of h ?s c va = pte_of h s c va" "upage h slot_data ?s c va = Some (slot_data (swp s) j)"
        using a b(5,7) d(3) d2(3) Cons by simp_all
      then have "copy_answer p c va own xs s (True, ?s)" using up np i(4) [of c va] by (auto simp: copy_answer_def copied_def framed_def intro!: exI [of _ own] exI [of _ xs])
      with run show ?thesis by blast
    qed
  qed
qed

text \<open>An entry of a frame: its page and its flags.\<close>

lemma entry_parts:
  assumes pa: "phys_ok h pa" and fl: "fl < 1024" and v: "(PA2PTE h pa OR fl) AND PTE_V h \<noteq> 0"
  shows "PTE2PA h (PA2PTE h pa OR fl) = pa" "PTE_FLAGS h (PA2PTE h pa OR fl) = fl" "fl OR PTE_V h = fl" "user_pte h (PA2PTE h pa OR fl) \<longleftrightarrow> fl AND PTE_U h \<noteq> 0"
proof -
  have p: "page_aligned pa" "pa < 2 ^ 56" using pa ram(3) by (auto simp: phys_ok_def)
  show "PTE2PA h (PA2PTE h pa OR fl) = pa" "PTE_FLAGS h (PA2PTE h pa OR fl) = fl" using pte2pa [OF p fl] pte_flags [OF p fl] by simp_all
  show "user_pte h (PA2PTE h pa OR fl) \<longleftrightarrow> fl AND PTE_U h \<noteq> 0" using v by (simp add: user_pte_def)
  have "fl AND PTE_V h \<noteq> 0" using v by simp
  then have "fl AND 1 \<noteq> 0" by (simp add: flag_bits)
  then have "bit fl 0" by (simp add: and_one_eq bit_0 odd_iff_mod_2_eq_one)
  then have "fl OR 1 = fl" by (intro bit_word_eqI) (auto simp: bit_or_iff bit_1_iff)
  then show "fl OR PTE_V h = fl" by (simp add: flag_bits)
qed

lemma framedD:
  assumes "framed h own s p va" "pte_of h s p va AND PTE_V h \<noteq> 0"
  obtains pa fl where "pte_of h s p va = PA2PTE h pa OR fl" "fl < 1024" "own pa = Frame (pagetable (proc_at s p)) (path_of h va)"
  using assms unfolding framed_def by blast

text \<open>
  A free page \<open>x\<close> is filled and mapped at an address of \<open>c\<close> where nothing is; without pages for the tables it is given back.
\<close>

lemma new_page_mapped:
  assumes ok: "vm_ok h rinv own (x # xs1) s" and c: "untouched h c va s" "fl AND PTE_U h = 0 \<Longrightarrow> untracked c s" and pt: "pt = pagetable (proc_at s c)"
    and m2: "m2 = (km s)\<lparr>freelist := get64 (pm (km s) x) 0, pm := (pm (km s))(x := pg)\<rparr>" and own1: "own1 = own(x := Frame pt (path_of h va))"
    and t: "\<And>pt va. own pt = Table pt [] \<Longrightarrow> pte_at h m2 pt va = pte_at h (km s) pt va"
    and m: "mapped h own1 xs1 m2 own2 xs2 m3 pt va (PA2PTE h x OR fl OR PTE_V h)"
  shows "changed h slot_data rinv c {va} own s own2 xs2 (s\<lparr>km := m3\<rparr>)" "pte_of h (s\<lparr>km := m3\<rparr>) c va = PA2PTE h x OR fl OR PTE_V h"
    "own2 x = Frame pt (path_of h va)" "pm m3 x = pg"
proof -
  let ?s = "s\<lparr>km := m3\<rparr>" and ?e = "PA2PTE h x OR fl OR PTE_V h"
  have u: "uaddr h s c va" and none: "find_swap c va (fr s) = None" using c(1) by (simp_all add: untouched_def)
  have ox: "own x = Free" using mem_okD(2) [OF vm_okD(1) [OF ok], of x] by simp
  have mo: "mem_ok h own2 xs2 m3" using m by (simp add: mapped_def)
  have keep: "own2 a = own a" if "own a \<noteq> Free" for a
  proof -
    have "own1 a = own a" using that ox by (auto simp: own1)
    then show ?thesis using m that by (simp add: mapped_def)
  qed
  have pages: "pm m3 a = pm (km s) a" if "own a = Kernel \<or> (\<exists>r pth. own a = Frame r pth)" for a
  proof -
    have "a \<noteq> x" using ox that by auto
    then have "pm m3 a = pm m2 a" using m that by (auto simp: mapped_def own1)
    then show ?thesis using \<open>a \<noteq> x\<close> by (simp add: m2)
  qed
  have pte: "pte_at h m3 pt' va' = (if pt' = pagetable (proc_at s c) \<and> va' = va then ?e else pte_at h (km s) pt' va')"
    if "own pt' = Table pt' []" "page_aligned va'" "va' < MAXVA h" for pt' va'
  proof -
    have "own1 pt' = Table pt' []" using that ox by (auto simp: own1)
    then show ?thesis using m that t [OF that(1), of va'] pt by (simp add: mapped_def)
  qed
  have tr: "?e AND PTE_U h \<noteq> 0" if "tracked (fr s) i" "fproc (frame_table (fr s) ! i) = Some c" for i
    using that c(2) new_pte_flags(2) [of x fl] by (cases "fl AND PTE_U h = 0") (auto simp: untracked_def)
  have s': "?s = s\<lparr>km := m3, swp := swp s, fr := fr s\<rparr>" by simp
  show "changed h slot_data rinv c {va} own s own2 xs2 ?s" "pte_of h ?s c va = ?e"
    using vm_okD(2,3) [OF ok] none
    by (intro changed_one [OF ok u refl mo keep pages pte _ _ _ _ _ _ tr s']; simp)+
  show "own2 x = Frame pt (path_of h va)" "pm m3 x = pg" using m by (simp_all add: mapped_def own1) (simp add: m2)
qed

lemma map_new_page:
  assumes ok: "vm_ok h rinv own (x # xs1) s" and c: "untouched h c va s" "fl AND PTE_U h = 0 \<Longrightarrow> untracked c s" and fl: "fl < 1024"
    and pg: "length pg = page_bytes" and pt: "pt = pagetable (proc_at s c)"
    and m2: "m2 = (km s)\<lparr>freelist := get64 (pm (km s) x) 0, pm := (pm (km s))(x := pg)\<rparr>"
  shows "(\<exists>m3 m4 own' xs'. mappages h pt va 4096 x fl m2 = Inr (-1, m3) \<and> kfree h x m3 = Inr m4 \<and> length xs1 < 2
        \<and> mem_ok h own' xs' m4 \<and> (\<forall>a. own a \<noteq> Free \<longrightarrow> own' a = own a)
        \<and> (\<forall>a. own a = Kernel \<or> (\<exists>r pth. own a = Frame r pth) \<longrightarrow> pm m4 a = pm (km s) a)
        \<and> (\<forall>pt va. own pt = Table pt [] \<longrightarrow> pte_at h m4 pt va = pte_at h (km s) pt va))
     \<or> (\<exists>m3 own' xs'. mappages h pt va 4096 x fl m2 = Inr (0, m3) \<and> length xs1 \<le> length xs' + 2
        \<and> changed h slot_data rinv c {va} own s own' xs' (s\<lparr>km := m3\<rparr>) \<and> pte_of h (s\<lparr>km := m3\<rparr>) c va = PA2PTE h x OR fl OR PTE_V h
        \<and> own' x = Frame pt (path_of h va) \<and> pm m3 x = pg)"
proof -
  note mo = vm_okD(1) [OF ok]
  note x = kalloc_pop [OF mem_okD(1) [OF mo]]
  have ox: "own x = Free" using mem_okD(2) [OF mo, of x] by simp
  define own1 where "own1 = own(x := Frame pt (path_of h va))"
  have t: "mem_ok h own1 xs1 m2" "\<And>pt va. own pt = Table pt [] \<Longrightarrow> pte_at h m2 pt va = pte_at h (km s) pt va"
    using take_page [OF mo _ pg m2, of "Frame pt (path_of h va)"] by (simp_all add: own1_def)
  have u: "uaddr h s c va" and np: "pte_of h s c va AND PTE_V h = 0" using c(1) by (simp_all add: untouched_def)
  then have va: "page_aligned va" "va < MAXVA h" and root: "own pt = Table pt []" using vm_okD(5) [OF ok] pt by (simp_all add: uaddr_def)
  then have root1: "own1 pt = Table pt []" using ox by (auto simp: own1_def)
  have np2: "pte_at h m2 pt va AND PTE_V h = 0" using t(2) [OF root] np pt by simp
  have xx: "page_aligned x" "x < 2 ^ 56" using x(4) ram(3) by (auto simp: phys_ok_def)
  have fx: "own1 x = Frame pt (path_of h va)" by (simp add: own1_def)
  from map_page [OF t(1) root1 va np2 xx fl] fx consider
    (fail) own2 xs2 m3 where "mappages h pt va 4096 x fl m2 = Inr (-1, m3)" "grown h own1 xs1 m2 own2 xs2 m3" "length xs1 < 2"
    | (mp) own2 xs2 m3 where "mappages h pt va 4096 x fl m2 = Inr (0, m3)" "length xs1 \<le> length xs2 + 2"
        "mapped h own1 xs1 m2 own2 xs2 m3 pt va (PA2PTE h x OR fl OR PTE_V h)"
    by blast
  then show ?thesis
  proof cases
    case fail
    have g: "mem_ok h own2 xs2 m3" "own2 x = Frame pt (path_of h va)" "pte_at h m3 pt va AND PTE_V h = 0"
      using fail(2) fx root1 np2 by (simp_all add: grown_def)
    have "\<not> user_pte h (pte_at h m3 pt va)" using g(3) by (simp add: user_pte_def)
    note un = unmapped_unref [OF g(1) this g(2)]
    obtain m4 where m4: "kfree h x m3 = Inr m4" "mem_ok h (own2(x := Free)) (x # xs2) m4" "\<forall>b. b \<noteq> x \<longrightarrow> pm m4 b = pm m3 b"
      "\<forall>pt va. own2 pt = Table pt [] \<longrightarrow> pte_at h m4 pt va = pte_at h m3 pt va"
      using give_page [OF g(1), of x] g(2) un by blast
    have keep: "(own2(x := Free)) a = own a" if "own a \<noteq> Free" for a using that ox fail(2) by (auto simp: grown_def own1_def)
    have pages: "pm m4 a = pm (km s) a" if a: "own a = Kernel \<or> (\<exists>r pth. own a = Frame r pth)" for a
    proof -
      have ax: "a \<noteq> x" using ox a by auto
      then have "pm m3 a = pm m2 a" using fail(2) a by (auto simp: grown_def own1_def)
      then show ?thesis using m4(3) ax by (simp add: m2)
    qed
    have pt4: "pte_at h m4 pt' va' = pte_at h (km s) pt' va'" if "own pt' = Table pt' []" for pt' va'
    proof -
      have "own1 pt' = Table pt' []" using that ox by (auto simp: own1_def)
      moreover from this have "own2 pt' = Table pt' []" using fail(2) by (simp add: grown_def)
      ultimately show ?thesis using m4(4) fail(2) t(2) [OF that] by (simp add: grown_def)
    qed
    show ?thesis using fail(1,3) m4(1,2) keep pages pt4 by blast
  next
    case mp
    from new_page_mapped [OF ok c pt m2 own1_def t(2) mp(3)] mp(1,2) show ?thesis by blast
  qed
qed

lemma copy_resident_spec:
  assumes ok: "vm_ok h rinv own xs s" and c: "untouched h c va s" "untracked c s"
    and v: "pte_of h s p va AND PTE_V h \<noteq> 0" and f: "framed h own s p va"
  shows "\<exists>w. copy_resident h (pagetable (proc_at s c)) va (pte_of h s p va) s = Inr w \<and> copy_answer p c va own xs s w"
proof (cases xs)
  case Nil
  note mo = vm_okD(1) [OF ok]
  have "kalloc (km s) = (0, km s)" using kalloc_empty mem_okD(1) [OF mo] Nil by simp
  moreover have "copy_answer p c va own xs s (False, s\<lparr>km := km s, swp := swp s\<rparr>)"
    using vm_okD(3) [OF ok] Nil by (intro copy_failed [OF ok c(1) mo]) simp_all
  ultimately show ?thesis by (simp add: copy_resident_def)
next
  case (Cons x xs1)
  let ?pt = "pagetable (proc_at s c)"
  note ok' = ok [unfolded Cons]
  note mo = vm_okD(1) [OF ok']
  obtain pa fl where e: "pte_of h s p va = PA2PTE h pa OR fl" "fl < 1024" "own pa = Frame (pagetable (proc_at s p)) (path_of h va)"
    using framedD [OF f v] .
  have pa: "phys_ok h pa" "length (pm (km s) pa) = page_bytes" using mem_okD(3,4) [OF mo, of pa] e(3) by simp_all
  note x = kalloc_pop [OF mem_okD(1) [OF mo]]
  have ox: "own x = Free" using mem_okD(2) [OF mo, of x] by simp
  have pax: "pa \<noteq> x" using ox e(3) by auto
  have v': "(PA2PTE h x OR fl) AND PTE_V h \<noteq> 0" using v e(1) by simp
  note parts = entry_parts [OF pa(1) e(2) v [unfolded e(1)]] and parts' = entry_parts [OF x(4) e(2) v']
  define m2 where "m2 = (km s)\<lparr>freelist := get64 (pm (km s) x) 0, pm := (pm (km s))(x := pm (km s) pa)\<rparr>"
  have run: "copy_resident h ?pt va (pte_of h s p va) s
     = rbind (mappages h ?pt va 4096 x fl m2)
                (\<lambda>(r, m3). if r \<noteq> 0 then rbind (kfree h x m3) (\<lambda>m4. Inr (False, s\<lparr>km := m4\<rparr>)) else Inr (True, s\<lparr>km := m3\<rparr>))"
    using x(1,3) e(1) parts pax by (simp add: copy_resident_def set_page_def m2_def)
  from map_new_page [OF ok' c(1) _ e(2) pa(2) refl m2_def] c(2) consider
    (fail) m3 m4 own' xs' where "mappages h ?pt va 4096 x fl m2 = Inr (-1, m3)" "kfree h x m3 = Inr m4" "length xs1 < 2"
        "mem_ok h own' xs' m4" "\<forall>a. own a \<noteq> Free \<longrightarrow> own' a = own a" "\<forall>a. own a = Kernel \<or> (\<exists>r pth. own a = Frame r pth) \<longrightarrow> pm m4 a = pm (km s) a"
        "\<forall>pt va. own pt = Table pt [] \<longrightarrow> pte_at h m4 pt va = pte_at h (km s) pt va"
    | (mp) m3 own' xs' where "mappages h ?pt va 4096 x fl m2 = Inr (0, m3)" "length xs1 \<le> length xs' + 2"
        "changed h slot_data rinv c {va} own s own' xs' (s\<lparr>km := m3\<rparr>)" "pte_of h (s\<lparr>km := m3\<rparr>) c va = PA2PTE h x OR fl OR PTE_V h"
        "own' x = Frame ?pt (path_of h va)" "pm m3 x = pm (km s) pa"
    by blast
  then show ?thesis
  proof cases
    case fail
    have "copy_answer p c va own xs s (False, s\<lparr>km := m4, swp := swp s\<rparr>)"
      using vm_okD(3) [OF ok] fail(3,5,7) Cons fail(6) [rule_format] by (intro copy_failed [OF ok c(1) fail(4)]) simp_all
    then show ?thesis using run fail(1,2) by simp
  next
    case mp
    let ?s = "s\<lparr>km := m3\<rparr>"
    have pe: "pte_of h ?s c va = PA2PTE h x OR fl" using mp(4) parts(3) by simp
    have none: "find_swap c va (fr s) = None" using c(1) by (simp add: untouched_def)
    have "upage h slot_data ?s c va = upage h slot_data s p va"
    proof (cases "fl AND PTE_U h = 0")
      case True
      have "find_swap p va (fr s) = None" using vm_okD(8) [OF ok, of p va] v by (cases "find_swap p va (fr s)") auto
      then show ?thesis using True pe e(1) none parts parts' by (simp add: upage_def)
    next
      case False
      then show ?thesis using pe e(1) parts parts' mp(6) by (simp add: upage_def)
    qed
    then have "copy_answer p c va own xs s (True, ?s)"
      using pe mp(2,3,5) e parts parts' Cons unfolding copy_answer_def copied_def framed_def prod.case
      by (intro exI [of _ own'] exI [of _ xs']) auto
    then show ?thesis using run mp(1) by simp
  qed
qed

lemma copy_page_spec:
  assumes ok: "vm_ok h rinv own xs s" and c: "untouched h c va s" "untracked c s" and p: "uaddr h s p va" and f: "framed h own s p va"
  shows "\<exists>w. copy_page h so (Some p) (pagetable (proc_at s p)) (pagetable (proc_at s c)) c va s = Inr w \<and> copy_answer p c va own xs s w"
proof (cases "pte_of h s p va AND PTE_V h = 0")
  case False
  then have "copy_page h so (Some p) (pagetable (proc_at s p)) (pagetable (proc_at s c)) c va s
      = copy_resident h (pagetable (proc_at s c)) va (pte_of h s p va) s"
    using p by (auto simp: copy_page_def walk_noalloc uaddr_def pte_at_def split: option.splits)
  then show ?thesis using copy_resident_spec [OF ok c False f] by simp
next
  case True
  then have run: "copy_page h so (Some p) (pagetable (proc_at s p)) (pagetable (proc_at s c)) c va s
      = (case find_swap p va (fr s) of Some k \<Rightarrow> copy_swapped h so (sslot (swap_map (fr s) ! k)) va c s | None \<Rightarrow> Inr (True, s))"
    using p by (auto simp: copy_page_def walk_noalloc uaddr_def pte_at_def split: option.splits)
  show ?thesis
  proof (cases "find_swap p va (fr s)")
    case (Some k)
    then show ?thesis using run copy_swapped_spec [OF ok c(1) Some] by simp
  next
    case None
    have "upage h slot_data s c va = upage h slot_data s p va" "framed h own s c va"
      using c(1) True None by (simp_all add: upage_def user_pte_def untouched_def framed_def)
    moreover have "changed h slot_data rinv c {va} own s own xs s" by (rule changed_refl [OF ok])
    ultimately have "copy_answer p c va own xs s (True, s)" using True by (auto simp: copy_answer_def copied_def user_pte_def intro!: exI [of _ own] exI [of _ xs])
    then show ?thesis using run None by simp
  qed
qed

end


section \<open>Unmapping\<close>

lemma kfree_set_pte:
  assumes "fst q \<noteq> pa"
  shows "kfree h pa (set_pte q e m) = rbind (kfree h pa m) (\<lambda>m'. Inr (set_pte q e m'))"
  using assms by (cases q) (simp add: kfree_def set_pte_def set_page_def panic_if_def Let_def fun_upd_twist)

lemma drop_frame_swap: "swap_map (drop_frame p va f) = swap_map f" "swap_used (drop_frame p va f) = swap_used f"
  by (simp_all add: drop_frame_def dec_frame_count_def upd_frame_def split: option.split)

lemma vm_twist: "s\<lparr>fr := f, km := m\<rparr> = s\<lparr>km := m, fr := f\<rparr>"
  by (cases s) simp

definition swap_dropped :: "nat option \<Rightarrow> u64 \<Rightarrow> frames \<Rightarrow> frames" where
  "swap_dropped who va f =
     (case who of None \<Rightarrow> f | Some i \<Rightarrow> (case find_swap i va f of Some k \<Rightarrow> release_swap k f | None \<Rightarrow> f))"

lemma swap_dropped_ok:
  assumes f: "frames_ok f" and who: "who = None \<or> who = Some c"
  shows "frames_ok (swap_dropped who va f)" "frame_table (swap_dropped who va f) = frame_table f"
    "find_swap q va' (swap_dropped who va f) = (if who = Some c \<and> q = c \<and> va' = va then None else find_swap q va' f)"
proof -
  have "frames_ok (swap_dropped who va f) \<and> frame_table (swap_dropped who va f) = frame_table f
     \<and> find_swap q va' (swap_dropped who va f) = (if who = Some c \<and> q = c \<and> va' = va then None else find_swap q va' f)"
  proof (cases "who = Some c \<and> find_swap c va f \<noteq> None")
    case True
    then obtain k where k: "find_swap c va f = Some k" by auto
    note ks = find_swap_Some [OF f, THEN iffD1, OF k]
    have "find_swap q va' f = Some k \<longleftrightarrow> q = c \<and> va' = va" using find_swap_Some [OF f, of q va' k] ks by auto
    moreover have "swap_dropped who va f = release_swap k f" using True k by (simp add: swap_dropped_def)
    ultimately show ?thesis using release_swap_ok(1) [OF f, of k] release_swap_ok(3) [OF f, of k q va'] ks True by (auto simp: release_swap_def)
  next
    case False
    then show ?thesis using who f by (auto simp: swap_dropped_def split: option.splits)
  qed
  then show "frames_ok (swap_dropped who va f)" "frame_table (swap_dropped who va f) = frame_table f"
    "find_swap q va' (swap_dropped who va f) = (if who = Some c \<and> q = c \<and> va' = va then None else find_swap q va' f)" by simp_all
qed

context user_paging
begin

text \<open>The entry of a frame is cleared and the frame freed, in the order of \<open>uvmunmap\<close>.\<close>

lemma unmap_frame:
  assumes ok: "mem_ok h own xs m" and pt: "own pt = Table pt []" and q: "leaf_slot h m pt va = Some q"
    and va: "page_aligned va" "va < MAXVA h" and fr: "own pa = Frame pt (path_of h va)"
  shows "\<exists>m1. kfree h pa m = Inr m1 \<and> mem_ok h (own(pa := Free)) (pa # xs) (set_pte q 0 m1)
       \<and> (\<forall>pt' va'. own pt' = Table pt' [] \<and> page_aligned va' \<and> va' < MAXVA h \<longrightarrow>
            pte_at h (set_pte q 0 m1) pt' va' = (if pt' = pt \<and> va' = va then 0 else pte_at h m pt' va'))
       \<and> (\<forall>b. (\<forall>r p. own b \<noteq> Table r p) \<and> b \<noteq> pa \<longrightarrow> pm (set_pte q 0 m1) b = pm m b)"
proof -
  note o = leaf_slot_owner [OF ok pt q]
  note sl = set_leaf [OF ok pt q _ va, of 0]
  have e0: "mem_ok h own xs (set_pte q 0 m)" by (rule sl(1)) simp
  have keep: "pm (set_pte q 0 m) b = pm m b" if "\<forall>r p. own b \<noteq> Table r p" for b
    using o(1) that by (intro set_pte_sel(2)) auto
  have "pte_val (set_pte q 0 m) (b, i) AND PTE_V h = 0"
    if b: "own b = Table r p" and f: "own pa = Frame r (p @ [i])" and i: "i < 512" for b r p i
  proof -
    from f fr have "r = pt" "p = [PX h 2 va, PX h 1 va]" "i = PX h 0 va" by (auto simp: path_of_def)
    with b o have "b = fst q" "i = snd q" using table_unique [OF ok] by auto
    then show ?thesis using pte_val_set_pte [of m "fst q" i i 0 b] mem_okD(4) [OF ok, of b] b i by simp
  qed
  then obtain m' where m': "kfree h pa (set_pte q 0 m) = Inr m'" "mem_ok h (own(pa := Free)) (pa # xs) m'"
    "\<forall>b. b \<noteq> pa \<longrightarrow> pm m' b = pm (set_pte q 0 m) b"
    "\<forall>pt va. own pt = Table pt [] \<longrightarrow> pte_at h m' pt va = pte_at h (set_pte q 0 m) pt va"
    using give_page [OF e0, of pa] fr by blast
  have "fst q \<noteq> pa" using o(1) fr by auto
  from m'(1) [unfolded kfree_set_pte [OF this]] obtain m1 where m1: "kfree h pa m = Inr m1" "m' = set_pte q 0 m1"
    by (auto elim: rbind_InrE)
  have "pte_at h m' pt' va' = (if pt' = pt \<and> va' = va then 0 else pte_at h m pt' va')"
    if "own pt' = Table pt' []" "page_aligned va'" "va' < MAXVA h" for pt' va'
    using m'(4) that sl(3) [OF _ that] by simp
  moreover have "pm m' b = pm m b" if "\<forall>r p. own b \<noteq> Table r p" "b \<noteq> pa" for b using m'(3) keep [OF that(1)] that(2) by simp
  ultimately show ?thesis using m1 m'(2) by blast
qed

text \<open>The answer of a round of \<open>uvmunmap\<close> for the address \<open>va\<close>.\<close>

definition unmap_answer :: "nat option \<Rightarrow> nat \<Rightarrow> u64 \<Rightarrow> (u64 \<Rightarrow> role) \<Rightarrow> 'd vm \<Rightarrow> 'd vm \<Rightarrow> bool" where
  "unmap_answer who c va own s s' \<longleftrightarrow>
     (\<exists>own' xs'. changed h slot_data rinv c {va} own s own' xs' s' \<and> pte_of h s' c va AND PTE_V h = 0
        \<and> find_swap c va (fr s') = (if who = Some c then None else find_swap c va (fr s)))"

lemma unmap_change:
  assumes ok: "vm_ok h rinv own xs s" and u: "uaddr h s c va" and who: "who = None \<or> who = Some c"
    and m: "mem_ok h own' xs' m'" "\<And>a. own a \<noteq> Free \<Longrightarrow> own a \<noteq> Frame (pagetable (proc_at s c)) (path_of h va) \<Longrightarrow> own' a = own a"
      "\<And>a. own a = Kernel \<or> (\<exists>r pth. own a = Frame r pth) \<Longrightarrow> own a \<noteq> Frame (pagetable (proc_at s c)) (path_of h va) \<Longrightarrow> pm m' a = pm (km s) a"
      "\<And>pt' va'. own pt' = Table pt' [] \<Longrightarrow> page_aligned va' \<Longrightarrow> va' < MAXVA h \<Longrightarrow>
         pte_at h m' pt' va' = (if pt' = pagetable (proc_at s c) \<and> va' = va then e else pte_at h (km s) pt' va')"
    and e: "e AND PTE_V h = 0" and g: "g = swap_dropped who va (fr s) \<or> g = drop_frame who va (swap_dropped who va (fr s))"
  shows "unmap_answer who c va own s (s\<lparr>km := m', fr := g\<rparr>)"
proof -
  note f = vm_okD(2) [OF ok]
  note sd = swap_dropped_ok [OF f who, where va = va]
  have fs: "find_swap q va' g = (if who = Some c \<and> q = c \<and> va' = va then None else find_swap q va' (fr s))" for q va'
    using g sd(3) find_swap_same [OF drop_frame_swap(1)] by metis
  have fo: "frames_ok g" using g sd(1) drop_frame_ok(1) [OF sd(1)] by auto
  have tr: "tracked (fr s) i \<and> fproc (frame_table g ! i) = fproc (frame_table (fr s) ! i) \<and> fva (frame_table g ! i) = fva (frame_table (fr s) ! i)"
    if "tracked g i" for i
    using g drop_frame_ok(3) [OF sd(1), of who va i] that sd(2) by (auto simp: tracked_def)
  have s': "s\<lparr>km := m', fr := g\<rparr> = s\<lparr>km := m', swp := swp s, fr := g\<rparr>" by simp
  have "changed h slot_data rinv c {va} own s own' xs' (s\<lparr>km := m', fr := g\<rparr>) \<and> pte_of h (s\<lparr>km := m', fr := g\<rparr>) c va = e"
    using vm_okD(3) [OF ok] e fs
    by (intro conjI changed_one [OF ok u refl m(1) m(2) m(3) m(4) _ _ fo _ tr _ _ s']; auto)
  then show ?thesis using e fs unfolding unmap_answer_def by auto
qed

lemma unmap_page_spec:
  assumes ok: "vm_ok h rinv own xs s" and u: "uaddr h s c va" and who: "who = None \<or> who = Some c" and f: "framed h own s c va"
  shows "\<exists>s'. unmap_page h who (pagetable (proc_at s c)) True va s = Inr s' \<and> unmap_answer who c va own s s'"
proof -
  let ?pt = "pagetable (proc_at s c)" and ?g = "swap_dropped who va (fr s)"
  have va: "page_aligned va" "va < MAXVA h" and root: "own ?pt = Table ?pt []" using u vm_okD(5) [OF ok] by (simp_all add: uaddr_def)
  note mo = vm_okD(1) [OF ok]
  have s1: "(case who of Some i \<Rightarrow> if True then (case find_swap i va (fr s) of Some k \<Rightarrow> s\<lparr>fr := release_swap k (fr s)\<rparr> | None \<Rightarrow> s) else s | None \<Rightarrow> s)
      = s\<lparr>fr := ?g\<rparr>"
    by (simp add: swap_dropped_def split: option.split)
  have run: "unmap_page h who ?pt True va s = (case leaf_slot h (km s) ?pt va of
        None \<Rightarrow> Inr (s\<lparr>fr := ?g\<rparr>)
      | Some q \<Rightarrow> if pte_val (km s) q AND PTE_V h = 0 then Inr (s\<lparr>km := set_pte q 0 (km s), fr := ?g\<rparr>)
                  else rbind (kfree h (PTE2PA h (pte_val (km s) q)) (km s))
                         (\<lambda>m. Inr (s\<lparr>km := set_pte q 0 m, fr := drop_frame who va ?g\<rparr>)))"
    unfolding unmap_page_def s1 Let_def using va(2)
    by (simp add: walk_noalloc rbind_assoc vm_twist split: option.split cong: option.case_cong)
  show ?thesis
  proof (cases "leaf_slot h (km s) ?pt va")
    case None
    then have "pte_at h (km s) ?pt va = 0" by (simp add: pte_at_def)
    then have "unmap_answer who c va own s (s\<lparr>km := km s, fr := ?g\<rparr>)"
      by (intro unmap_change [where e = 0, OF ok u who mo]) simp_all
    then show ?thesis using run None by simp
  next
    case (Some q)
    have eq: "pte_at h (km s) ?pt va = pte_val (km s) q" using Some by (simp add: pte_at_def)
    show ?thesis
    proof (cases "pte_val (km s) q AND PTE_V h = 0")
      case True
      note sl = set_leaf [OF mo root Some _ va, of 0]
      have "pm (set_pte q 0 (km s)) a = pm (km s) a" if "own a = Kernel \<or> (\<exists>r pth. own a = Frame r pth)" for a
        using leaf_slot_owner(1) [OF mo root Some] that by (intro set_pte_sel(2)) auto
      then have "unmap_answer who c va own s (s\<lparr>km := set_pte q 0 (km s), fr := ?g\<rparr>)"
        using sl by (intro unmap_change [where e = 0, OF ok u who]) simp_all
      then show ?thesis using run Some True by simp
    next
      case False
      then obtain pa fl where e: "pte_of h s c va = PA2PTE h pa OR fl" "fl < 1024" "own pa = Frame ?pt (path_of h va)"
        using framedD [OF f] eq by metis
      have pa: "phys_ok h pa" using mem_okD(3) [OF mo] e(3) by simp
      have qe: "pte_val (km s) q = PA2PTE h pa OR fl" using eq e(1) by simp
      have p2: "PTE2PA h (pte_val (km s) q) = pa" using entry_parts(1) [OF pa e(2)] False unfolding qe by blast
      obtain m1 where m1: "kfree h pa (km s) = Inr m1" "mem_ok h (own(pa := Free)) (pa # xs) (set_pte q 0 m1)"
        "\<forall>pt' va'. own pt' = Table pt' [] \<and> page_aligned va' \<and> va' < MAXVA h \<longrightarrow>
            pte_at h (set_pte q 0 m1) pt' va' = (if pt' = ?pt \<and> va' = va then 0 else pte_at h (km s) pt' va')"
        "\<forall>b. (\<forall>r p. own b \<noteq> Table r p) \<and> b \<noteq> pa \<longrightarrow> pm (set_pte q 0 m1) b = pm (km s) b"
        using unmap_frame [OF mo root Some va e(3)] by blast
      have pages: "pm (set_pte q 0 m1) a = pm (km s) a"
        if "own a = Kernel \<or> (\<exists>r pth. own a = Frame r pth)" "own a \<noteq> Frame ?pt (path_of h va)" for a
      proof -
        have "a \<noteq> pa" "\<forall>r p. own a \<noteq> Table r p" using that e(3) by auto
        then show ?thesis using m1(4) by simp
      qed
      have "unmap_answer who c va own s (s\<lparr>km := set_pte q 0 m1, fr := drop_frame who va ?g\<rparr>)"
        using m1(3) e(3) by (intro unmap_change [where e = 0, OF ok u who m1(2) _ pages]) auto
      then show ?thesis using run Some False p2 m1(1) by simp
    qed
  qed
qed

end

text \<open>Ranges of pages.\<close>

definition pages_in :: "u64 \<Rightarrow> u64 \<Rightarrow> u64 set" where
  "pages_in a e = {va. page_aligned va \<and> a \<le> va \<and> va < e}"

lemma page_after:
  assumes "page_aligned a" "page_aligned (b::u64)" "a < b" "a \<le> 2 ^ 56"
  shows "a + 4096 \<le> b"
proof -
  obtain i j where ij: "unat a = 4096 * i" "unat b = 4096 * j" using assms(1,2) unfolding page_aligned_unat dvd_def by blast
  have "i < j" using assms(3) ij by (simp add: word_less_nat_alt)
  then have "unat a + 4096 \<le> unat b" using ij by simp
  then show ?thesis using unat_next_page [OF assms(4)] by (simp add: word_le_nat_alt)
qed

lemma pages_in_step:
  assumes "page_aligned a" "a < e" "e \<le> 2 ^ 56"
  shows "pages_in a e = insert a (pages_in (a + 4096) e)" and "a \<notin> pages_in (a + 4096) e"
proof -
  have a: "a \<le> 2 ^ 56" using assms by simp
  have n: "unat (a + 4096) = unat a + 4096" by (rule unat_next_page [OF a])
  show "a \<notin> pages_in (a + 4096) e" using n by (simp add: pages_in_def word_le_nat_alt)
  have "va = a \<or> a + 4096 \<le> va" if "page_aligned va" "a \<le> va" for va
    using page_after [OF assms(1) that(1) _ a] that(2) by (cases "va = a") simp_all
  moreover have "a \<le> va" if "a + 4096 \<le> va" for va using that n by (simp add: word_le_nat_alt)
  ultimately show "pages_in a e = insert a (pages_in (a + 4096) e)" using assms by (auto simp: pages_in_def)
qed

lemma pages_in_next:
  assumes "page_aligned i" "i \<le> 2 ^ 56"
  shows "pages_in 0 (i + 4096) = insert i (pages_in 0 i)"
proof -
  have n: "unat (i + 4096) = unat i + 4096" by (rule unat_next_page [OF assms(2)])
  have "va < i + 4096 \<longleftrightarrow> va = i \<or> va < i" if "page_aligned va" for va
  proof (cases "i < va")
    case True
    then show ?thesis using page_after [OF assms(1) that True assms(2)] by auto
  next
    case False
    then show ?thesis using n by (auto simp: word_less_nat_alt word_unat_eq_iff)
  qed
  then show ?thesis using assms(1) by (auto simp: pages_in_def)
qed

lemma pages_in_empty: "\<not> a < e \<Longrightarrow> pages_in a e = {}"
  by (auto simp: pages_in_def)

lemma pages_in_split:
  assumes "page_aligned i" "i \<le> e" "e \<le> 2 ^ 56"
  shows "pages_in 0 e = pages_in 0 i \<union> pages_in i e"
  using assms by (auto simp: pages_in_def not_le)

context user_paging
begin

lemma changed_space:
  assumes "changed h slot_data rinv c E own s own' xs' s'" "space h p F own s" "p = c \<Longrightarrow> E \<inter> F = {}" "vm_ok h rinv own xs s" "\<forall>va \<in> E. uaddr h s c va"
  shows "space h p F own' s'"
  unfolding space_def
proof
  fix va
  assume va: "va \<in> F"
  then have u: "uaddr h s p va" and f: "framed h own s p va" and ne: "p \<noteq> c \<or> va \<notin> E" using assms(2,3) by (auto simp: space_def)
  have e: "pte_of h s' p va = pte_of h s p va" "sch s' = sch s" using changedD(4) [OF assms(1) u ne] changedD(2) [OF assms(1)] by simp_all
  have "own' pa = own pa" if pa: "own pa = Frame (pagetable (proc_at s p)) (path_of h va)" for pa
  proof (rule changedD(5) [OF assms(1)])
    show "own pa \<noteq> Frame (pagetable (proc_at s c)) (path_of h va')" if "va' \<in> E" for va'
    proof
      assume "own pa = Frame (pagetable (proc_at s c)) (path_of h va')"
      then have "pagetable (proc_at s p) = pagetable (proc_at s c)" "path_of h va = path_of h va'" using pa by simp_all
      then have "p = c" "va = va'"
        using vm_okD(6) [OF assms(4), of p c] path_of_inj [of va va'] u that assms(5) by (auto simp: uaddr_def)
      then show False using ne that by simp
    qed
  qed (simp add: pa)
  then show "uaddr h s' p va \<and> framed h own' s' p va"
    using u f e changedD(7) [OF assms(1)] by (auto simp: framed_def)
qed

lemma unmap_loop_spec:
  assumes "vm_ok h rinv own xs s" "space h c (pages_in a e) own s" "page_aligned a" "e \<le> MAXVA h" "who = None \<or> who = Some c"
    "unat e \<le> unat a + 4096 * n"
  shows "\<exists>s' own' xs'. unmap_loop h who (pagetable (proc_at s c)) True (Suc n) a e s = Inr s'
     \<and> changed h slot_data rinv c (pages_in a e) own s own' xs' s'
     \<and> (\<forall>va \<in> pages_in a e. pte_of h s' c va AND PTE_V h = 0
          \<and> find_swap c va (fr s') = (if who = Some c then None else find_swap c va (fr s)))"
  using assms
proof (induction n arbitrary: a own xs s)
  case 0
  then have "\<not> a < e" by (simp add: word_less_nat_alt)
  then show ?case using changed_refl [OF 0(1), of slot_data c "{}"] by (auto simp: pages_in_empty)
next
  case (Suc n)
  show ?case
  proof (cases "a < e")
    case False
    then show ?thesis using changed_refl [OF Suc.prems(1), of slot_data c "{}"] by (auto simp: pages_in_empty)
  next
    case True
    have e56: "e \<le> 2 ^ 56" using Suc.prems(4) maxva(2) by (simp add: order_trans)
    note st = pages_in_step [OF Suc.prems(3) True e56]
    have u: "uaddr h s c a" "framed h own s c a" using Suc.prems(2) st(1) by (simp_all add: space_def)
    obtain s1 own1 xs1 where 1: "unmap_page h who (pagetable (proc_at s c)) True a s = Inr s1"
      "changed h slot_data rinv c {a} own s own1 xs1 s1" "pte_of h s1 c a AND PTE_V h = 0"
      "find_swap c a (fr s1) = (if who = Some c then None else find_swap c a (fr s))"
      using unmap_page_spec [OF Suc.prems(1) u(1) Suc.prems(5) u(2)] unfolding unmap_answer_def by blast
    have sc: "sch s1 = sch s" using changedD(2) [OF 1(2)] .
    have "space h c (pages_in (a + 4096) e) own s" using Suc.prems(2) st(1) by (simp add: space_def)
    from changed_space [OF 1(2) this _ Suc.prems(1)] have sp: "space h c (pages_in (a + 4096) e) own1 s1" using st(2) u(1) by simp
    have a56: "a \<le> 2 ^ 56" using True e56 by simp
    have n: "unat e \<le> unat (a + 4096) + 4096 * n" using Suc.prems(6) unat_next_page [OF a56] by simp
    obtain s' own' xs' where 2: "unmap_loop h who (pagetable (proc_at s1 c)) True (Suc n) (a + 4096) e s1 = Inr s'"
      "changed h slot_data rinv c (pages_in (a + 4096) e) own1 s1 own' xs' s'"
      "\<forall>va \<in> pages_in (a + 4096) e. pte_of h s' c va AND PTE_V h = 0
          \<and> find_swap c va (fr s') = (if who = Some c then None else find_swap c va (fr s1))"
      using Suc.IH [OF changedD(1) [OF 1(2)] sp page_aligned_next [OF a56 Suc.prems(3)] Suc.prems(4,5) n] by blast
    have run: "unmap_loop h who (pagetable (proc_at s c)) True (Suc (Suc n)) a e s = Inr s'"
      using 1(1) 2(1) True sc by simp
    have ch: "changed h slot_data rinv c (pages_in a e) own s own' xs' s'" using changed_trans [OF 1(2) 2(2)] st(1) by simp
    have u1: "uaddr h s1 c a" using u(1) changedD(7) [OF 1(2)] by simp
    have "pte_of h s' c va AND PTE_V h = 0 \<and> find_swap c va (fr s') = (if who = Some c then None else find_swap c va (fr s))"
      if va: "va \<in> pages_in a e" for va
    proof (cases "va = a")
      case True
      then show ?thesis using changedD(4) [OF 2(2) u1] st(2) 1(3,4) by simp
    next
      case False
      then have v: "va \<in> pages_in (a + 4096) e" "uaddr h s c va" using va st(1) Suc.prems(2) by (simp_all add: space_def)
      have "find_swap c va (fr s1) = find_swap c va (fr s)" using changedD(4) [OF 1(2) v(2)] False by simp
      then show ?thesis using 2(3) v(1) by simp
    qed
    then show ?thesis using run ch by blast
  qed
qed

lemma uvmunmap_spec:
  assumes ok: "vm_ok h rinv own xs s" and sp: "space h c (pages_in va (va + n * 4096)) own s" and va: "page_aligned va"
    and e: "unat va + unat n * 4096 \<le> unat (MAXVA h)" and me: "who = (case me of Some i \<Rightarrow> if pagetable (proc_at s i) \<noteq> pagetable (proc_at s c) then None else Some i | None \<Rightarrow> None)"
    "who = None \<or> who = Some c"
  shows "\<exists>s' own' xs'. uvmunmap h me (pagetable (proc_at s c)) va n True s = Inr s'
     \<and> changed h slot_data rinv c (pages_in va (va + n * 4096)) own s own' xs' s'
     \<and> (\<forall>a \<in> pages_in va (va + n * 4096). pte_of h s' c a AND PTE_V h = 0
          \<and> find_swap c a (fr s') = (if who = Some c then None else find_swap c a (fr s)))"
proof -
  have m39: "unat (MAXVA h) \<le> 2 ^ 39" using maxva(2) by (simp add: word_le_nat_alt)
  have n: "unat (n * 4096) = unat n * 4096" using e m39 by (simp add: unat_word_ariths)
  have v: "unat (va + n * 4096) = unat va + unat n * 4096" using e m39 n by (simp add: unat_word_ariths)
  have le: "va + n * 4096 \<le> MAXVA h" using v e by (simp add: word_le_nat_alt)
  have "va mod 4096 = 0" using va by (simp only: page_aligned_def)
  then have run: "uvmunmap h me (pagetable (proc_at s c)) va n True s
      = unmap_loop h who (pagetable (proc_at s c)) True (Suc (unat n)) va (va + n * 4096) s"
    by (simp add: uvmunmap_def me(1) Let_def)
  show ?thesis unfolding run using unmap_loop_spec [OF ok sp va le me(2)] v by simp
qed


section \<open>Copying\<close>

lemma copied_join:
  assumes a: "changed h slot_data rinv c {i} own s own1 xs1 s1" "copied h slot_data p c {i} s s1"
    and b: "changed h slot_data rinv c R own1 s1 own' xs' s'" "copied h slot_data p c R s1 s'"
    and "i \<notin> R" "p \<noteq> c" "\<And>va. va \<in> insert i R \<Longrightarrow> uaddr h s c va \<and> uaddr h s p va"
  shows "copied h slot_data p c (insert i R) s s'"
  unfolding copied_def
proof
  fix va
  assume va: "va \<in> insert i R"
  have u: "uaddr h s c va" "uaddr h s p va" "uaddr h s1 c va" using assms(7) [OF va] changedD(7) [OF a(1)] by simp_all
  show "upage h slot_data s' c va = upage h slot_data s p va
      \<and> (user_pte h (pte_of h s p va) \<longrightarrow> PTE_FLAGS h (pte_of h s' c va) = PTE_FLAGS h (pte_of h s p va))"
  proof (cases "va = i")
    case True
    then show ?thesis using a(2) changedD(4) [OF b(1) u(3)] assms(5) by (simp add: copied_def)
  next
    case False
    then show ?thesis using b(2) va changedD(4) [OF a(1) u(2)] assms(6) by (simp add: copied_def)
  qed
qed

text \<open>The end of \<open>uvmcopy\<close> when a page could not be copied: what was mapped is unmapped.\<close>

lemma uvmcopy_err:
  assumes ok: "vm_ok h rinv own xs s" and sp: "space h c (pages_in 0 i) own s" and i: "page_aligned i" "i \<le> MAXVA h"
    and p: "p < nproc (sch s)" "c < nproc (sch s)" "p \<noteq> c" "pagetable (proc_at s c) \<noteq> 0"
  shows "\<exists>s' own' xs'. uvmunmap h (Some p) (pagetable (proc_at s c)) 0 (i div 4096) True s = Inr s'
     \<and> changed h slot_data rinv c (pages_in 0 i) own s own' xs' s' \<and> (\<forall>a \<in> pages_in 0 i. pte_of h s' c a AND PTE_V h = 0)"
proof -
  obtain j where j: "unat i = 4096 * j" using i(1) unfolding page_aligned_unat dvd_def by blast
  then have d: "unat (i div 4096) = j" by (simp add: unat_div)
  have "unat i < 2 ^ 64" using unsigned_less [of i] by simp
  then have e: "i div 4096 * 4096 = i" using d j by (simp add: word_unat_eq_iff unat_word_ariths mult.commute)
  have "pagetable (proc_at s p) \<noteq> pagetable (proc_at s c)" using vm_okD(6) [OF ok p(2,1) p(4)] p(3) by auto
  moreover have "unat (0::u64) + unat (i div 4096) * 4096 \<le> unat (MAXVA h)" using i(2) d j by (simp add: word_le_nat_alt)
  ultimately show ?thesis
    using uvmunmap_spec [where who = None and me = "Some p" and n = "i div 4096" and c = c, OF ok _ page_aligned_0] sp e by auto
qed

lemma uvmcopy_loop_spec:
  assumes "vm_ok h rinv own xs s" "space h p (pages_in i sz) own s" "\<forall>va \<in> pages_in i sz. untouched h c va s" "untracked c s"
    "space h c (pages_in 0 i) own s" "page_aligned i" "sz \<le> MAXVA h" "p < nproc (sch s)" "c < nproc (sch s)" "p \<noteq> c"
    "pagetable (proc_at s c) \<noteq> 0" "unat sz \<le> unat i + 4096 * n"
  shows "\<exists>r s' own' xs'. uvmcopy_loop h so (Some p) (pagetable (proc_at s p)) (pagetable (proc_at s c)) sz c (Suc n) i s = Inr (r, s')
     \<and> (r = 0 \<and> changed h slot_data rinv c (pages_in i sz) own s own' xs' s' \<and> copied h slot_data p c (pages_in i sz) s s' \<and> space h c (pages_in i sz) own' s'
        \<or> r = -1 \<and> changed h slot_data rinv c (pages_in 0 sz) own s own' xs' s' \<and> (\<forall>va \<in> pages_in 0 sz. pte_of h s' c va AND PTE_V h = 0)
          \<and> (length xs < 3 * n \<or> free_slots (fr s) < n))"
  using assms
proof (induction n arbitrary: i own xs s)
  case 0
  then have "\<not> i < sz" by (simp add: word_less_nat_alt)
  then show ?case using changed_refl [OF 0(1), of slot_data c "{}"] by (auto simp: pages_in_empty copied_def space_def)
next
  case (Suc n)
  show ?case
  proof (cases "i < sz")
    case False
    then show ?thesis using changed_refl [OF Suc.prems(1), of slot_data c "{}"] by (auto simp: pages_in_empty copied_def space_def)
  next
    case True
    have sz56: "sz \<le> 2 ^ 56" using Suc.prems(7) maxva(2) by (simp add: order_trans)
    have i56: "i \<le> 2 ^ 56" using True sz56 by simp
    note st = pages_in_step [OF Suc.prems(6) True sz56]
    have u: "untouched h c i s" "uaddr h s p i" "framed h own s p i" "uaddr h s c i"
      using Suc.prems(2,3) st(1) by (simp_all add: space_def untouched_def)
    obtain b s1 where b: "copy_page h so (Some p) (pagetable (proc_at s p)) (pagetable (proc_at s c)) c i s = Inr (b, s1)"
      "copy_answer p c i own xs s (b, s1)"
      using copy_page_spec [OF Suc.prems(1) u(1) Suc.prems(4) u(2,3)] by (metis surj_pair)
    then obtain own1 xs1 where 1: "changed h slot_data rinv c {i} own s own1 xs1 s1" "framed h own1 s1 c i"
      "if b then copied h slot_data p c {i} s s1 \<and> length xs \<le> length xs1 + 3 \<and> free_slots (fr s) \<le> free_slots (fr s1) + 1
       else pte_of h s1 c i AND PTE_V h = 0 \<and> (length xs \<le> 2 \<or> free_slots (fr s) = 0)"
      unfolding copy_answer_def prod.case by blast
    note ok1 = changedD(1) [OF 1(1)] and sc = changedD(2) [OF 1(1)]
    have z: "page_aligned i" "0 \<le> i" using Suc.prems(6) by simp_all
    have sp0: "space h c (pages_in 0 i) own1 s1"
      using changed_space [OF 1(1) Suc.prems(5) _ Suc.prems(1)] u(4) by (auto simp: pages_in_def)
    show ?thesis
    proof (cases b)
      case False
      then have none: "pte_of h s1 c i AND PTE_V h = 0" and few: "length xs \<le> 2 \<or> free_slots (fr s) = 0" using 1(3) by simp_all
      have iM: "i \<le> MAXVA h" using True Suc.prems(7) by simp
      obtain s' own' xs' where 2: "uvmunmap h (Some p) (pagetable (proc_at s1 c)) 0 (i div 4096) True s1 = Inr s'"
        "changed h slot_data rinv c (pages_in 0 i) own1 s1 own' xs' s'" "\<forall>a \<in> pages_in 0 i. pte_of h s' c a AND PTE_V h = 0"
        using uvmcopy_err [OF ok1 sp0 Suc.prems(6) iM, of p] Suc.prems(8-11) sc by auto
      have "uvmcopy_loop h so (Some p) (pagetable (proc_at s p)) (pagetable (proc_at s c)) sz c (Suc (Suc n)) i s = Inr (-1, s')"
        using True b(1) False 2(1) sc by simp
      moreover have "changed h slot_data rinv c (pages_in 0 sz) own s own' xs' s'"
        using True z by (intro changed_mono [OF changed_trans [OF 1(1) 2(2)]]) (auto simp: pages_in_def)
      moreover have "pte_of h s' c va AND PTE_V h = 0" if va: "va \<in> pages_in 0 sz" for va
      proof (cases "va < i")
        case True
        then show ?thesis using 2(3) va by (simp add: pages_in_def)
      next
        case ge: False
        then have v: "va \<in> pages_in i sz" "va \<notin> pages_in 0 i" using va by (simp_all add: pages_in_def)
        then have uv: "uaddr h s c va" "pte_of h s c va AND PTE_V h = 0" using Suc.prems(3) by (simp_all add: untouched_def)
        then have "uaddr h s1 c va" using changedD(7) [OF 1(1)] by simp
        then have "pte_of h s' c va = pte_of h s1 c va" using changedD(4) [OF 2(2)] v(2) by simp
        moreover have "pte_of h s1 c va AND PTE_V h = 0" using changedD(4) [OF 1(1) uv(1)] uv(2) none by (cases "va = i") simp_all
        ultimately show ?thesis by simp
      qed
      moreover have "length xs < 3 * Suc n \<or> free_slots (fr s) < Suc n" using few by auto
      ultimately show ?thesis by blast
    next
      case b': True
      have c1: "copied h slot_data p c {i} s s1" and l1: "length xs \<le> length xs1 + 3" "free_slots (fr s) \<le> free_slots (fr s1) + 1" using 1(3) b' by simp_all
      have rest: "va \<noteq> i \<and> uaddr h s c va \<and> uaddr h s p va" if "va \<in> pages_in (i + 4096) sz" for va
        using that st Suc.prems(2,3) by (auto simp: space_def untouched_def)
      have sp1: "space h p (pages_in (i + 4096) sz) own1 s1"
        using Suc.prems(2,10) st(1) u(4) by (intro changed_space [OF 1(1) _ _ Suc.prems(1)]) (simp_all add: space_def)
      have un1: "\<forall>va \<in> pages_in (i + 4096) sz. untouched h c va s1"
        using rest st(1) Suc.prems(3) changedD(4,7) [OF 1(1)] by (simp add: untouched_def)
      have tr1: "untracked c s1" using Suc.prems(4) changedD(3) [OF 1(1)] by (simp add: untracked_def)
      have "pages_in 0 (i + 4096) = insert i (pages_in 0 i)" by (rule pages_in_next [OF Suc.prems(6) i56])
      then have sp2: "space h c (pages_in 0 (i + 4096)) own1 s1" using sp0 1(2) u(4) changedD(7) [OF 1(1)] by (simp add: space_def)
      have n: "unat sz \<le> unat (i + 4096) + 4096 * n" using Suc.prems(12) unat_next_page [OF i56] by simp
      obtain r s' own' xs' where 2: "uvmcopy_loop h so (Some p) (pagetable (proc_at s1 p)) (pagetable (proc_at s1 c)) sz c (Suc n) (i + 4096) s1 = Inr (r, s')"
        "r = 0 \<and> changed h slot_data rinv c (pages_in (i + 4096) sz) own1 s1 own' xs' s' \<and> copied h slot_data p c (pages_in (i + 4096) sz) s1 s'
            \<and> space h c (pages_in (i + 4096) sz) own' s'
         \<or> r = -1 \<and> changed h slot_data rinv c (pages_in 0 sz) own1 s1 own' xs' s' \<and> (\<forall>va \<in> pages_in 0 sz. pte_of h s' c va AND PTE_V h = 0)
            \<and> (length xs1 < 3 * n \<or> free_slots (fr s1) < n)"
        using Suc.IH [OF ok1 sp1 un1 tr1 sp2 page_aligned_next [OF i56 Suc.prems(6)] Suc.prems(7) _ _ Suc.prems(10) _ n] Suc.prems(8,9,11) sc by auto
      have run: "uvmcopy_loop h so (Some p) (pagetable (proc_at s p)) (pagetable (proc_at s c)) sz c (Suc (Suc n)) i s = Inr (r, s')"
        using True b(1) b' 2(1) sc by simp
      from 2(2) consider
        (err) "r = -1" "changed h slot_data rinv c (pages_in 0 sz) own1 s1 own' xs' s'"
          "\<forall>va \<in> pages_in 0 sz. pte_of h s' c va AND PTE_V h = 0" "length xs1 < 3 * n \<or> free_slots (fr s1) < n"
        | (ok) "r = 0" "changed h slot_data rinv c (pages_in (i + 4096) sz) own1 s1 own' xs' s'"
          "copied h slot_data p c (pages_in (i + 4096) sz) s1 s'" "space h c (pages_in (i + 4096) sz) own' s'" by blast
      then show ?thesis
      proof cases
        case err
        have "insert i (pages_in 0 sz) = pages_in 0 sz" using True Suc.prems(6) by (auto simp: pages_in_def)
        then have "changed h slot_data rinv c (pages_in 0 sz) own s own' xs' s'" using changed_trans [OF 1(1) err(2)] by simp
        moreover have "length xs < 3 * Suc n \<or> free_slots (fr s) < Suc n" using err(4) l1 by arith
        ultimately show ?thesis using run err(1,3) by blast
      next
        case ok
        have "changed h slot_data rinv c (pages_in i sz) own s own' xs' s'" using changed_trans [OF 1(1) ok(2)] st(1) by simp
        moreover have "copied h slot_data p c (pages_in i sz) s s'"
          unfolding st(1) using rest u st(2) by (intro copied_join [OF 1(1) c1 ok(2,3) _ Suc.prems(10)]) auto
        moreover have "space h c {i} own1 s1" using 1(2) u(4) changedD(7) [OF 1(1)] by (simp add: space_def)
        then have "space h c {i} own' s'" using st(2) rest changedD(7) [OF 1(1)] by (intro changed_space [OF ok(2) _ _ ok1]) simp_all
        then have "space h c (pages_in i sz) own' s'" using ok(4) st(1) by (simp add: space_def)
        ultimately show ?thesis using run ok(1) by blast
      qed
    qed
  qed
qed

lemma uvmcopy_spec:
  assumes "vm_ok h rinv own xs s" "space h p (pages_in 0 sz) own s" "\<forall>va \<in> pages_in 0 sz. untouched h c va s" "untracked c s"
    "sz \<le> MAXVA h" "p < nproc (sch s)" "c < nproc (sch s)" "p \<noteq> c" "pagetable (proc_at s c) \<noteq> 0"
  shows "\<exists>r s' own' xs'. uvmcopy h so (Some p) (pagetable (proc_at s p)) (pagetable (proc_at s c)) sz c s = Inr (r, s')
     \<and> changed h slot_data rinv c (pages_in 0 sz) own s own' xs' s'
     \<and> (r = 0 \<and> copied h slot_data p c (pages_in 0 sz) s s' \<and> space h c (pages_in 0 sz) own' s'
        \<or> r = -1 \<and> (\<forall>va \<in> pages_in 0 sz. pte_of h s' c va AND PTE_V h = 0)
          \<and> (length xs < 3 * Suc (unat sz div page_bytes) \<or> free_slots (fr s) < Suc (unat sz div page_bytes)))"
proof -
  have "unat sz \<le> unat (0::u64) + 4096 * Suc (unat sz div page_bytes)" by simp
  note l = uvmcopy_loop_spec [OF assms(1-4) _ page_aligned_0 assms(5-9) this]
  have "space h c (pages_in 0 0) own s" by (simp add: space_def pages_in_def)
  from l [OF this] show ?thesis unfolding uvmcopy_def by blast
qed

end

end
