(* ===== verification/Paged_Stack.thy ===== *)
theory Paged_Stack
  imports User_Copy Swap_Stack
begin

text \<open>
  Paging over the storage stack: the frame table and the page-fault handler of \<open>kernel/kalloc.c\<close> and \<open>kernel/vm.c\<close>, with the
  swap area of \<open>kernel/virtio_disk.c\<close> over the buffer cache, the request queue and the virtio driver. On a machine with
  the layout \<open>sv39\<close> and a device with the contract of \<open>swap_stack\<close>, a process cannot tell a page that was evicted from one that
  was not.
\<close>

definition stack_swap ::
  "virtio_h \<Rightarrow> nat \<Rightarrow> 'd device \<Rightarrow> nat \<Rightarrow> (nat \<Rightarrow> int) \<Rightarrow> nat option \<Rightarrow> u32 \<Rightarrow> 'd disk bio raid swap_ops" where
  "stack_swap vh bs dev fuel level me rootdev =
     \<lparr>sw_read = swap_disk_read bs (block_read (stack_rw vh bs dev fuel) level me rootdev),
      sw_write = swap_disk_write bs (block_read (stack_rw vh bs dev fuel) level me rootdev)
                   (block_write (stack_rw vh bs dev fuel) level me rootdev)\<rparr>"

text \<open>The page in a slot of the swap area, and the invariant of the stack below it.\<close>

definition stack_slot :: "nat \<Rightarrow> ('d \<Rightarrow> nat \<Rightarrow> u8) \<Rightarrow> 'd disk bio raid \<Rightarrow> nat \<Rightarrow> u8 list" where
  "stack_slot bs img r n = slot_page bs (raid_mode r) (disk_block bs img (drv (rstore r))) (int n)"

definition stack_rinv :: "nat \<Rightarrow> ('d \<Rightarrow> nat \<Rightarrow> u8) \<Rightarrow> ('d \<Rightarrow> u16) \<Rightarrow> ('d \<Rightarrow> bool) \<Rightarrow> int \<Rightarrow> u32 \<Rightarrow> 'd disk bio raid \<Rightarrow> bool" where
  "stack_rinv bs img seen dinv rows rootdev r \<longleftrightarrow> stack_inv bs img seen dinv rows rootdev (rstore r)"

context swap_stack
begin

lemmas stack_device = swap.dev.swap_device_axioms

end

lemma stack_paging:
  assumes "sv39 h" "swap_stack vh dev img seen dinv capacity bs rows"
  shows "user_paging h (swap_disk_read bs (block_read (stack_rw vh bs dev fuel) level me rootdev))
     (swap_disk_write bs (block_read (stack_rw vh bs dev fuel) level me rootdev) (block_write (stack_rw vh bs dev fuel) level me rootdev))
     (stack_slot bs img) (stack_rinv bs img seen dinv rows rootdev)"
  using assms(1) swap_stack.stack_device [OF assms(2), of fuel level me rootdev]
  unfolding user_paging_def stack_slot_def [abs_def] stack_rinv_def [abs_def] by blast

interpretation vm39: user_paging riscv_std
  "swap_disk_read 1024 (block_read (stack_rw virtio_std 1024 (blk_device virtio_std swap_image) fuel) level me rootdev)"
  "swap_disk_write 1024 (block_read (stack_rw virtio_std 1024 (blk_device virtio_std swap_image) fuel) level me rootdev)
     (block_write (stack_rw virtio_std 1024 (blk_device virtio_std swap_image) fuel) level me rootdev)"
  "stack_slot 1024 dv_img" "stack_rinv 1024 dv_img dv_seen (\<lambda>d. True) 512 rootdev"
  for fuel level me rootdev
  by (rule stack_paging [OF std39.sv39_axioms xv6.swap_stack_axioms])


section \<open>Properties\<close>


text \<open>
  A small system: a process with an empty address space whose page 0 is in slot 3 of the swap area, and five pages of
  memory, one holding the root of its page table, the others free.
\<close>

definition small_mem :: kmem where
  "small_mem = \<lparr>pm = (\<lambda>a. replicate page_bytes 0)(2147688448 := put64 0 2147692544 (replicate page_bytes 0),
       2147692544 := put64 0 2147696640 (replicate page_bytes 0), 2147696640 := put64 0 2147700736 (replicate page_bytes 0)),
     freelist = 2147688448\<rparr>"

definition small_own :: "u64 \<Rightarrow> role" where
  "small_own = (\<lambda>a. Unowned)(2147680256 := Table 2147680256 [], 2147688448 := Free, 2147692544 := Free,
     2147696640 := Free, 2147700736 := Free)"

definition small_free :: "u64 list" where
  "small_free = [2147688448, 2147692544, 2147696640, 2147700736]"

lemma small_mem_ok: "mem_ok riscv_std small_own small_free small_mem"
proof -
  have "free_list riscv_std small_mem small_free"
    by (simp add: small_free_def free_list_def small_mem_def get64_put64 phys_ok_def page_aligned_unat riscv_std_def)
  moreover have "phys_ok riscv_std a" if "small_own a \<noteq> Unowned" for a
    using that by (auto simp: small_own_def phys_ok_def page_aligned_unat riscv_std_def split: if_splits)
  moreover have "length (pm small_mem a) = page_bytes" for a by (simp add: small_mem_def)
  moreover have "pte_val small_mem (2147680256, i) = 0" for i by (simp add: pte_val_def small_mem_def)
  ultimately show ?thesis by (intro mem_okI) (auto simp: small_own_def small_free_def entry_ok_def split: if_splits)
qed

definition small_frames :: frames where
  "small_frames = kinit_frames\<lparr>swap_used := (swap_used kinit_frames)[3 := True],
     swap_map := (swap_map kinit_frames)[3 := \<lparr>sused = True, sproc = Some 0, sva = 0, sslot = 3\<rparr>]\<rparr>"

lemma small_frames_ok: "frames_ok small_frames"
  using kinit_frames_ok by (auto simp: small_frames_def frames_ok_def nth_list_update kinit_frames_def no_swap_def MAX_SWAP_PAGES_def)

lemma small_swap_map:
  "k < MAX_SWAP_PAGES \<Longrightarrow>
     swap_map small_frames ! k = (if k = 3 then \<lparr>sused = True, sproc = Some 0, sva = 0, sslot = 3\<rparr> else \<lparr>sused = False, sproc = None, sva = 0, sslot = -1\<rparr>)"
  by (auto simp: small_frames_def kinit_frames_def no_swap_def nth_list_update)

definition small_vm :: "blk_dev disk bio raid vm" where
  "small_vm = \<lparr>km = small_mem, fr = small_frames,
     sch = \<lparr>procs = [\<lparr>pstate = RUNNING, pchan = None, pkilled = 0, xstate = 0, pid = 1, parent = None, kstack = 0, psz = 8192,
        pagetable = 2147680256, trapframe = 0, pname = [], syscount = 0, plevel = 0, ticks_used = 0, pticks = [0, 0, 0, 0],
        times_scheduled = 0, last_syscall_count = 0, page_faults = 0, pages_evicted = 0, pages_swapped_in = 0,
        pages_swapped_out = 0, resident_pages = 0\<rparr>],
      cpus = [Some 0], nextpid = 2, initproc = Some 0, ticks = 0, mlfq_global_ticks = 0\<rparr>,
     swp = boot_stack RAID5\<rparr>"

lemma small_vm_ok: "vm_ok riscv_std (stack_rinv 1024 dv_img dv_seen (\<lambda>d. True) 512 1) small_own small_free small_vm"
proof (rule vm_okI)
  show "mem_ok riscv_std small_own small_free (km small_vm)" using small_mem_ok by (simp add: small_vm_def)
  show "frames_ok (fr small_vm)" using small_frames_ok by (simp add: small_vm_def)
  show "stack_rinv 1024 dv_img dv_seen (\<lambda>d. True) 512 1 (swp small_vm)"
    using boot_stack_inv [of 1] by (simp add: stack_rinv_def small_vm_def)
  fix p va k
  assume f: "find_swap p va (fr small_vm) = Some k"
  have "k < MAX_SWAP_PAGES \<and> sused (swap_map small_frames ! k) \<and> sproc (swap_map small_frames ! k) = Some p \<and> sva (swap_map small_frames ! k) = va"
    using find_swap_Some [OF small_frames_ok, of p va k] f by (simp add: small_vm_def)
  then have "p = 0 \<and> va = 0" by (auto simp: small_swap_map split: if_splits)
  then show "uaddr riscv_std small_vm p va \<and> pte_of riscv_std small_vm p va AND PTE_V riscv_std = 0"
    by (simp add: uaddr_def small_vm_def pte_at_def leaf_slot_def next_table_def pte_val_def small_mem_def) (simp add: riscv_std_def)
next
  fix i p
  assume "tracked (fr small_vm) i"
  moreover have "\<not> tracked (fr small_vm) i"
    by (auto simp: tracked_def small_vm_def small_frames_def kinit_frames_def no_frame_def)
  ultimately show "p < nproc (sch small_vm) \<and> page_aligned (fva (frame_table (fr small_vm) ! i)) \<and> fva (frame_table (fr small_vm) ! i) < MAXVA riscv_std
      \<and> (pagetable (proc_at small_vm p) \<noteq> 0 \<and> pte_of riscv_std small_vm p (fva (frame_table (fr small_vm) ! i)) AND PTE_V riscv_std \<noteq> 0 \<longrightarrow>
           pte_of riscv_std small_vm p (fva (frame_table (fr small_vm) ! i)) AND PTE_U riscv_std \<noteq> 0)"
    by blast
qed (simp_all add: small_vm_def small_own_def)

text \<open>The storage stack of the small system.\<close>

abbreviation small_swap :: "blk_dev disk bio raid swap_ops" where
  "small_swap \<equiv> stack_swap virtio_std 1024 (blk_device virtio_std swap_image) 0 (\<lambda>p. 0) None 1"






text \<open>
  C6: \<open>copyout\<close> writes the range and nothing else. It returns; it has written a prefix of the bytes to the addresses from
  \<open>dstva\<close> on, all of them if it returns 0, and no other byte of any process has changed, though pages may have been brought in and others
  evicted. If the pages of the range are resident and writable it returns 0.
\<close>

theorem copyout_writes_range_only:
  assumes "sv39 h" "swap_stack vh dev img seen dinv capacity bs rows"
    and "vm_ok h (stack_rinv bs img seen dinv rows rootdev) own xs s" "user_proc h s p" "length src \<le> 2 ^ 64"
  shows "\<exists>r j s' own' xs'. copyout h (stack_swap vh bs dev fuel level me rootdev) (Some p) (pagetable (proc_at s p)) dstva src s = Inr (r, s')
     \<and> vm_ok h (stack_rinv bs img seen dinv rows rootdev) own' xs' s'
     \<and> j \<le> length src \<and> patched h (stack_slot bs img) s p dstva (take j src) s'
     \<and> (r = 0 \<and> j = length src \<or> r = -1 \<and> \<not> (\<forall>i < length src. writable h s p (dstva + of_nat i)))"
proof -
  note up = stack_paging [OF assms(1,2), of fuel level me rootdev]
  show ?thesis
    using user_paging.copyout_loop_spec [OF up order_refl assms(3-5), folded stack_swap_def, of dstva]
    unfolding copyout_def by blast
qed

theorem copyout_writes_range_only_witness:
  "\<exists>r j s'. copyout riscv_std small_swap (Some 0) 2147680256 4094 [1, 2, 3, 4] small_vm = Inr (r, s')
     \<and> patched riscv_std (stack_slot 1024 dv_img) small_vm 0 4094 (take j [1, 2, 3, 4]) s' \<and> (r = 0 \<longrightarrow> j = 4)"
proof -
  have "user_proc riscv_std small_vm 0" "pagetable (proc_at small_vm 0) = 2147680256"
    by (simp_all add: user_proc_def small_vm_def riscv_std_def)
  then show ?thesis
    using copyout_writes_range_only [OF std39.sv39_axioms xv6.swap_stack_axioms small_vm_ok, of 0 "[1, 2, 3, 4]" 0 "\<lambda>p. 0" None 4094]
    by fastforce
qed

text \<open>
  C29: \<open>copyinstr\<close> does not fault pages in. It returns 0 with the string and its final 0 if the string ends within \<open>mx\<close> bytes and all its pages
  are resident, and -1 in every other case: also for a string on a page that was swapped out, which \<open>copyin\<close> reads.
\<close>

theorem copyinstr_needs_resident_pages:
  assumes "sv39 h" "swap_stack vh dev img seen dinv capacity bs rows"
    and "vm_ok h (stack_rinv bs img seen dinv rows rootdev) own xs s" "user_proc h s p"
  shows "\<exists>r ds. copyinstr h (pagetable (proc_at s p)) srcva mx s = Inr (r, ds)
     \<and> (\<forall>k < mx. string_at h (stack_slot bs img) s p srcva k \<longrightarrow>
          r = 0 \<and> ds = map (\<lambda>i. ubyte h (stack_slot bs img) s p (srcva + of_nat i)) [0..<Suc k])
     \<and> ((\<forall>k < mx. \<not> string_at h (stack_slot bs img) s p srcva k) \<longrightarrow> r = -1)"
  using user_paging.copyinstr_loop_spec [OF stack_paging [OF assms(1,2)] order_refl assms(3,4), of mx srcva "[]"]
  unfolding copyinstr_def by simp

theorem copyinstr_needs_resident_pages_witness:
  "\<exists>ds. copyinstr riscv_std 2147680256 0 16 small_vm = Inr (-1, ds)"
proof -
  have "pte_of riscv_std small_vm 0 0 = 0"
    by (simp add: small_vm_def pte_at_def leaf_slot_def next_table_def pte_val_def small_mem_def)
  moreover have "PGROUNDDOWN riscv_std 0 = 0" by (simp add: riscv_std_def)
  ultimately have "\<not> resident riscv_std small_vm 0 (0 + of_nat 0)" by (simp add: resident_def user_pte_def)
  then have "\<not> string_at riscv_std (stack_slot 1024 dv_img) small_vm 0 0 k" for k unfolding string_at_def by blast
  moreover have "user_proc riscv_std small_vm 0" "pagetable (proc_at small_vm 0) = 2147680256"
    by (simp_all add: user_proc_def small_vm_def riscv_std_def)
  ultimately show ?thesis
    using copyinstr_needs_resident_pages [OF std39.sv39_axioms xv6.swap_stack_axioms small_vm_ok, of 0 0 16] by fastforce
qed

end
