(* ===== verification/Fork.thy ===== *)
theory Fork
  imports Process Address_Space Paged_Stack
begin

text \<open>
  The creation of processes: what \<open>allocproc\<close> and \<open>kfork\<close> of \<open>kernel/proc.c\<close> do to the memory of the new process and of all others.
\<close>

section \<open>A new address space\<close>

lemma on_proc_sel [simp]:
  "km (on_proc g p s) = km s" "fr (on_proc g p s) = fr s" "swp (on_proc g p s) = swp s" "nproc (sch (on_proc g p s)) = nproc (sch s)"
  by (simp_all add: on_proc_def)

lemma on_proc_nth: "q < nproc (sch s) \<Longrightarrow> proc_at (on_proc g p s) q = (if p = q then g (proc_at s q) else proc_at s q)"
  by (simp add: on_proc_def upd_proc_nth)

lemma on_proc_other [simp]: "q \<noteq> p \<Longrightarrow> proc_at (on_proc g p s) q = proc_at s q"
  by (simp add: on_proc_def upd_proc_def)

context sv39
begin

lemma new_root:
  assumes ok: "mem_ok h own (x # xs) m"
    and m': "m' = m\<lparr>freelist := get64 (pm m x) 0, pm := (pm m)(x := replicate page_bytes 0)\<rparr>"
  shows "mem_ok h (own(x := Table x [])) xs m'" and "own pt = Table pt [] \<Longrightarrow> pte_at h m' pt va = pte_at h m pt va"
    and "pte_at h m' x va = 0"
proof -
  note x = kalloc_pop [OF mem_okD(1) [OF ok]]
  have ox: "own x = Free" using mem_okD(2) [OF ok, of x] by simp
  have zero: "pte_val m' (x, i) = 0" for i by (simp add: m' pte_val_def)
  have val: "pte_val m' (a, i) = pte_val m (a, i)" if "a \<noteq> x" for a i using that by (simp add: m' pte_val_def)
  have tab: "a \<noteq> x" if "own a = Table r p" for a r p using that ox by auto
  show "pte_at h m' pt va = pte_at h m pt va" if "own pt = Table pt []"
    using tab by (intro pte_at_frame [OF ok that] val) auto
  show "pte_at h m' x va = 0" using zero by (simp add: pte_at_def leaf_slot_def next_table_def)
  show "mem_ok h (own(x := Table x [])) xs m'"
  proof (rule mem_okI)
    show "free_list h m' xs" unfolding m' by (rule x(2))
    show "(own(x := Table x [])) a = Free \<longleftrightarrow> a \<in> set xs" for a using mem_okD(2) [OF ok, of a] x(5) by auto
    show "phys_ok h a \<and> length (pm m' a) = page_bytes" if "(own(x := Table x [])) a \<noteq> Unowned" for a
      using mem_okD(3,4) [OF ok, of a] that ox by (auto simp: m' split: if_splits)
    show "length p \<le> 2 \<and> (p = [] \<longrightarrow> a = r)" if "(own(x := Table x [])) a = Table r p" for a r p
      using mem_okD(5) [OF ok, of a r p] mem_okD(7) [OF ok, of a r] that by (auto split: if_splits)
    show "entry_ok h (own(x := Table x [])) r p i (pte_val m' (a, i))" if a: "(own(x := Table x [])) a = Table r p" and i: "i < 512" for a r p i
    proof (cases "a = x")
      case True
      then show ?thesis using zero by (simp add: entry_ok_def)
    next
      case False
      then have "own a = Table r p" using a by simp
      from mem_okD(6) [OF ok this i] show ?thesis using val [OF False] ox by (auto simp: entry_ok_def split: if_splits)
    qed
    fix b r p i
    assume "(own(x := Table x [])) b = Table r (p @ [i])"
    then have "own b = Table r (p @ [i])" by (simp split: if_splits)
    from mem_okD(8) [OF ok this] obtain a where a: "own a = Table r p" "i < 512" "next_table h m a i = Some b" by blast
    then have "a \<noteq> x" using tab by simp
    then show "\<exists>a. (own(x := Table x [])) a = Table r p \<and> i < 512 \<and> next_table h m' a i = Some b"
      using a next_table_cong [OF val] by (intro exI [of _ a]) simp
  qed
qed

lemma top_addresses:
  "page_aligned (TRAMPOLINE h)" "page_aligned (TRAPFRAME h)" "TRAMPOLINE h < MAXVA h" "TRAPFRAME h < TRAMPOLINE h"
proof -
  have m: "2 ^ 20 \<le> unat (MAXVA h)" "unat (MAXVA h) \<le> 2 ^ 39" "4096 dvd unat (MAXVA h)"
    using maxva by (simp_all add: word_le_nat_alt page_aligned_unat)
  have u: "unat (TRAMPOLINE h) = unat (MAXVA h) - 4096" "unat (TRAPFRAME h) = unat (MAXVA h) - 8192"
    using m by (simp_all add: top_pages unat_sub word_le_nat_alt)
  show "page_aligned (TRAMPOLINE h)" "page_aligned (TRAPFRAME h)"
    using m u by (simp_all add: page_aligned_unat dvd_diff_nat)
  show "TRAMPOLINE h < MAXVA h" "TRAPFRAME h < TRAMPOLINE h" using m u by (simp_all add: word_less_nat_alt)
qed

text \<open>Free pages have been given roles; every page that had one, and every address space, is as it was.\<close>

definition extended :: "(u64 \<Rightarrow> role) \<Rightarrow> kmem \<Rightarrow> (u64 \<Rightarrow> role) \<Rightarrow> kmem \<Rightarrow> bool" where
  "extended own m own' m' \<longleftrightarrow>
     (\<forall>a. own a \<noteq> Free \<longrightarrow> own' a = own a) \<and> (\<forall>a. own a \<noteq> Free \<and> (\<forall>r p. own a \<noteq> Table r p) \<longrightarrow> pm m' a = pm m a)
   \<and> (\<forall>pt va. own pt = Table pt [] \<and> page_aligned va \<and> va < MAXVA h \<longrightarrow> pte_at h m' pt va = pte_at h m pt va)"

lemma extended_trans:
  assumes "extended own m own1 m1" "extended own1 m1 own2 m2"
  shows "extended own m own2 m2"
  using assms unfolding extended_def by simp

lemma extended_mapped:
  assumes "extended own m own1 m1" "mapped h own1 xs1 m1 own2 xs2 m2 pt va e" "own pt = Free"
  shows "extended own m own2 m2"
proof -
  have "own2 a = own a" if "own a \<noteq> Free" for a using assms(1,2) that by (simp add: extended_def mapped_def)
  moreover have "pm m2 a = pm m a" if "own a \<noteq> Free" "\<forall>r p. own a \<noteq> Table r p" for a
    using assms(1,2) that by (simp add: extended_def mapped_def)
  moreover have "pte_at h m2 pt' va' = pte_at h m pt' va'" if "own pt' = Table pt' []" "page_aligned va'" "va' < MAXVA h" for pt' va'
  proof -
    have "own1 pt' = Table pt' []" "pt' \<noteq> pt" using assms(1,3) that by (auto simp: extended_def)
    then show ?thesis using assms(1,2) that by (simp add: extended_def mapped_def)
  qed
  ultimately show ?thesis by (simp add: extended_def)
qed

lemma map_kernel_page:
  assumes ok: "mem_ok h own xs m" and pt: "own pt = Table pt []" and va: "page_aligned va" "va < MAXVA h"
    and np: "pte_at h m pt va AND PTE_V h = 0" and pa: "page_aligned pa" "pa < 2 ^ 56" and perm: "perm < 1024" "perm AND PTE_U h = 0"
    and two: "2 \<le> length xs"
  shows "\<exists>own' xs' m'. mappages h pt va 4096 pa perm m = Inr (0, m') \<and> length xs \<le> length xs' + 2
     \<and> mapped h own xs m own' xs' m' pt va (PA2PTE h pa OR perm OR PTE_V h)"
  using map_page [OF ok pt va np pa perm(1)] perm(2) two by auto

lemma proc_pagetable_spec:
  assumes ok: "mem_ok h own xs (km s)" and tf: "own (trapframe (proc_at s p)) = Kernel" and five: "5 \<le> length xs"
    and tramp: "page_aligned (trampoline h)" "trampoline h < 2 ^ 56"
  shows "\<exists>pt m' own' xs'. proc_pagetable h me p s = Inr (pt, s\<lparr>km := m'\<rparr>) \<and> pt \<noteq> 0 \<and> own pt = Free \<and> own' pt = Table pt []
     \<and> mem_ok h own' xs' m' \<and> extended own (km s) own' m' \<and> length xs \<le> length xs' + 5
     \<and> (\<forall>va. page_aligned va \<and> va < TRAPFRAME h \<longrightarrow> pte_at h m' pt va = 0)"
proof -
  obtain x xs1 where xs: "xs = x # xs1" using five by (cases xs) auto
  note ok = ok [unfolded xs]
  note k = kalloc_pop [OF mem_okD(1) [OF ok]]
  let ?tf = "trapframe (proc_at s p)"
  define m1 where "m1 = (km s)\<lparr>freelist := get64 (pm (km s) x) 0, pm := (pm (km s))(x := replicate page_bytes 0)\<rparr>"
  define own1 where "own1 = own(x := Table x [])"
  have ox: "own x = Free" using mem_okD(2) [OF ok, of x] by simp
  note nr = new_root [OF ok m1_def, folded own1_def]
  have x1: "own1 x = Table x []" by (simp add: own1_def)
  have e1: "extended own (km s) own1 m1"
    using nr(2) ox by (auto simp: extended_def own1_def m1_def)
  note t = top_addresses
  have z: "pte_at h m1 x va AND PTE_V h = 0" for va using nr(3) by simp
  obtain own2 xs2 m2 where 2: "mappages h x (TRAMPOLINE h) 4096 (trampoline h) (PTE_R h OR PTE_X h) m1 = Inr (0, m2)"
    "length xs1 \<le> length xs2 + 2" "mapped h own1 xs1 m1 own2 xs2 m2 x (TRAMPOLINE h) (PA2PTE h (trampoline h) OR (PTE_R h OR PTE_X h) OR PTE_V h)"
    using map_kernel_page [OF nr(1) x1 t(1,3) z tramp, of "PTE_R h OR PTE_X h"] five xs by (auto simp: flag_bits)
  have x2: "own2 x = Table x []" and ok2: "mem_ok h own2 xs2 m2" using 2(3) x1 by (simp_all add: mapped_def)
  have v2: "pte_at h m2 x va = 0" if "page_aligned va" "va < TRAMPOLINE h" for va
    using 2(3) x1 nr(3) that t(3) by (auto simp: mapped_def)
  have z2: "pte_at h m2 x (TRAPFRAME h) AND PTE_V h = 0" using v2 [OF t(2,4)] by simp
  have tfk: "page_aligned ?tf" "?tf < 2 ^ 56" using mem_okD(3) [OF ok, of ?tf] tf ram(3) by (auto simp: phys_ok_def)
  have tM: "TRAPFRAME h < MAXVA h" using t(3,4) by simp
  obtain own3 xs3 m3 where 3: "mappages h x (TRAPFRAME h) 4096 ?tf (PTE_R h OR PTE_W h) m2 = Inr (0, m3)"
    "length xs2 \<le> length xs3 + 2" "mapped h own2 xs2 m2 own3 xs3 m3 x (TRAPFRAME h) (PA2PTE h ?tf OR (PTE_R h OR PTE_W h) OR PTE_V h)"
    using map_kernel_page [OF ok2 x2 t(2) tM z2 tfk, of "PTE_R h OR PTE_W h"] five xs 2(2) by (auto simp: flag_bits)
  have run: "proc_pagetable h me p s = Inr (x, s\<lparr>km := m3\<rparr>)"
    using k(1,3) 2(1) 3(1) by (simp add: proc_pagetable_def uvmcreate_def set_page_def m1_def)
  have "pte_at h m3 x va = 0" if "page_aligned va" "va < TRAPFRAME h" for va
    using 3(3) x2 v2 [of va] that t(3,4) by (auto simp: mapped_def)
  moreover have "extended own (km s) own3 m3"
    by (rule extended_mapped [OF extended_mapped [OF e1 2(3) ox] 3(3) ox])
  moreover have "own3 x = Table x []" "mem_ok h own3 xs3 m3" using 3(3) x2 by (simp_all add: mapped_def)
  moreover have "length xs \<le> length xs3 + 5" using xs 2(2) 3(2) by simp
  ultimately show ?thesis using run k(3) ox by blast
qed

end

context user_paging
begin

text \<open>The process \<open>c\<close> has been set up, with an address space that is empty below the trapframe; no other process has changed.\<close>

definition created :: "nat \<Rightarrow> (u64 \<Rightarrow> role) \<Rightarrow> u64 list \<Rightarrow> 'd vm \<Rightarrow> (u64 \<Rightarrow> role) \<Rightarrow> u64 list \<Rightarrow> 'd vm \<Rightarrow> bool" where
  "created c own xs s own' xs' s' \<longleftrightarrow>
     vm_ok h rinv own' xs' s' \<and> fr s' = fr s \<and> swp s' = swp s \<and> nproc (sch s') = nproc (sch s)
   \<and> (\<forall>q. q \<noteq> c \<longrightarrow> proc_at s' q = proc_at s q) \<and> extended own (km s) own' (km s')
   \<and> own' (trapframe (proc_at s' c)) = Kernel \<and> own (trapframe (proc_at s' c)) = Free \<and> pagetable (proc_at s' c) \<noteq> 0
   \<and> (\<forall>va. page_aligned va \<and> va < TRAPFRAME h \<longrightarrow> pte_of h s' c va = 0) \<and> length xs \<le> length xs' + 6"

lemma new_process_ok:
  assumes ok: "vm_ok h rinv own xs s" and c: "c < nproc (sch s)" "pagetable (proc_at s c) = 0" "untracked c s"
    and m: "mem_ok h own' xs' m'" "extended own (km s) own' m'" "own' pt = Table pt []" "own pt = Free" "pt \<noteq> 0"
    and s': "km s' = m'" "fr s' = fr s" "swp s' = swp s" "nproc (sch s') = nproc (sch s)" "\<And>q. q \<noteq> c \<Longrightarrow> proc_at s' q = proc_at s q"
      "pagetable (proc_at s' c) = pt" "plevel (proc_at s' c) = 0"
  shows "vm_ok h rinv own' xs' s'"
proof -
  have pte: "pte_of h s' q va = pte_of h s q va" if "uaddr h s q va" for q va
  proof -
    have "q \<noteq> c" using that c(2) by (auto simp: uaddr_def)
    then show ?thesis using that vm_okD(5) [OF ok, of q] m(2) s' by (simp add: uaddr_def extended_def)
  qed
  have u: "uaddr h s' q va" if "uaddr h s q va" for q va
  proof -
    have "q \<noteq> c" using that c(2) by (auto simp: uaddr_def)
    then show ?thesis using that s' by (simp add: uaddr_def)
  qed
  have old: "own (pagetable (proc_at s q)) = Table (pagetable (proc_at s q)) []" if "q < nproc (sch s)" "pagetable (proc_at s q) \<noteq> 0" for q
    using vm_okD(5) [OF ok] that by simp
  show ?thesis
  proof (rule vm_okI)
    show "mem_ok h own' xs' (km s')" "frames_ok (fr s')" "rinv (swp s')" using m(1) s' vm_okD(2,3) [OF ok] by simp_all
    show "0 \<le> plevel (proc_at s' q) \<and> plevel (proc_at s' q) \<le> 3" if "q < nproc (sch s')" for q
      using vm_okD(4) [OF ok, of q] that s' by (cases "q = c") simp_all
    show "own' (pagetable (proc_at s' q)) = Table (pagetable (proc_at s' q)) []" if "q < nproc (sch s')" "pagetable (proc_at s' q) \<noteq> 0" for q
      using old [of q] m that s' by (cases "q = c") (simp_all add: extended_def)
    show "q = q'" if q: "q < nproc (sch s')" "q' < nproc (sch s')" "pagetable (proc_at s' q) \<noteq> 0" "pagetable (proc_at s' q) = pagetable (proc_at s' q')" for q q'
    proof (cases "q = c \<or> q' = c")
      case True
      then show ?thesis using old [of q] old [of q'] m(4,5) q s' by (cases "q = c"; cases "q' = c") auto
    next
      case False
      then show ?thesis using vm_okD(6) [OF ok, of q q'] q s' by simp
    qed
    show "uaddr h s' q va \<and> pte_of h s' q va AND PTE_V h = 0" if "find_swap q va (fr s') = Some k" for q va k
      using vm_okD(8) [OF ok, of q va k] that s'(2) pte u by simp
    fix i q
    assume i: "tracked (fr s') i" "fproc (frame_table (fr s') ! i) = Some q"
    let ?a = "fva (frame_table (fr s) ! i)"
    have qc: "q \<noteq> c" using i c(3) s'(2) by (auto simp: untracked_def)
    have v: "q < nproc (sch s) \<and> page_aligned ?a \<and> ?a < MAXVA h
      \<and> (pagetable (proc_at s q) \<noteq> 0 \<and> pte_of h s q ?a AND PTE_V h \<noteq> 0 \<longrightarrow> pte_of h s q ?a AND PTE_U h \<noteq> 0)"
      using vm_okD(7) [OF ok, of i q] i s'(2) by simp
    then have "pte_of h s' q ?a = pte_of h s q ?a" if "pagetable (proc_at s q) \<noteq> 0" using that by (intro pte) (simp add: uaddr_def)
    then show "q < nproc (sch s') \<and> page_aligned (fva (frame_table (fr s') ! i)) \<and> fva (frame_table (fr s') ! i) < MAXVA h
      \<and> (pagetable (proc_at s' q) \<noteq> 0 \<and> pte_of h s' q (fva (frame_table (fr s') ! i)) AND PTE_V h \<noteq> 0 \<longrightarrow>
           pte_of h s' q (fva (frame_table (fr s') ! i)) AND PTE_U h \<noteq> 0)"
      using v s' qc by auto
  qed
qed

lemma allocproc_spec:
  assumes ok: "vm_ok h rinv own xs s" and find: "find_idx (\<lambda>x. pstate x = UNUSED) (procs (sch s)) = Some c"
    and c: "pagetable (proc_at s c) = 0" "untracked c s" and six: "6 \<le> length xs"
    and tramp: "page_aligned (trampoline h)" "trampoline h < 2 ^ 56"
  shows "\<exists>s' own' xs'. allocproc h me s = Inr (Some c, s') \<and> created c own xs s own' xs' s'
     \<and> pid (proc_at s' c) = nextpid (sch s) \<and> pkilled (proc_at s' c) = pkilled (proc_at s c) \<and> pstate (proc_at s' c) = USED"
proof -
  have cl: "c < nproc (sch s)" using find_idx_SomeD [OF find] by simp
  obtain x xs1 where xs: "xs = x # xs1" using six by (cases xs) auto
  note mo = vm_okD(1) [OF ok, unfolded xs]
  note k = kalloc_pop [OF mem_okD(1) [OF mo]]
  define m1 where "m1 = (km s)\<lparr>freelist := get64 (pm (km s) x) 0, pm := (pm (km s))(x := replicate page_bytes 5)\<rparr>"
  have ox: "own x = Free" using mem_okD(2) [OF mo, of x] by simp
  let ?own1 = "own(x := Kernel)"
  have t: "mem_ok h ?own1 xs1 m1" "\<And>pt va. own pt = Table pt [] \<Longrightarrow> pte_at h m1 pt va = pte_at h (km s) pt va"
    using take_page [OF mo _ _ m1_def, of Kernel] by simp_all
  have e1: "extended own (km s) ?own1 m1" using t(2) ox by (auto simp: extended_def m1_def)
  define s2 where "s2 = on_proc (\<lambda>y. y\<lparr>trapframe := x\<rparr>) c
     ((on_proc (\<lambda>y. y\<lparr>pid := nextpid (sch s), pstate := USED\<rparr>) c (s\<lparr>sch := snd (allocpid (sch s))\<rparr>))\<lparr>km := m1\<rparr>)"
  have tf: "trapframe (proc_at s2 c) = x" "km s2 = m1" using cl by (simp_all add: s2_def on_proc_def allocpid_def upd_proc_def)
  obtain pt m' own' xs' where pp: "proc_pagetable h me c s2 = Inr (pt, s2\<lparr>km := m'\<rparr>)" "pt \<noteq> 0" "?own1 pt = Free" "own' pt = Table pt []"
    "mem_ok h own' xs' m'" "extended ?own1 m1 own' m'" "length xs1 \<le> length xs' + 5" "\<forall>va. page_aligned va \<and> va < TRAPFRAME h \<longrightarrow> pte_at h m' pt va = 0"
    using proc_pagetable_spec [of ?own1 xs1 s2 c me] t(1) tf six xs tramp by auto
  let ?g = "\<lambda>y. y\<lparr>page_faults := 0, pages_swapped_in := 0, pages_swapped_out := 0, pages_evicted := 0,
      resident_pages := 0, syscount := 0, plevel := 0, ticks_used := 0, times_scheduled := 0, last_syscall_count := 0, pticks := [0, 0, 0, 0]\<rparr>"
  define s' where "s' = on_proc ?g c (on_proc (\<lambda>y. y\<lparr>pagetable := pt\<rparr>) c (s2\<lparr>km := m'\<rparr>))"
  have run: "allocproc h me s = Inr (Some c, s')"
    using find k(1,3) pp(1,2) by (simp add: allocproc_def s'_def s2_def m1_def allocpid_def Let_def)
  have e: "extended own (km s) own' m'" by (rule extended_trans [OF e1 pp(6)])
  have "own pt = Free" using pp(3) by (auto split: if_splits)
  have p': "km s' = m'" "fr s' = fr s" "swp s' = swp s" "nproc (sch s') = nproc (sch s)" "pagetable (proc_at s' c) = pt" "plevel (proc_at s' c) = 0"
    "trapframe (proc_at s' c) = x" "pid (proc_at s' c) = nextpid (sch s)" "pkilled (proc_at s' c) = pkilled (proc_at s c)" "pstate (proc_at s' c) = USED"
    using cl by (simp_all add: s'_def s2_def on_proc_def allocpid_def upd_proc_def)
  have q: "proc_at s' q = proc_at s q" if "q \<noteq> c" for q using that by (simp add: s'_def s2_def on_proc_def allocpid_def upd_proc_def)
  have "vm_ok h rinv own' xs' s'" using \<open>own pt = Free\<close> pp(2,4) by (intro new_process_ok [OF ok cl c pp(5) e _ _ _ p'(1-4) q p'(5,6)])
  moreover have "own' x = Kernel" using pp(6) by (simp add: extended_def)
  ultimately have "created c own xs s own' xs' s'" using p' q e pp(2,7,8) ox xs by (simp add: created_def)
  then show ?thesis using run p'(8-10) by blast
qed

end


section \<open>Fork\<close>

lemma tf_off_less: "tf_off r < 36"
  by (cases r) simp_all

lemma tf_off_inj: "tf_off r = tf_off r' \<Longrightarrow> r = r'"
  by (cases r; cases r'; simp)

text \<open>The fields of a copied trapframe.\<close>

lemma get64_copy:
  assumes "i < 36" "length src = page_bytes" "length pg = page_bytes"
  shows "get64 (put_bytes 0 (get_bytes 0 288 src) pg) i = get64 src i"
proof -
  have "take 8 (drop (8 * i) (take 288 src @ drop 288 pg)) = take 8 (drop (8 * i) src)"
    using assms by (simp add: drop_take)
  then show ?thesis using assms by (simp add: get64_def put_bytes_def get_bytes_def)
qed

context user_paging
begin

lemma vm_ok_sched:
  assumes ok: "vm_ok h rinv own xs s" and s': "km s' = km s" "fr s' = fr s" "swp s' = swp s" "nproc (sch s') = nproc (sch s)"
    and p: "\<And>q. q < nproc (sch s) \<Longrightarrow> pagetable (proc_at s' q) = pagetable (proc_at s q) \<and> plevel (proc_at s' q) = plevel (proc_at s q)"
  shows "vm_ok h rinv own xs s'" and "uaddr h s' q va \<longleftrightarrow> uaddr h s q va"
    and "uaddr h s q va \<Longrightarrow> pte_of h s' q va = pte_of h s q va \<and> upage h slot_data s' q va = upage h slot_data s q va"
proof -
  show u: "uaddr h s' q va \<longleftrightarrow> uaddr h s q va" for q va using s'(4) p [of q] by (auto simp: uaddr_def)
  show e: "pte_of h s' q va = pte_of h s q va \<and> upage h slot_data s' q va = upage h slot_data s q va" if "uaddr h s q va" for q va
    using that p [of q] s' by (simp add: uaddr_def upage_def)
  show "vm_ok h rinv own xs s'"
  proof (rule vm_okI)
    show "mem_ok h own xs (km s')" "frames_ok (fr s')" "rinv (swp s')" using vm_okD(1-3) [OF ok] s' by simp_all
    show "0 \<le> plevel (proc_at s' q) \<and> plevel (proc_at s' q) \<le> 3" if "q < nproc (sch s')" for q
      using vm_okD(4) [OF ok, of q] that s'(4) p [of q] by simp
    show "own (pagetable (proc_at s' q)) = Table (pagetable (proc_at s' q)) []" if "q < nproc (sch s')" "pagetable (proc_at s' q) \<noteq> 0" for q
      using vm_okD(5) [OF ok, of q] that s'(4) p [of q] by simp
    show "q = q'" if "q < nproc (sch s')" "q' < nproc (sch s')" "pagetable (proc_at s' q) \<noteq> 0" "pagetable (proc_at s' q) = pagetable (proc_at s' q')" for q q'
      using vm_okD(6) [OF ok, of q q'] that s'(4) p [of q] p [of q'] by simp
    show "uaddr h s' q va \<and> pte_of h s' q va AND PTE_V h = 0" if "find_swap q va (fr s') = Some k" for q va k
      using vm_okD(8) [OF ok, of q va k] that s'(2) u e by simp
    fix i q
    assume i: "tracked (fr s') i" "fproc (frame_table (fr s') ! i) = Some q"
    then show "q < nproc (sch s') \<and> page_aligned (fva (frame_table (fr s') ! i)) \<and> fva (frame_table (fr s') ! i) < MAXVA h
      \<and> (pagetable (proc_at s' q) \<noteq> 0 \<and> pte_of h s' q (fva (frame_table (fr s') ! i)) AND PTE_V h \<noteq> 0 \<longrightarrow>
           pte_of h s' q (fva (frame_table (fr s') ! i)) AND PTE_U h \<noteq> 0)"
      using vm_okD(7) [OF ok, of i q] s' p [of q] by simp
  qed
qed

lemma kernel_write:
  assumes ok: "vm_ok h rinv own xs s" and a: "own a = Kernel" and pg: "length pg = page_bytes"
  shows "vm_ok h rinv own xs (s\<lparr>km := set_page a pg (km s)\<rparr>)"
    and "uaddr h s q va \<Longrightarrow> pte_of h (s\<lparr>km := set_page a pg (km s)\<rparr>) q va = pte_of h s q va
       \<and> upage h slot_data (s\<lparr>km := set_page a pg (km s)\<rparr>) q va = upage h slot_data s q va"
proof -
  let ?s = "s\<lparr>km := set_page a pg (km s)\<rparr>"
  have "own a = Kernel \<or> (\<exists>r pth. own a = Frame r pth)" using a by blast
  note w = vm_ok_write [OF ok this pg]
  show "vm_ok h rinv own xs ?s" by (rule w(1))
  assume u: "uaddr h s q va"
  have "PTE2PA h (pte_of h s q va) \<noteq> a" if "user_pte h (pte_of h s q va)" using user_frame_role [OF ok u that] a by auto
  then show "pte_of h ?s q va = pte_of h s q va \<and> upage h slot_data ?s q va = upage h slot_data s q va"
    using w(2) [OF u] by (simp add: upage_def)
qed

lemma created_facts:
  assumes cr: "created c own xs s own' xs' s'" and ok: "vm_ok h rinv own xs s" and c: "c < nproc (sch s)" "pagetable (proc_at s c) = 0" "untracked c s"
  shows "uaddr h s q va \<Longrightarrow> q \<noteq> c \<and> uaddr h s' q va \<and> pte_of h s' q va = pte_of h s q va \<and> upage h slot_data s' q va = upage h slot_data s q va"
    and "space h q E own s \<Longrightarrow> space h q E own' s'"
    and "page_aligned va \<Longrightarrow> va < TRAPFRAME h \<Longrightarrow> untouched h c va s'" and "untracked c s'"
proof -
  show old: "q \<noteq> c \<and> uaddr h s' q va \<and> pte_of h s' q va = pte_of h s q va \<and> upage h slot_data s' q va = upage h slot_data s q va"
    if u: "uaddr h s q va" for q va
  proof -
    have qc: "q \<noteq> c" using u c(2) by (auto simp: uaddr_def)
    then have p: "proc_at s' q = proc_at s q" "nproc (sch s') = nproc (sch s)" using cr by (simp_all add: created_def)
    have pt: "pte_of h s' q va = pte_of h s q va" using cr u p vm_okD(5) [OF ok, of q] by (simp add: created_def extended_def uaddr_def)
    have "pm (km s') (PTE2PA h (pte_of h s q va)) = pm (km s) (PTE2PA h (pte_of h s q va))" if "user_pte h (pte_of h s q va)"
      using cr user_frame_role [OF ok u that] by (simp add: created_def extended_def)
    then have "upage h slot_data s' q va = upage h slot_data s q va" using pt cr by (simp add: upage_def created_def)
    then show ?thesis using qc pt u p by (simp add: uaddr_def)
  qed
  show "space h q E own' s'" if sp: "space h q E own s"
    unfolding space_def
  proof
    fix va
    assume "va \<in> E"
    then have u: "uaddr h s q va" "framed h own s q va" using sp by (simp_all add: space_def)
    have "proc_at s' q = proc_at s q" using old [OF u(1)] cr by (simp add: created_def)
    moreover have "own' pa = own pa" if "own pa = Frame r pth" for pa r pth using cr that by (simp add: created_def extended_def)
    ultimately show "uaddr h s' q va \<and> framed h own' s' q va" using old [OF u(1)] u(2) unfolding framed_def by metis
  qed
  show "untracked c s'" using c(3) cr by (simp add: created_def untracked_def)
  assume va: "page_aligned va" "va < TRAPFRAME h"
  have "va < MAXVA h" using va(2) top_addresses(3,4) by simp
  moreover have "find_swap c va (fr s) = None" using vm_okD(8) [OF ok, of c va] c(2) by (cases "find_swap c va (fr s)") (auto simp: uaddr_def)
  ultimately show "untouched h c va s'" using cr va c(1) by (simp add: untouched_def created_def uaddr_def)
qed

text \<open>
  The child \<open>c\<close> of \<open>p\<close>: its registers are those of the parent but for the return value, its pages are the parent's, and no other
  process has changed.
\<close>

definition forked :: "nat \<Rightarrow> nat \<Rightarrow> (u64 \<Rightarrow> role) \<Rightarrow> 'd vm \<Rightarrow> (u64 \<Rightarrow> role) \<Rightarrow> u64 list \<Rightarrow> 'd vm \<Rightarrow> bool" where
  "forked p c own s own' xs' s' \<longleftrightarrow>
     vm_ok h rinv own' xs' s' \<and> nproc (sch s') = nproc (sch s) \<and> (\<forall>q. q \<noteq> c \<longrightarrow> proc_at s' q = proc_at s q)
   \<and> (\<forall>q va. uaddr h s q va \<longrightarrow> upage h slot_data s' q va = upage h slot_data s q va)
   \<and> copied h slot_data p c (pages_in 0 (psz (proc_at s p))) s s' \<and> psz (proc_at s' c) = psz (proc_at s p)
   \<and> (\<forall>r. tf_get c r s' = (if r = TF_a0 then 0 else tf_get p r s))
   \<and> pid (proc_at s' c) = nextpid (sch s) \<and> parent (proc_at s' c) = Some p \<and> pstate (proc_at s' c) = RUNNABLE"

text \<open>The part of \<open>kfork\<close> after \<open>uvmcopy\<close>, as one change of the state.\<close>

lemma kfork_end:
  assumes c: "c < nproc (sch s)" "p \<noteq> c"
  defines "tf \<equiv> trapframe (proc_at s c)"
  defines "pg \<equiv> put64 (tf_off TF_a0) 0 (put_bytes 0 (get_bytes 0 288 (pm (km s) (trapframe (proc_at s p)))) (pm (km s) tf))"
  shows "(let s3 = on_proc (\<lambda>x. x\<lparr>psz := psz (proc_at s p)\<rparr>) c s;
              tf = trapframe (proc_at s3 c);
              s4 = s3\<lparr>km := set_page tf (put_bytes 0 (get_bytes 0 288 (pm (km s3) (trapframe (proc_at s3 p)))) (pm (km s3) tf)) (km s3)\<rparr>;
              s5 = tf_set c TF_a0 0 s4;
              s6 = on_proc (\<lambda>x. x\<lparr>pname := cp (pname (proc_at s5 p))\<rparr>) c s5;
              s7 = on_proc (\<lambda>x. x\<lparr>parent := Some p\<rparr>) c s6;
              s8 = on_proc (\<lambda>x. x\<lparr>pstate := RUNNABLE\<rparr>) c s7
          in Inr (pid (proc_at s6 c), s8) :: (int \<times> 'd vm) res)
     = Inr (pid (proc_at s c), on_proc (\<lambda>x. x\<lparr>psz := psz (proc_at s p), pname := cp (pname (proc_at s p)), parent := Some p, pstate := RUNNABLE\<rparr>) c
         (s\<lparr>km := set_page tf pg (km s)\<rparr>))"
  using c by (simp add: tf_set_def on_proc_def upd_proc_def set_page_def Let_def tf_def pg_def)

lemma forked_end:
  fixes z :: u64 and nm :: string
  assumes ok: "vm_ok h rinv own xs s" and c: "c < nproc (sch s)" "p \<noteq> c" and tf: "own (trapframe (proc_at s c)) = Kernel" "own (trapframe (proc_at s p)) = Kernel"
  defines "pg \<equiv> put64 (tf_off TF_a0) 0 (put_bytes 0 (get_bytes 0 288 (pm (km s) (trapframe (proc_at s p)))) (pm (km s) (trapframe (proc_at s c))))"
  defines "s' \<equiv> on_proc (\<lambda>x. x\<lparr>psz := z, pname := nm, parent := Some p, pstate := RUNNABLE\<rparr>) c (s\<lparr>km := set_page (trapframe (proc_at s c)) pg (km s)\<rparr>)"
  shows "vm_ok h rinv own xs s'"
    and "uaddr h s q va \<Longrightarrow> pte_of h s' q va = pte_of h s q va \<and> upage h slot_data s' q va = upage h slot_data s q va"
    and "tf_get c r s' = (if r = TF_a0 then 0 else tf_get p r s)"
proof -
  let ?tf = "trapframe (proc_at s c)" and ?s1 = "s\<lparr>km := set_page (trapframe (proc_at s c)) pg (km s)\<rparr>"
  note mo = vm_okD(1) [OF ok]
  have len: "length (pm (km s) ?tf) = page_bytes" "length (pm (km s) (trapframe (proc_at s p))) = page_bytes"
    using mem_okD(4) [OF mo, of ?tf] mem_okD(4) [OF mo, of "trapframe (proc_at s p)"] tf by simp_all
  then have lb: "length (put_bytes 0 (get_bytes 0 288 (pm (km s) (trapframe (proc_at s p)))) (pm (km s) ?tf)) = page_bytes"
    by (simp add: get_bytes_def)
  then have pg: "length pg = page_bytes" by (simp add: pg_def)
  note w = kernel_write [OF ok tf(1) pg]
  note sc = vm_ok_sched [of own xs ?s1 s']
  show "vm_ok h rinv own xs s'" using w(1) by (rule sc(1)) (simp_all add: s'_def on_proc_nth)
  show "pte_of h s' q va = pte_of h s q va \<and> upage h slot_data s' q va = upage h slot_data s q va" if "uaddr h s q va"
  proof -
    have "uaddr h ?s1 q va" using that by (simp add: uaddr_def)
    then have "pte_of h s' q va = pte_of h ?s1 q va \<and> upage h slot_data s' q va = upage h slot_data ?s1 q va"
      by (rule sc(3) [OF w(1), rotated -1]) (simp_all add: s'_def on_proc_nth)
    then show ?thesis using w(2) [OF that] by simp
  qed
  have "tf_get c r s' = get64 pg (tf_off r)" using c(1) by (simp add: tf_get_def s'_def on_proc_nth)
  also have "\<dots> = (if r = TF_a0 then 0 else get64 (pm (km s) (trapframe (proc_at s p))) (tf_off r))"
    using get64_put64 [of 14 _ "tf_off r" 0] get64_copy [OF tf_off_less len(2,1)] lb tf_off_less [of r] tf_off_inj [of r TF_a0]
    by (auto simp: pg_def)
  finally show "tf_get c r s' = (if r = TF_a0 then 0 else tf_get p r s)" by (simp add: tf_get_def)
qed

lemma kfork_spec:
  assumes ok: "vm_ok h rinv own xs s" and p: "p < nproc (sch s)" "pagetable (proc_at s p) \<noteq> 0" "psz (proc_at s p) \<le> TRAPFRAME h"
      "space h p (pages_in 0 (psz (proc_at s p))) own s" "own (trapframe (proc_at s p)) = Kernel"
    and find: "find_idx (\<lambda>x. pstate x = UNUSED) (procs (sch s)) = Some c" and c: "pagetable (proc_at s c) = 0" "untracked c s"
    and tramp: "page_aligned (trampoline h)" "trampoline h < 2 ^ 56"
    and room: "6 + 3 * Suc (unat (psz (proc_at s p)) div page_bytes) \<le> length xs" "Suc (unat (psz (proc_at s p)) div page_bytes) \<le> free_slots (fr s)"
  shows "\<exists>s' own' xs'. kfork h so cp p s = Inr (nextpid (sch s), s') \<and> forked p c own s own' xs' s'"
proof -
  let ?sz = "psz (proc_at s p)" and ?E = "pages_in 0 (psz (proc_at s p))"
  have pc: "p \<noteq> c" using p(2) c(1) by auto
  have cl: "c < nproc (sch s)" using find_idx_SomeD [OF find] by simp
  obtain s1 own1 xs1 where 1: "allocproc h (Some p) s = Inr (Some c, s1)" "created c own xs s own1 xs1 s1" "pid (proc_at s1 c) = nextpid (sch s)"
    using allocproc_spec [OF ok find c _ tramp, of "Some p"] room(1) by auto
  note cf = created_facts [OF 1(2) ok cl c]
  have ok1: "vm_ok h rinv own1 xs1 s1" and n1: "nproc (sch s1) = nproc (sch s)" "\<And>q. q \<noteq> c \<Longrightarrow> proc_at s1 q = proc_at s q"
    and tf1: "own1 (trapframe (proc_at s1 c)) = Kernel" "pagetable (proc_at s1 c) \<noteq> 0" "length xs \<le> length xs1 + 6" "fr s1 = fr s" "own1 (trapframe (proc_at s p)) = Kernel"
    "pm (km s1) (trapframe (proc_at s p)) = pm (km s) (trapframe (proc_at s p))"
    using 1(2) p(5) by (simp_all add: created_def extended_def)
  have p1: "proc_at s1 p = proc_at s p" using n1(2) pc by simp
  have un: "\<forall>va \<in> ?E. untouched h c va s1" using cf(3) p(3) by (auto simp: pages_in_def)
  have szM: "?sz \<le> MAXVA h" using p(3) top_addresses(3,4) by simp
  obtain r s2 own2 xs2 where 2: "uvmcopy h so (Some p) (pagetable (proc_at s1 p)) (pagetable (proc_at s1 c)) ?sz c s1 = Inr (r, s2)"
    "changed h slot_data rinv c ?E own1 s1 own2 xs2 s2"
    "r = 0 \<and> copied h slot_data p c ?E s1 s2 \<and> space h c ?E own2 s2 \<or> r = -1 \<and> (\<forall>va \<in> ?E. pte_of h s2 c va AND PTE_V h = 0)
          \<and> (length xs1 < 3 * Suc (unat ?sz div page_bytes) \<or> free_slots (fr s1) < Suc (unat ?sz div page_bytes))"
    using uvmcopy_spec [OF ok1 cf(2) [OF p(4)] un cf(4) szM] p(1) cl n1(1) pc tf1(2) by auto
  have r: "r = 0" and co: "copied h slot_data p c ?E s1 s2" using 2(3) room tf1(3,4) by auto
  have sc2: "sch s2 = sch s1" by (rule changedD(2) [OF 2(2)])
  have tf2: "own2 (trapframe (proc_at s2 c)) = Kernel" "own2 (trapframe (proc_at s2 p)) = Kernel"
    using changedD(6) [OF 2(2)] tf1 sc2 p1 by simp_all
  have pc2: "c < nproc (sch s2)" "proc_at s2 p = proc_at s p" using cl sc2 n1(1) p1 by simp_all
  define s' where "s' = on_proc (\<lambda>x. x\<lparr>psz := ?sz, pname := cp (pname (proc_at s p)), parent := Some p, pstate := RUNNABLE\<rparr>) c
     (s2\<lparr>km := set_page (trapframe (proc_at s2 c)) (put64 (tf_off TF_a0) 0 (put_bytes 0 (get_bytes 0 288
        (pm (km s2) (trapframe (proc_at s2 p)))) (pm (km s2) (trapframe (proc_at s2 c))))) (km s2)\<rparr>)"
  have run: "kfork h so cp p s = Inr (nextpid (sch s), s')"
    unfolding kfork_def using 1(1,3) 2(1) r kfork_end [OF pc2(1) pc, of cp] pc2(2) p1 sc2 by (simp add: s'_def)
  note fe = forked_end [where z = ?sz and nm = "cp (pname (proc_at s p))", OF changedD(1) [OF 2(2)] pc2(1) pc tf2, folded s'_def]
  have "upage h slot_data s' q va = upage h slot_data s q va" if u: "uaddr h s q va" for q va
  proof -
    note u1 = cf(1) [OF u]
    then have "uaddr h s2 q va" using changedD(7) [OF 2(2)] by simp
    then show ?thesis using fe(2) u1 changedD(4) [OF 2(2), of q va] by simp
  qed
  moreover have "copied h slot_data p c ?E s s'"
    unfolding copied_def
  proof
    fix va
    assume va: "va \<in> ?E"
    have u: "uaddr h s p va" "uaddr h s2 c va" using va p(4) un changedD(7) [OF 2(2)] by (simp_all add: space_def untouched_def)
    show "upage h slot_data s' c va = upage h slot_data s p va
      \<and> (user_pte h (pte_of h s p va) \<longrightarrow> PTE_FLAGS h (pte_of h s' c va) = PTE_FLAGS h (pte_of h s p va))"
      using co va fe(2) [OF u(2)] cf(1) [OF u(1)] by (simp add: copied_def)
  qed
  moreover have "tf_get p r s2 = tf_get p r s" for r
    using changedD(6) [OF 2(2) tf1(5)] tf1(6) pc2(2) by (simp add: tf_get_def)
  ultimately have "forked p c own s own2 xs2 s'"
    using fe(1,3) pc2(1) sc2 n1 1(3) by (simp add: forked_def) (simp add: s'_def on_proc_nth)
  then show ?thesis using run by blast
qed

end


section \<open>Properties\<close>


text \<open>A system of two slots of processes: one process with two pages, of which page 0 is in the swap area, and fifteen free pages.\<close>

definition fork_free :: "u64 list" where
  "fork_free = map (\<lambda>i. 2147688448 + of_nat i * 4096) [0..<15]"

definition fork_mem :: kmem where
  "fork_mem = \<lparr>pm = (\<lambda>a. if a \<in> set (butlast fork_free) then put64 0 (a + 4096) (replicate page_bytes 0) else replicate page_bytes 0),
     freelist = 2147688448\<rparr>"

definition fork_own :: "u64 \<Rightarrow> role" where
  "fork_own a = (if a = 2147680256 then Table 2147680256 [] else if a = 2147684352 then Kernel else if a \<in> set fork_free then Free else Unowned)"

definition fork_vm :: "blk_dev disk bio raid vm" where
  "fork_vm = \<lparr>km = fork_mem, fr = small_frames,
     sch = (sch small_vm)\<lparr>procs := [(proc_at small_vm 0)\<lparr>trapframe := 2147684352\<rparr>,
       (proc_at small_vm 0)\<lparr>pstate := UNUSED, pid := 0, pagetable := 0, psz := 0\<rparr>]\<rparr>,
     swp = boot_stack RAID5\<rparr>"

lemma fork_mem_ok: "mem_ok riscv_std fork_own fork_free fork_mem"
proof -
  have u: "fork_free = [2147688448, 2147692544, 2147696640, 2147700736, 2147704832, 2147708928, 2147713024, 2147717120, 2147721216,
      2147725312, 2147729408, 2147733504, 2147737600, 2147741696, 2147745792]"
    by (simp add: fork_free_def upt_conv_Cons)
  have "free_list riscv_std fork_mem fork_free"
    by (simp add: u free_list_def fork_mem_def get64_put64 phys_ok_def page_aligned_unat riscv_std_def)
  moreover have "phys_ok riscv_std a" if "fork_own a \<noteq> Unowned" for a
    using that by (auto simp: fork_own_def u phys_ok_def page_aligned_unat riscv_std_def split: if_splits)
  moreover have "length (pm fork_mem a) = page_bytes" for a by (simp add: fork_mem_def)
  moreover have "pte_val fork_mem (2147680256, i) = 0" for i by (simp add: pte_val_def fork_mem_def u)
  moreover have "2147680256 \<notin> set fork_free" "2147684352 \<notin> set fork_free" by (simp_all add: u)
  ultimately show ?thesis by (intro mem_okI) (auto simp: fork_own_def entry_ok_def split: if_splits)
qed

lemma fork_pte: "pte_at riscv_std fork_mem 2147680256 va = 0"
proof -
  have "2147680256 \<notin> set (butlast fork_free)" by (simp add: fork_free_def upt_conv_Cons)
  then show ?thesis by (simp add: pte_at_def leaf_slot_def next_table_def pte_val_def fork_mem_def)
qed

lemma fork_untracked: "\<not> tracked (fr fork_vm) i"
  by (auto simp: tracked_def fork_vm_def small_frames_def kinit_frames_def no_frame_def)

lemma fork_procs:
  "nproc (sch fork_vm) = 2" "pagetable (proc_at fork_vm 0) = 2147680256" "psz (proc_at fork_vm 0) = 8192" "plevel (proc_at fork_vm 0) = 0"
  "trapframe (proc_at fork_vm 0) = 2147684352" "pagetable (proc_at fork_vm 1) = 0" "plevel (proc_at fork_vm 1) = 0" "nextpid (sch fork_vm) = 2"
  "find_idx (\<lambda>x. pstate x = UNUSED) (procs (sch fork_vm)) = Some 1" "pid (proc_at fork_vm 0) = 1" "pid (proc_at fork_vm 1) = 0"
  by (simp_all add: fork_vm_def small_vm_def)

lemma fork_vm_ok: "vm_ok riscv_std (stack_rinv 1024 dv_img dv_seen (\<lambda>d. True) 512 1) fork_own fork_free fork_vm"
proof (rule vm_okI)
  show "mem_ok riscv_std fork_own fork_free (km fork_vm)" using fork_mem_ok by (simp add: fork_vm_def)
  show "frames_ok (fr fork_vm)" using small_frames_ok by (simp add: fork_vm_def)
  show "stack_rinv 1024 dv_img dv_seen (\<lambda>d. True) 512 1 (swp fork_vm)"
    using boot_stack_inv [of 1] by (simp add: stack_rinv_def fork_vm_def)
  fix p va k
  assume f: "find_swap p va (fr fork_vm) = Some k"
  have "k < MAX_SWAP_PAGES \<and> sused (swap_map small_frames ! k) \<and> sproc (swap_map small_frames ! k) = Some p \<and> sva (swap_map small_frames ! k) = va"
    using find_swap_Some [OF small_frames_ok, of p va k] f by (simp add: fork_vm_def)
  then have "p = 0 \<and> va = 0" by (auto simp: small_swap_map split: if_splits)
  moreover have "pte_of riscv_std fork_vm 0 0 = 0" using fork_pte fork_procs(2) by (simp add: fork_vm_def)
  ultimately show "uaddr riscv_std fork_vm p va \<and> pte_of riscv_std fork_vm p va AND PTE_V riscv_std = 0"
    using fork_procs by (simp add: uaddr_def) (simp add: riscv_std_def)
next
  fix p
  assume "p < nproc (sch fork_vm)"
  then have p: "p = 0 \<or> p = 1" using fork_procs(1) by auto
  then show "0 \<le> plevel (proc_at fork_vm p) \<and> plevel (proc_at fork_vm p) \<le> 3" using fork_procs by auto
  show "fork_own (pagetable (proc_at fork_vm p)) = Table (pagetable (proc_at fork_vm p)) []" if "pagetable (proc_at fork_vm p) \<noteq> 0"
    using p that fork_procs by (auto simp: fork_own_def)
  show "p = q" if "q < nproc (sch fork_vm)" "pagetable (proc_at fork_vm p) \<noteq> 0" "pagetable (proc_at fork_vm p) = pagetable (proc_at fork_vm q)" for q
  proof -
    have "q = 0 \<or> q = 1" using that(1) fork_procs(1) by auto
    then show ?thesis using p that fork_procs by auto
  qed
qed (use fork_untracked in blast)


text \<open>
  C38: A process born killed. Unused slots of the process table have pid 0, so \<open>kkill\<close> of pid 0 succeeds and marks an unused slot as killed;
  \<open>allocproc\<close> does not clear the mark, and the next process, which has a pid of its own, starts out killed.
\<close>

theorem kill_zero_kills_next_process:
  assumes "sv39 h" "page_aligned (trampoline h)" "trampoline h < 2 ^ 56" "swap_stack vh dev img seen dinv capacity bs rows"
    and "vm_ok h (stack_rinv bs img seen dinv rows rootdev) own xs s" "6 \<le> length xs"
    and "find_idx (\<lambda>x. pstate x = UNUSED) (procs (sch s)) = Some c" "pagetable (proc_at s c) = 0" "untracked c s"
    and "find_idx (\<lambda>x. pid x = 0) (procs (sch s)) = Some c"
  shows "\<exists>sc s'. kkill 0 (sch s) = (0, sc) \<and> allocproc h (Some p) (s\<lparr>sch := sc\<rparr>) = Inr (Some c, s')
     \<and> pid (proc_at s' c) = nextpid (sch s) \<and> killed c (sch s') = 1"
proof -
  note up = stack_paging [OF assms(1,4), of 0 "\<lambda>p. 0" None rootdev]
  let ?g = "\<lambda>p. let p1 = p\<lparr>pkilled := 1\<rparr> in if pstate p1 = SLEEPING then p1\<lparr>pstate := RUNNABLE\<rparr> else p1"
  define sc where "sc = upd_proc c ?g (sch s)"
  let ?s = "s\<lparr>sch := sc\<rparr>"
  have c: "c < nproc (sch s)" "pstate (proc_at s c) = UNUSED" using find_idx_SomeD [OF assms(7)] by simp_all
  have nth: "procs sc ! q = (if q = c then (proc_at s c)\<lparr>pkilled := 1\<rparr> else proc_at s q)" for q
    using c by (cases "q = c") (simp_all add: sc_def upd_proc_def)
  have n: "nproc sc = nproc (sch s)" "nextpid sc = nextpid (sch s)" by (simp_all add: sc_def)
  have ok: "vm_ok h (stack_rinv bs img seen dinv rows rootdev) own xs ?s"
    by (rule user_paging.vm_ok_sched(1) [OF up assms(5)]) (simp_all add: nth n)
  have "find_idx (\<lambda>x. pstate x = UNUSED) (procs sc) = find_idx (\<lambda>x. pstate x = UNUSED) (procs (sch s))"
    using nth n c by (intro find_idx_nth_cong) auto
  with assms(7) have f: "find_idx (\<lambda>x. pstate x = UNUSED) (procs (sch ?s)) = Some c" by simp
  have "pagetable (proc_at ?s c) = 0" "untracked c ?s" using nth assms(8,9) by (simp_all add: untracked_def)
  from user_paging.allocproc_spec [OF up ok f this assms(6,2,3), of "Some p"] nth [of c] n
  obtain s' where "allocproc h (Some p) ?s = Inr (Some c, s')" "pid (proc_at s' c) = nextpid (sch s)" "killed c (sch s') = 1"
    by (auto simp: killed_def)
  moreover have "kkill 0 (sch s) = (0, sc)" using assms(10) by (simp add: kkill_def sc_def)
  ultimately show ?thesis by blast
qed

theorem kill_zero_kills_next_process_witness:
  "\<exists>sc s'. kkill 0 (sch fork_vm) = (0, sc) \<and> allocproc riscv_std (Some 0) (fork_vm\<lparr>sch := sc\<rparr>) = Inr (Some 1, s')
     \<and> pid (proc_at s' 1) = 2 \<and> killed 1 (sch s') = 1"
proof -
  have "untracked 1 fork_vm" using fork_untracked by (simp add: untracked_def)
  moreover have "length fork_free = 15" by (simp add: fork_free_def)
  moreover have "page_aligned (trampoline riscv_std)" "trampoline riscv_std < 2 ^ 56" by (simp_all add: riscv_std_def page_aligned_def)
  moreover have "find_idx (\<lambda>x. pid x = 0) (procs (sch fork_vm)) = Some 1" by (simp add: fork_vm_def small_vm_def)
  ultimately show ?thesis
    using kill_zero_kills_next_process [OF std39.sv39_axioms _ _ xv6.swap_stack_axioms fork_vm_ok, of 1 0] fork_procs by auto
qed

end
