(* ===== verification/Syscall_Effects.thy ===== *)
theory Syscall_Effects
  imports Syscalls Fork
begin

text \<open>
  The size of a process: what \<open>uvmdealloc\<close> and \<open>uvmalloc\<close> of \<open>kernel/vm.c\<close>, \<open>growproc\<close> of \<open>kernel/proc.c\<close> and \<open>sys_sbrk\<close> of
  \<open>kernel/sysproc.c\<close> do to its memory. A process has pages only below its size, rounded up to pages. Then the answer of \<open>syscall\<close> to an unknown
  number, and the waiting time of \<open>sys_sleep\<close>.
\<close>

section \<open>Addresses\<close>

context sv39
begin

lemma roundup_bounds:
  assumes "a \<le> b" "page_aligned b" "b \<le> MAXVA h"
  shows "a \<le> PGROUNDUP h a" "PGROUNDUP h a \<le> b" "unat (PGROUNDUP h a) < unat a + 4096"
proof -
  have m: "MAXVA h \<le> 2 ^ 56" using maxva(2) by (simp add: order_trans)
  obtain j where j: "unat b = 4096 * j" using assms(2) unfolding page_aligned_unat dvd_def by blast
  have u: "unat (PGROUNDUP h a) = (unat a + 4095) div 4096 * 4096" using assms(1,3) m by (intro pgroundup_unat) simp
  show "a \<le> PGROUNDUP h a" "unat (PGROUNDUP h a) < unat a + 4096" using u by (simp_all add: word_le_nat_alt)
  have "unat a \<le> 4096 * j" using assms(1) j by (simp add: word_le_nat_alt)
  then show "PGROUNDUP h a \<le> b" using u j by (simp add: word_le_nat_alt)
qed

lemma roundup_id: "page_aligned a \<Longrightarrow> a \<le> MAXVA h \<Longrightarrow> PGROUNDUP h a = a"
  using roundup_bounds [of a a] by simp

lemma roundup_mono: "a \<le> b \<Longrightarrow> b \<le> MAXVA h \<Longrightarrow> PGROUNDUP h a \<le> PGROUNDUP h b"
  using roundup_bounds(1,2) [of b "MAXVA h"] roundup_bounds(2) [of a "PGROUNDUP h b"] maxva(3) by simp

lemma pages_in_roundup:
  assumes "e \<le> MAXVA h"
  shows "pages_in a (PGROUNDUP h e) = pages_in a e"
proof -
  note e = roundup_bounds [OF assms maxva(3) order_refl]
  have "va < e" if "page_aligned va" "va < PGROUNDUP h e" for va
  proof (rule ccontr)
    assume "\<not> va < e"
    then have "e \<le> va" by (rule leI)
    moreover have "va \<le> MAXVA h" using that(2) e(2) by simp
    ultimately show False using roundup_bounds(2) [OF _ that(1)] that(2) by (simp add: leD)
  qed
  then show ?thesis using e(1) by (auto simp: pages_in_def)
qed

end


text \<open>
  A process has frames at its own places below its size, and nothing between its size and its trapframe. \<open>sbrk_size\<close> is the size that
  \<open>sbrk\<close> sets: a process cannot shrink below 0.
\<close>

definition user_space :: "riscv_h \<Rightarrow> nat \<Rightarrow> (u64 \<Rightarrow> role) \<Rightarrow> 'd vm \<Rightarrow> bool" where
  "user_space h p own s \<longleftrightarrow> p < nproc (sch s) \<and> pagetable (proc_at s p) \<noteq> 0 \<and> psz (proc_at s p) \<le> TRAPFRAME h
   \<and> space h p (pages_in 0 (psz (proc_at s p))) own s
   \<and> (\<forall>va \<in> pages_in (PGROUNDUP h (psz (proc_at s p))) (TRAPFRAME h). untouched h p va s)"

definition sbrk_size :: "u64 \<Rightarrow> int \<Rightarrow> u64" where
  "sbrk_size sz n = (if uint sz + n < 0 then sz else sz + of_int n)"

lemma size_plus:
  fixes sz :: u64
  assumes "sz \<le> 2 ^ 39" "- (2 ^ 31) \<le> n" "n < 2 ^ 31"
  shows "0 \<le> uint sz + n \<Longrightarrow> uint (sz + of_int n) = uint sz + n" and "uint sz + n < 0 \<Longrightarrow> sz \<le> sz + of_int n"
proof -
  have b: "uint sz \<le> 2 ^ 39" "0 \<le> uint sz" using assms(1) by (simp_all add: word_le_def)
  have u: "uint (sz + of_int n) = (uint sz + n) mod 2 ^ 64" by (simp add: uint_word_ariths uint_word_of_int mod_simps)
  show "uint (sz + of_int n) = uint sz + n" if "0 \<le> uint sz + n" using u that b assms by (simp add: mod_pos_pos_trivial)
  have "(uint sz + n) mod 2 ^ 64 = uint sz + n + 2 ^ 64" if "uint sz + n < 0"
  proof -
    have "(uint sz + n + 2 ^ 64) mod 2 ^ 64 = uint sz + n + 2 ^ 64" using that assms(2) by (intro mod_pos_pos_trivial; simp; use uint_ge_0 [of sz] in linarith)
    then show ?thesis by (simp only: mod_add_self2)
  qed
  then show "sz \<le> sz + of_int n" if "uint sz + n < 0" using u that b assms by (simp add: word_le_def)
qed


section \<open>Shrinking and growing\<close>

context user_paging
begin

lemma tf_set_ok:
  assumes ok: "vm_ok h rinv own xs s" and tf: "own (trapframe (proc_at s p)) = Kernel"
  shows "vm_ok h rinv own xs (tf_set p r w s)" and "sch (tf_set p r w s) = sch s"
    and "uaddr h s q va \<Longrightarrow> pte_of h (tf_set p r w s) q va = pte_of h s q va \<and> upage h slot_data (tf_set p r w s) q va = upage h slot_data s q va"
    and "tf_get p r' (tf_set p r w s) = (if r' = r then w else tf_get p r' s)"
proof -
  let ?tf = "trapframe (proc_at s p)"
  have len: "length (pm (km s) ?tf) = page_bytes" using mem_okD(4) [OF vm_okD(1) [OF ok], of ?tf] tf by simp
  then have pg: "length (put64 (tf_off r) w (pm (km s) ?tf)) = page_bytes" using tf_off_less [of r] by simp
  note k = kernel_write [OF ok tf pg]
  show "vm_ok h rinv own xs (tf_set p r w s)" using k(1) by (simp add: tf_set_def Let_def)
  show "sch (tf_set p r w s) = sch s" by (simp add: tf_set_def Let_def)
  show "pte_of h (tf_set p r w s) q va = pte_of h s q va \<and> upage h slot_data (tf_set p r w s) q va = upage h slot_data s q va" if "uaddr h s q va"
    using k(2) [OF that] by (simp add: tf_set_def Let_def)
  show "tf_get p r' (tf_set p r w s) = (if r' = r then w else tf_get p r' s)"
    using get64_put64 [of "tf_off r" "pm (km s) ?tf" "tf_off r'" w] len tf_off_less [of r] tf_off_less [of r'] tf_off_inj [of r' r]
    by (auto simp: tf_get_def tf_set_def Let_def)
qed

lemma uvmdealloc_spec:
  assumes ok: "vm_ok h rinv own xs s" and sp: "space h p (pages_in (PGROUNDUP h new) (PGROUNDUP h old)) own s"
    and le: "new \<le> old" "old \<le> MAXVA h"
  shows "\<exists>s' own' xs'. uvmdealloc h (Some p) (pagetable (proc_at s p)) old new s = Inr (new, s')
     \<and> changed h slot_data rinv p (pages_in (PGROUNDUP h new) (PGROUNDUP h old)) own s own' xs' s'
     \<and> (\<forall>va \<in> pages_in (PGROUNDUP h new) (PGROUNDUP h old). untouched h p va s')"
proof (cases "PGROUNDUP h new < PGROUNDUP h old")
  case False
  then have "pages_in (PGROUNDUP h new) (PGROUNDUP h old) = {}" by (rule pages_in_empty)
  moreover have "uvmdealloc h (Some p) (pagetable (proc_at s p)) old new s = Inr (new, s)"
    using le(1) False by (auto simp: uvmdealloc_def)
  ultimately show ?thesis using changed_refl [OF ok, of slot_data p "{}"] by auto
next
  case True
  let ?a = "PGROUNDUP h new" and ?b = "PGROUNDUP h old"
  define n where "n = (?b - ?a) div 4096"
  have bM: "?b \<le> MAXVA h" by (rule roundup_bounds(2) [OF le(2) maxva(3) order_refl])
  obtain i j where ij: "unat ?a = 4096 * i" "unat ?b = 4096 * j"
    using pgroundup_aligned [of new] pgroundup_aligned [of old] unfolding page_aligned_unat dvd_def by blast
  have lt: "unat ?a < unat ?b" "unat ?b \<le> unat (MAXVA h)" "unat (MAXVA h) \<le> 2 ^ 39"
    using True bM maxva(2) by (simp_all add: word_less_nat_alt word_le_nat_alt)
  have n: "unat n = j - i" using ij lt by (simp add: n_def unat_div unat_sub word_le_nat_alt diff_mult_distrib2 [symmetric])
  have e: "?a + n * 4096 = ?b" using n ij lt by (simp add: word_unat_eq_iff unat_word_ariths diff_mult_distrib)
  have "uint n < 2 ^ 31" using n ij lt by (simp add: uint_nat)
  then have "c_int (uint n) = uint n" using uint_ge_0 [of n] by (intro c_int_id) linarith+
  then have c: "of_int (c_int (uint n)) = n" by simp
  have "new < old" using True le(1) by (cases "new = old") simp_all
  then have run: "uvmdealloc h (Some p) (pagetable (proc_at s p)) old new s
      = rbind (uvmunmap h (Some p) (pagetable (proc_at s p)) ?a n True s) (\<lambda>s1. Inr (new, s1))"
    using True c by (auto simp: uvmdealloc_def n_def)
  have "unat ?a + unat n * 4096 \<le> unat (MAXVA h)" using n ij lt by simp
  then obtain s' own' xs' where u: "uvmunmap h (Some p) (pagetable (proc_at s p)) ?a n True s = Inr s'"
    "changed h slot_data rinv p (pages_in ?a ?b) own s own' xs' s'"
    "\<forall>va \<in> pages_in ?a ?b. pte_of h s' p va AND PTE_V h = 0 \<and> find_swap p va (fr s') = None"
    using uvmunmap_spec [where who = "Some p" and me = "Some p" and n = n and c = p and va = ?a, OF ok, unfolded e, OF sp] by auto
  have "untouched h p va s'" if "va \<in> pages_in ?a ?b" for va
    using that u(3) sp changedD(7) [OF u(2)] by (simp add: untouched_def space_def)
  then show ?thesis using run u(1,2) by auto
qed

text \<open>One round of \<open>uvmalloc\<close>: a zero page is mapped, or the loop ends with nothing mapped at the address.\<close>

lemma uvmalloc_step:
  assumes ok: "vm_ok h rinv own xs s" and u: "untouched h p i s" and i: "i < new"
    and fl: "PTE_R h OR PTE_U h OR xperm < 1024" "(PTE_R h OR PTE_U h OR xperm) AND PTE_U h \<noteq> 0" "(PTE_R h OR PTE_U h OR xperm) OR PTE_V h < 1024"
    and pt: "pt = pagetable (proc_at s p)"
  shows "\<exists>b s1 own1 xs1. uvmalloc_loop h me pt old new xperm (Suc n) i s
       = (if b then uvmalloc_loop h me pt old new xperm n (i + 4096) s1 else rbind (uvmdealloc h me pt i old s1) (\<lambda>(_, s2). Inr (0, s2)))
     \<and> changed h slot_data rinv p {i} own s own1 xs1 s1
     \<and> (if b then framed h own1 s1 p i \<and> upage h slot_data s1 p i = Some (replicate page_bytes 0) \<and> length xs \<le> length xs1 + 3
        else untouched h p i s1 \<and> length xs < 3)"
proof (cases xs)
  case Nil
  then have "kalloc (km s) = (0, km s)" using kalloc_empty mem_okD(1) [OF vm_okD(1) [OF ok]] by simp
  then show ?thesis using changed_refl [OF ok] u i Nil by (intro exI [of _ False] exI [of _ s] exI [of _ own] exI [of _ xs]) simp
next
  case (Cons x xs1)
  let ?fl = "PTE_R h OR PTE_U h OR xperm"
  note ok' = ok [unfolded Cons]
  note mo = vm_okD(1) [OF ok']
  note x = kalloc_pop [OF mem_okD(1) [OF mo]]
  have pg: "length (replicate page_bytes (0::u8)) = page_bytes" by simp
  define m2 where "m2 = (km s)\<lparr>freelist := get64 (pm (km s) x) 0, pm := (pm (km s))(x := replicate page_bytes 0)\<rparr>"
  have run: "uvmalloc_loop h me pt old new xperm (Suc n) i s
     = rbind (mappages h pt i 4096 x ?fl m2)
         (\<lambda>(r, m2). if r \<noteq> 0 then rbind (kfree h x m2) (\<lambda>m3. rbind (uvmdealloc h me pt i old (s\<lparr>km := m3\<rparr>)) (\<lambda>(_, s1). Inr (0, s1)))
            else uvmalloc_loop h me pt old new xperm n (i + 4096) (s\<lparr>km := m2\<rparr>))"
    using x(1,3) i by (simp add: set_page_def m2_def)
  from map_new_page [OF ok' u _ fl(1) pg pt m2_def] fl(2) consider
    (fail) m3 m4 own' xs' where "mappages h pt i 4096 x ?fl m2 = Inr (-1, m3)" "kfree h x m3 = Inr m4" "length xs1 < 2"
        "mem_ok h own' xs' m4" "\<forall>a. own a \<noteq> Free \<longrightarrow> own' a = own a" "\<forall>a. own a = Kernel \<or> (\<exists>r pth. own a = Frame r pth) \<longrightarrow> pm m4 a = pm (km s) a"
        "\<forall>pt va. own pt = Table pt [] \<longrightarrow> pte_at h m4 pt va = pte_at h (km s) pt va"
    | (mp) m3 own' xs' where "mappages h pt i 4096 x ?fl m2 = Inr (0, m3)" "length xs1 \<le> length xs' + 2"
        "changed h slot_data rinv p {i} own s own' xs' (s\<lparr>km := m3\<rparr>)" "pte_of h (s\<lparr>km := m3\<rparr>) p i = PA2PTE h x OR ?fl OR PTE_V h"
        "own' x = Frame pt (path_of h i)" "pm m3 x = replicate page_bytes 0"
    by blast
  then show ?thesis
  proof cases
    case fail
    let ?s = "s\<lparr>km := m4\<rparr>"
    have ui: "uaddr h s p i" and np: "pte_of h s p i AND PTE_V h = 0" and none: "find_swap p i (fr s) = None" using u by (simp_all add: untouched_def)
    have s': "?s = s\<lparr>km := m4, swp := swp s, fr := fr s\<rparr>" by simp
    have "changed h slot_data rinv p {i} own s own' xs' ?s" and "pte_of h ?s p i = pte_of h s p i"
      using np none fail(5,7) vm_okD(2,3) [OF ok]
      by (intro changed_one [where e = "pte_of h s p i", OF ok ui refl fail(4) _ fail(6) [rule_format] _ _ _ _ _ _ _ _ s']; simp)+
    moreover from this have "untouched h p i ?s" using u by (simp add: untouched_def uaddr_def)
    ultimately show ?thesis using run fail(1-3) Cons by (intro exI [of _ False] exI [of _ ?s] exI [of _ own'] exI [of _ xs']) simp
  next
    case mp
    let ?s = "s\<lparr>km := m3\<rparr>" and ?f = "?fl OR PTE_V h"
    note f = fl(3)
    have v: "(PA2PTE h x OR ?f) AND PTE_V h \<noteq> 0" using new_pte_flags(1) [of x ?fl] by (simp add: or.assoc)
    note parts = entry_parts [OF x(4) f v]
    have "user_pte h (PA2PTE h x OR ?fl OR PTE_V h)" using new_pte_flags [of x ?fl] fl(2) unfolding user_pte_def by simp
    then have "upage h slot_data ?s p i = Some (replicate page_bytes 0)" using mp(4,6) parts(1) by (simp add: upage_def or.assoc)
    moreover have "framed h own' ?s p i"
      unfolding framed_def using mp(4,5) f pt by (intro impI exI [of _ x] exI [of _ ?f]) (simp add: or.assoc)
    ultimately show ?thesis using run mp(1-3) Cons by (intro exI [of _ True] exI [of _ ?s] exI [of _ own'] exI [of _ xs']) simp
  qed
qed

lemma untouched_other:
  assumes "changed h slot_data rinv p E own s own' xs' s'" "untouched h q va s" "q \<noteq> p \<or> va \<notin> E"
  shows "untouched h q va s'"
  using changedD(4,7) [OF assms(1)] assms(2,3) by (simp add: untouched_def)

text \<open>What \<open>uvmalloc\<close> leaves between \<open>a\<close> and \<open>e\<close>: zero pages, or after a failure nothing between \<open>old\<close> and \<open>e\<close>.\<close>

definition alloc_answer :: "nat \<Rightarrow> u64 \<Rightarrow> u64 \<Rightarrow> u64 \<Rightarrow> nat \<Rightarrow> (u64 \<Rightarrow> role) \<Rightarrow> u64 list \<Rightarrow> 'd vm \<Rightarrow> u64 \<times> 'd vm \<Rightarrow> bool" where
  "alloc_answer p old a e n own xs s = (\<lambda>(r, s').
     \<exists>own' xs'. r = e \<and> changed h slot_data rinv p (pages_in a e) own s own' xs' s' \<and> space h p (pages_in a e) own' s'
          \<and> (\<forall>va \<in> pages_in a e. upage h slot_data s' p va = Some (replicate page_bytes 0))
        \<or> r = 0 \<and> changed h slot_data rinv p (pages_in old e) own s own' xs' s' \<and> (\<forall>va \<in> pages_in old e. untouched h p va s')
          \<and> length xs < 3 * n)"

lemma alloc_answer_end: "vm_ok h rinv own xs s \<Longrightarrow> \<not> a < e \<Longrightarrow> alloc_answer p old a e n own xs s (e, s)"
  using changed_refl [of h rinv own xs s slot_data p "{}"] unfolding alloc_answer_def by (auto simp: pages_in_empty space_def)

lemma alloc_answer_step:
  assumes ok: "vm_ok h rinv own xs s" and i: "page_aligned i" "i < e" "e \<le> MAXVA h" "old \<le> i" and u: "\<forall>va \<in> pages_in i e. untouched h p va s"
    and 1: "changed h slot_data rinv p {i} own s own1 xs1 s1" "framed h own1 s1 p i" "upage h slot_data s1 p i = Some (replicate page_bytes 0)"
      "length xs \<le> length xs1 + 3"
    and 2: "alloc_answer p old (i + 4096) e n own1 xs1 s1 w"
  shows "alloc_answer p old i e (Suc n) own xs s w"
proof -
  have e56: "e \<le> 2 ^ 56" using i(3) maxva(2) by (simp add: order_trans)
  note st = pages_in_step [OF i(1,2) e56]
  have ui: "uaddr h s p va" if "va \<in> pages_in i e" for va using that u by (simp add: untouched_def)
  obtain r s' own' xs' where w: "w = (r, s')" and
    "r = e \<and> changed h slot_data rinv p (pages_in (i + 4096) e) own1 s1 own' xs' s' \<and> space h p (pages_in (i + 4096) e) own' s'
          \<and> (\<forall>va \<in> pages_in (i + 4096) e. upage h slot_data s' p va = Some (replicate page_bytes 0))
        \<or> r = 0 \<and> changed h slot_data rinv p (pages_in old e) own1 s1 own' xs' s' \<and> (\<forall>va \<in> pages_in old e. untouched h p va s')
          \<and> length xs1 < 3 * n"
    using 2 unfolding alloc_answer_def by (cases w) auto
  then consider (ok) "r = e" "changed h slot_data rinv p (pages_in (i + 4096) e) own1 s1 own' xs' s'" "space h p (pages_in (i + 4096) e) own' s'"
      "\<forall>va \<in> pages_in (i + 4096) e. upage h slot_data s' p va = Some (replicate page_bytes 0)"
    | (err) "r = 0" "changed h slot_data rinv p (pages_in old e) own1 s1 own' xs' s'" "\<forall>va \<in> pages_in old e. untouched h p va s'" "length xs1 < 3 * n"
    by blast
  then show ?thesis
  proof cases
    case ok
    have ch: "changed h slot_data rinv p (pages_in i e) own s own' xs' s'" using changed_trans [OF 1(1) ok(2)] st(1) by simp
    have u1: "uaddr h s1 p va" if "va \<in> pages_in i e" for va using ui that changedD(7) [OF 1(1)] by simp
    have "space h p {i} own1 s1" using 1(2) u1 st(1) by (simp add: space_def)
    then have "space h p {i} own' s'"
      using st u1 by (intro changed_space [OF ok(2) _ _ changedD(1) [OF 1(1)]]) auto
    moreover have "upage h slot_data s' p i = Some (replicate page_bytes 0)" using changedD(4) [OF ok(2) u1] st 1(3) by simp
    ultimately show ?thesis using ok(1,3,4) ch st(1) unfolding alloc_answer_def w by (auto simp: space_def)
  next
    case err
    have "changed h slot_data rinv p (pages_in old e) own s own' xs' s'"
      using i by (intro changed_mono [OF changed_trans [OF 1(1) err(2)]]) (auto simp: pages_in_def)
    then show ?thesis using err(1,3,4) 1(4) unfolding alloc_answer_def w by auto
  qed
qed

lemma uvmalloc_loop_spec:
  assumes "vm_ok h rinv own xs s" "\<forall>va \<in> pages_in i new. untouched h p va s" "space h p (pages_in old i) own s"
    "page_aligned old" "page_aligned i" "old \<le> i" "i \<le> MAXVA h" "new \<le> MAXVA h" "unat new \<le> unat i + 4096 * n"
    and fl: "PTE_R h OR PTE_U h OR xperm < 1024" "(PTE_R h OR PTE_U h OR xperm) AND PTE_U h \<noteq> 0" "(PTE_R h OR PTE_U h OR xperm) OR PTE_V h < 1024"
  shows "\<exists>w. uvmalloc_loop h (Some p) (pagetable (proc_at s p)) old new xperm (Suc n) i s = Inr w \<and> alloc_answer p old i new n own xs s w"
  using assms(1-9)
proof (induction n arbitrary: i own xs s)
  case 0
  then have "\<not> i < new" by (simp add: word_less_nat_alt)
  then show ?case using alloc_answer_end [OF 0(1)] by simp
next
  case (Suc n)
  show ?case
  proof (cases "i < new")
    case False
    then show ?thesis using alloc_answer_end [OF Suc.prems(1)] by simp
  next
    case True
    let ?pt = "pagetable (proc_at s p)"
    have e56: "new \<le> 2 ^ 56" using Suc.prems(8) maxva(2) by (simp add: order_trans)
    have i56: "i \<le> 2 ^ 56" using True e56 by simp
    note st = pages_in_step [OF Suc.prems(5) True e56]
    have ui: "untouched h p i s" and ai: "uaddr h s p i" using Suc.prems(2) st(1) by (simp_all add: untouched_def)
    obtain b s1 own1 xs1 where run: "uvmalloc_loop h (Some p) ?pt old new xperm (Suc (Suc n)) i s
         = (if b then uvmalloc_loop h (Some p) ?pt old new xperm (Suc n) (i + 4096) s1
            else rbind (uvmdealloc h (Some p) ?pt i old s1) (\<lambda>(_, s2). Inr (0, s2)))"
      and 1: "changed h slot_data rinv p {i} own s own1 xs1 s1"
        "if b then framed h own1 s1 p i \<and> upage h slot_data s1 p i = Some (replicate page_bytes 0) \<and> length xs \<le> length xs1 + 3
         else untouched h p i s1 \<and> length xs < 3"
      using uvmalloc_step [OF Suc.prems(1) ui True fl refl, of "Some p" old "Suc n"] by blast
    note ok1 = changedD(1) [OF 1(1)]
    have sc: "sch s1 = sch s" by (rule changedD(2) [OF 1(1)])
    have sp1: "space h p (pages_in old i) own1 s1"
      using ai by (intro changed_space [OF 1(1) Suc.prems(3) _ Suc.prems(1)]) (auto simp: pages_in_def)
    have rest: "untouched h p va s1" if "va \<in> pages_in (i + 4096) new" for va
      using that st Suc.prems(2) by (intro untouched_other [OF 1(1)]) auto
    show ?thesis
    proof (cases b)
      case b: True
      then have 2: "framed h own1 s1 p i" "upage h slot_data s1 p i = Some (replicate page_bytes 0)" "length xs \<le> length xs1 + 3" using 1(2) by simp_all
      have u: "unat (i + 4096) = unat i + 4096" by (rule unat_next_page [OF i56])
      have "i + 4096 \<le> MAXVA h" using page_after [OF Suc.prems(5) maxva(3) _ i56] True Suc.prems(8) by simp
      moreover have "old \<le> i + 4096" "unat new \<le> unat (i + 4096) + 4096 * n" using Suc.prems(6,9) u by (simp_all add: word_le_nat_alt)
      moreover have "space h p (pages_in old (i + 4096)) own1 s1"
      proof -
        have "va = i \<or> va \<in> pages_in old i" if "va \<in> pages_in old (i + 4096)" for va
          using that pages_in_next [OF Suc.prems(5) i56] by (auto simp: pages_in_def)
        then show ?thesis using sp1 2(1) ai changedD(7) [OF 1(1)] unfolding space_def by blast
      qed
      ultimately obtain w where "uvmalloc_loop h (Some p) ?pt old new xperm (Suc n) (i + 4096) s1 = Inr w" "alloc_answer p old (i + 4096) new n own1 xs1 s1 w"
        using Suc.IH [OF ok1 _ _ Suc.prems(4) page_aligned_next [OF i56 Suc.prems(5)] _ _ Suc.prems(8)] rest sc by auto
      then show ?thesis
        using run b alloc_answer_step [OF Suc.prems(1,5) True Suc.prems(8,6,2) 1(1) 2] by auto
    next
      case b: False
      then have 2: "untouched h p i s1" "length xs < 3" using 1(2) by simp_all
      have r: "PGROUNDUP h i = i" "PGROUNDUP h old = old" using roundup_id Suc.prems(4-7) by (simp_all add: order_trans [OF Suc.prems(6,7)])
      obtain s' own' xs' where 3: "uvmdealloc h (Some p) (pagetable (proc_at s1 p)) i old s1 = Inr (old, s')"
        "changed h slot_data rinv p (pages_in old i) own1 s1 own' xs' s'" "\<forall>va \<in> pages_in old i. untouched h p va s'"
        using uvmdealloc_spec [where old = i and new = old and p = p, OF ok1 _ Suc.prems(6,7)] sp1 unfolding r by blast
      have "untouched h p va s'" if va: "va \<in> pages_in old new" for va
      proof (cases "va < i")
        case True
        then show ?thesis using 3(3) va by (simp add: pages_in_def)
      next
        case False
        then have "va \<in> pages_in i new" using va by (simp add: pages_in_def)
        then have "untouched h p va s1" using rest 2(1) st(1) by auto
        then show ?thesis using False by (intro untouched_other [OF 3(2)]) (simp_all add: pages_in_def)
      qed
      moreover have "changed h slot_data rinv p (pages_in old new) own s own' xs' s'"
        using True Suc.prems(5,6) by (intro changed_mono [OF changed_trans [OF 1(1) 3(2)]]) (auto simp: pages_in_def)
      ultimately have "alloc_answer p old i new (Suc n) own xs s (0, s')" using 2(2) unfolding alloc_answer_def by auto
      then show ?thesis using run b 3(1) sc by simp
    qed
  qed
qed

lemma alloc_answer_mono: "alloc_answer p old a e n own xs s w \<Longrightarrow> n \<le> n' \<Longrightarrow> alloc_answer p old a e n' own xs s w"
  unfolding alloc_answer_def by (cases w) fastforce

lemma uvmalloc_spec:
  assumes ok: "vm_ok h rinv own xs s" and u: "\<forall>va \<in> pages_in (PGROUNDUP h old) new. untouched h p va s" and le: "old \<le> new" "new \<le> MAXVA h"
    and fl: "PTE_R h OR PTE_U h OR xperm < 1024" "(PTE_R h OR PTE_U h OR xperm) AND PTE_U h \<noteq> 0" "(PTE_R h OR PTE_U h OR xperm) OR PTE_V h < 1024"
  shows "\<exists>w. uvmalloc h (Some p) (pagetable (proc_at s p)) old new xperm s = Inr w
     \<and> alloc_answer p (PGROUNDUP h old) (PGROUNDUP h old) new (Suc (unat (new - old) div page_bytes)) own xs s w"
proof -
  let ?a = "PGROUNDUP h old"
  let ?n = "Suc (unat (new - ?a) div page_bytes)"
  have run: "uvmalloc h (Some p) (pagetable (proc_at s p)) old new xperm s
      = uvmalloc_loop h (Some p) (pagetable (proc_at s p)) ?a new xperm (Suc ?n) ?a s"
    using le(1) by (simp add: uvmalloc_def leD Let_def del: uvmalloc_loop.simps)
  show ?thesis
  proof (cases "?a < new")
    case False
    then show ?thesis using run alloc_answer_end [OF ok] by simp
  next
    case True
    have a: "old \<le> ?a" "?a \<le> MAXVA h" using roundup_bounds(1,2) [of old "MAXVA h"] le maxva(3) by simp_all
    have d: "unat (new - ?a) = unat new - unat ?a" "unat (new - old) = unat new - unat old" using True le by (simp_all add: unat_sub)
    have "unat new \<le> unat ?a + 4096 * ?n" using d(1) by simp
    from uvmalloc_loop_spec [OF ok u _ pgroundup_aligned pgroundup_aligned order_refl a(2) le(2) this fl]
    obtain w where "uvmalloc h (Some p) (pagetable (proc_at s p)) old new xperm s = Inr w" "alloc_answer p ?a ?a new ?n own xs s w"
      using run by (auto simp: pages_in_empty space_def simp del: uvmalloc_loop.simps)
    moreover have "?n \<le> Suc (unat (new - old) div page_bytes)" using d a(1) by (simp add: word_le_nat_alt div_le_mono)
    ultimately show ?thesis using alloc_answer_mono by blast
  qed
qed

text \<open>
  The outcome of a change of size: the rest of the system is as before, and so is each page of the process below both sizes. With \<open>umem\<close>
  a page that is not there yet counts as zeros, which is what its first use makes it.
\<close>

definition resized :: "nat \<Rightarrow> u64 \<Rightarrow> 'd vm \<Rightarrow> 'd vm \<Rightarrow> bool" where
  "resized p sz s s' \<longleftrightarrow> (\<exists>own' xs'. vm_ok h rinv own' xs' s' \<and> user_space h p own' s')
   \<and> sch s' = upd_proc p (\<lambda>x. x\<lparr>psz := sz\<rparr>) (sch s)
   \<and> (\<forall>q va. uaddr h s q va \<and> (q \<noteq> p \<or> va < sz \<or> TRAPFRAME h \<le> va) \<longrightarrow> umem h slot_data s' q va = umem h slot_data s q va)"

lemma untouched_umem: "untouched h p va s \<Longrightarrow> umem h slot_data s p va = replicate page_bytes 0"
  by (simp add: untouched_def umem_def upage_def user_pte_def)

lemma resizedI:
  assumes sp: "user_space h p own s" and ch: "changed h slot_data rinv p E own s own' xs' s1"
    and E: "E \<subseteq> pages_in (PGROUNDUP h sz') (TRAPFRAME h) \<union> pages_in (PGROUNDUP h (psz (proc_at s p))) sz'" and sz: "sz' \<le> TRAPFRAME h"
    and new: "space h p (pages_in 0 sz') own' s1" "\<forall>va \<in> pages_in (PGROUNDUP h sz') (TRAPFRAME h). untouched h p va s1"
      "\<forall>va \<in> E. va < sz' \<longrightarrow> umem h slot_data s1 p va = replicate page_bytes 0"
    and s': "s' = on_proc (\<lambda>x. x\<lparr>psz := sz'\<rparr>) p s1"
  shows "resized p sz' s s'"
proof -
  have p: "p < nproc (sch s)" "pagetable (proc_at s p) \<noteq> 0" using sp by (simp_all add: user_space_def)
  note sc = changedD(2) [OF ch]
  have tM: "TRAPFRAME h \<le> MAXVA h" using top_addresses(3,4) by simp
  have f: "km s' = km s1" "fr s' = fr s1" "swp s' = swp s1" "nproc (sch s') = nproc (sch s1)" using s' by simp_all
  have g: "pagetable (proc_at s' q) = pagetable (proc_at s1 q) \<and> plevel (proc_at s' q) = plevel (proc_at s1 q)" if "q < nproc (sch s1)" for q
    using that s' by (simp add: on_proc_nth)
  note same = vm_ok_sched [OF changedD(1) [OF ch] f g]
  have u: "uaddr h s' q va \<longleftrightarrow> uaddr h s q va" for q va using same(2) changedD(7) [OF ch] by simp
  have pt: "pagetable (proc_at s' p) = pagetable (proc_at s1 p)" "psz (proc_at s' p) = sz'" using p sc s' by (simp_all add: on_proc_nth)
  have un: "untouched h p va s' \<longleftrightarrow> untouched h p va s1" for va using same(2) pt f by (simp add: untouched_def)
  have "space h p F own' s' \<longleftrightarrow> space h p F own' s1" for F using same(2) pt f by (simp add: space_def framed_def)
  then have "user_space h p own' s'" using new(1,2) sz un p pt f sc by (simp add: user_space_def)
  moreover have "umem h slot_data s' q va = umem h slot_data s q va" if a: "uaddr h s q va" "q \<noteq> p \<or> va < sz' \<or> TRAPFRAME h \<le> va" for q va
  proof -
    have e: "umem h slot_data s' q va = umem h slot_data s1 q va" using same(3) changedD(7) [OF ch] a(1) by (simp add: umem_def)
    show ?thesis
    proof (cases "q = p \<and> va \<in> E")
      case False
      then show ?thesis using e changedD(4) [OF ch a(1)] by (auto simp: umem_def)
    next
      case True
      have "sz' \<le> PGROUNDUP h sz'" using roundup_bounds(1) [of sz' "MAXVA h"] sz tM maxva(3) by simp
      then have v: "va \<in> pages_in (PGROUNDUP h (psz (proc_at s p))) sz'" "va < sz'" using True a(2) E sz by (auto simp: pages_in_def)
      then have "untouched h p va s" using sp sz by (simp add: user_space_def pages_in_def)
      then show ?thesis using e True new(3) v(2) untouched_umem by simp
    qed
  qed
  moreover have "sch s' = upd_proc p (\<lambda>x. x\<lparr>psz := sz'\<rparr>) (sch s)" using s' sc by (simp add: on_proc_def)
  ultimately show ?thesis using same(1) unfolding resized_def by blast
qed

lemma on_proc_same: "p < nproc (sch s) \<Longrightarrow> on_proc (\<lambda>x. x\<lparr>psz := psz (proc_at s p)\<rparr>) p s = s"
  by (simp add: on_proc_def upd_proc_def)

lemma resized_same:
  assumes ok: "vm_ok h rinv own xs s" and sp: "user_space h p own s"
  shows "resized p (psz (proc_at s p)) s s"
proof (rule resizedI [OF sp changed_refl [OF ok, of slot_data p "{}"]])
  show "s = on_proc (\<lambda>x. x\<lparr>psz := psz (proc_at s p)\<rparr>) p s" using sp on_proc_same [of p s] by (simp add: user_space_def)
qed (use sp in \<open>simp_all add: user_space_def\<close>)

lemma growproc_shrink:
  assumes ok: "vm_ok h rinv own xs s" and sp: "user_space h p own s" and n: "n < 0" "- (2 ^ 31) \<le> n" and sz: "sz = psz (proc_at s p)"
  shows "\<exists>s'. growproc h p n s = Inr (0, s') \<and> resized p (sbrk_size sz n) s s'"
proof -
  have tM: "TRAPFRAME h \<le> MAXVA h" using top_addresses(3,4) by simp
  have szT: "sz \<le> TRAPFRAME h" and p: "p < nproc (sch s)" using sp sz by (simp_all add: user_space_def)
  have szM: "sz \<le> MAXVA h" using szT tM by simp
  have sz39: "sz \<le> 2 ^ 39" using szM maxva(2) by simp
  note plus = size_plus [OF sz39 n(2)]
  show ?thesis
  proof (cases "uint sz + n < 0")
    case True
    then have "sz \<le> sz + of_int n" using plus(2) n(1) by simp
    then have "growproc h p n s = Inr (0, on_proc (\<lambda>x. x\<lparr>psz := sz\<rparr>) p s)"
      using n(1) by (simp add: growproc_def sz [symmetric] uvmdealloc_def)
    then show ?thesis using resized_same [OF ok sp] on_proc_same [OF p] True sz by (simp add: sbrk_size_def)
  next
    case False
    let ?new = "sz + of_int n"
    have le: "?new \<le> sz" using plus(1) False n(1) by (simp add: word_le_def)
    have a: "?new \<le> PGROUNDUP h ?new" "PGROUNDUP h ?new \<le> PGROUNDUP h sz" "PGROUNDUP h sz \<le> TRAPFRAME h"
      using roundup_bounds(1) [of ?new "MAXVA h"] roundup_mono [OF le szM] roundup_bounds(2) [OF szT top_addresses(2) tM] le szM maxva(3) by simp_all
    have all: "space h p (pages_in 0 sz) own s" "\<forall>va \<in> pages_in (PGROUNDUP h sz) (TRAPFRAME h). untouched h p va s"
      using sp sz by (simp_all add: user_space_def)
    have E: "pages_in (PGROUNDUP h ?new) (PGROUNDUP h sz) = pages_in (PGROUNDUP h ?new) sz" by (rule pages_in_roundup [OF szM])
    have "space h p (pages_in (PGROUNDUP h ?new) (PGROUNDUP h sz)) own s" using all(1) unfolding E by (simp add: space_def pages_in_def)
    from uvmdealloc_spec [OF ok this le szM] obtain s1 own1 xs1 where
      1: "uvmdealloc h (Some p) (pagetable (proc_at s p)) sz ?new s = Inr (?new, s1)"
        "changed h slot_data rinv p (pages_in (PGROUNDUP h ?new) (PGROUNDUP h sz)) own s own1 xs1 s1"
        "\<forall>va \<in> pages_in (PGROUNDUP h ?new) (PGROUNDUP h sz). untouched h p va s1" by blast
    have "space h p (pages_in 0 ?new) own s" using all(1) le by (auto simp: space_def pages_in_def)
    then have sp1: "space h p (pages_in 0 ?new) own1 s1"
      using a(1) \<open>space h p (pages_in (PGROUNDUP h ?new) (PGROUNDUP h sz)) own s\<close>
      by (intro changed_space [OF 1(2) _ _ ok]) (auto simp: space_def pages_in_def)
    have un: "untouched h p va s1" if va: "va \<in> pages_in (PGROUNDUP h ?new) (TRAPFRAME h)" for va
    proof (cases "va < PGROUNDUP h sz")
      case True
      then show ?thesis using 1(3) va by (simp add: pages_in_def)
    next
      case False
      then have "untouched h p va s" using all(2) va by (simp add: pages_in_def)
      then show ?thesis using False by (intro untouched_other [OF 1(2)]) (simp_all add: pages_in_def)
    qed
    have "resized p ?new s (on_proc (\<lambda>x. x\<lparr>psz := ?new\<rparr>) p s1)"
      using sp1 un a le szT by (intro resizedI [OF sp 1(2)]) (auto simp: pages_in_def)
    moreover have "growproc h p n s = Inr (0, on_proc (\<lambda>x. x\<lparr>psz := ?new\<rparr>) p s1)"
      using n(1) 1(1) by (simp add: growproc_def sz [symmetric])
    ultimately show ?thesis using False by (simp add: sbrk_size_def)
  qed
qed

lemma growproc_grow:
  assumes ok: "vm_ok h rinv own xs s" and sp: "user_space h p own s" and n: "0 < n" "n < 2 ^ 31" and sz: "sz = psz (proc_at s p)"
  shows "\<exists>r s'. growproc h p n s = Inr (r, s') \<and> (r = 0 \<and> resized p (sbrk_size sz n) s s'
     \<or> r = -1 \<and> resized p sz s s' \<and> (TRAPFRAME h < sz + of_int n \<or> length xs < 3 * Suc (nat n div page_bytes)))"
proof (cases "TRAPFRAME h < sz + of_int n")
  case True
  then have "growproc h p n s = Inr (-1, s)" using n(1) by (simp add: growproc_def sz [symmetric])
  then show ?thesis using resized_same [OF ok sp] True sz by blast
next
  case False
  let ?new = "sz + of_int n" and ?a = "PGROUNDUP h sz"
  have tM: "TRAPFRAME h \<le> MAXVA h" using top_addresses(3,4) by simp
  have szT: "sz \<le> TRAPFRAME h" and p: "p < nproc (sch s)" using sp sz by (simp_all add: user_space_def)
  have sz39: "sz \<le> 2 ^ 39" using szT tM maxva(2) by simp
  have u: "uint ?new = uint sz + n" using size_plus(1) [OF sz39 _ n(2)] n(1) by simp
  have "uint ?new \<noteq> 0" using u n(1) uint_ge_0 [of sz] by linarith
  then have new0: "?new \<noteq> 0" by (rule contrapos_nn) (simp only: unsigned_0)
  have le: "sz \<le> ?new" using u n(1) by (simp add: word_le_def)
  have newT: "?new \<le> TRAPFRAME h" using False by simp
  have newM: "?new \<le> MAXVA h" using newT tM by simp
  have "unat (?new - sz) = nat (uint sz + n) - nat (uint sz)" using unat_sub [OF le] by (simp only: unat_eq_nat_uint u)
  then have d: "unat (?new - sz) = nat n" using n(1) uint_ge_0 [of sz] by (simp add: nat_add_distrib)
  have all: "space h p (pages_in 0 sz) own s" "\<forall>va \<in> pages_in ?a (TRAPFRAME h). untouched h p va s"
    using sp sz by (simp_all add: user_space_def)
  have un: "\<forall>va \<in> pages_in ?a ?new. untouched h p va s" using all(2) newT by (auto simp: pages_in_def)
  have fl: "PTE_R h OR PTE_U h OR PTE_W h < 1024" "(PTE_R h OR PTE_U h OR PTE_W h) AND PTE_U h \<noteq> 0" "(PTE_R h OR PTE_U h OR PTE_W h) OR PTE_V h < 1024"
    by (simp_all add: flag_bits)
  obtain r s1 where run: "uvmalloc h (Some p) (pagetable (proc_at s p)) sz ?new (PTE_W h) s = Inr (r, s1)"
    and ans: "alloc_answer p ?a ?a ?new (Suc (nat n div page_bytes)) own xs s (r, s1)"
    using uvmalloc_spec [OF ok un le newM fl, unfolded d] by auto
  have grow: "growproc h p n s = (if r = 0 then Inr (-1, s1) else Inr (0, on_proc (\<lambda>x. x\<lparr>psz := r\<rparr>) p s1))"
    using n(1) run False by (simp add: growproc_def sz [symmetric])
  have a: "sz \<le> ?a" "?a \<le> PGROUNDUP h ?new" "?new \<le> PGROUNDUP h ?new"
    using roundup_bounds(1) [of sz "MAXVA h"] roundup_bounds(1) [of ?new "MAXVA h"] roundup_mono [OF le newM] szT tM newM maxva(3) by simp_all
  have ua: "\<forall>va \<in> pages_in ?a ?new. uaddr h s p va" using un by (simp add: untouched_def)
  have sp0: "space h p (pages_in 0 sz) own' s1" if "changed h slot_data rinv p (pages_in ?a ?new) own s own' xs' s1" for own' xs'
    using a(1) ua by (intro changed_space [OF that all(1) _ ok]) (auto simp: pages_in_def)
  obtain own' xs' where "r = ?new \<and> changed h slot_data rinv p (pages_in ?a ?new) own s own' xs' s1 \<and> space h p (pages_in ?a ?new) own' s1
        \<and> (\<forall>va \<in> pages_in ?a ?new. upage h slot_data s1 p va = Some (replicate page_bytes 0))
      \<or> r = 0 \<and> changed h slot_data rinv p (pages_in ?a ?new) own s own' xs' s1 \<and> (\<forall>va \<in> pages_in ?a ?new. untouched h p va s1)
        \<and> length xs < 3 * Suc (nat n div page_bytes)"
    using ans unfolding alloc_answer_def prod.case by (elim exE)
  then consider (ok) "r = ?new" "changed h slot_data rinv p (pages_in ?a ?new) own s own' xs' s1" "space h p (pages_in ?a ?new) own' s1"
      "\<forall>va \<in> pages_in ?a ?new. upage h slot_data s1 p va = Some (replicate page_bytes 0)"
    | (err) "r = 0" "changed h slot_data rinv p (pages_in ?a ?new) own s own' xs' s1" "\<forall>va \<in> pages_in ?a ?new. untouched h p va s1"
      "length xs < 3 * Suc (nat n div page_bytes)"
    by blast
  then show ?thesis
  proof cases
    case ok
    have "va \<in> pages_in 0 ?a \<or> va \<in> pages_in ?a ?new" if "va \<in> pages_in 0 ?new" for va
      using that by (cases "va < ?a") (simp_all add: pages_in_def not_less)
    moreover have "pages_in 0 ?a = pages_in 0 sz" using szT tM by (intro pages_in_roundup) simp
    ultimately have "va \<in> pages_in 0 sz \<or> va \<in> pages_in ?a ?new" if "va \<in> pages_in 0 ?new" for va using that by blast
    then have "space h p (pages_in 0 ?new) own' s1" using sp0 [OF ok(2)] ok(3) unfolding space_def by blast
    moreover have "\<forall>va \<in> pages_in (PGROUNDUP h ?new) (TRAPFRAME h). untouched h p va s1"
      using all(2) a by (intro ballI untouched_other [OF ok(2)]) (auto simp: pages_in_def)
    ultimately have "resized p ?new s (on_proc (\<lambda>x. x\<lparr>psz := ?new\<rparr>) p s1)"
      using newT ok(4) sz by (intro resizedI [OF sp ok(2)]) (auto simp: umem_def)
    moreover have "\<not> uint sz + n < 0" using n(1) uint_ge_0 [of sz] by linarith
    ultimately show ?thesis using grow ok(1) new0 by (simp add: sbrk_size_def)
  next
    case err
    have un1: "untouched h p va s1" if va: "va \<in> pages_in ?a (TRAPFRAME h)" for va
    proof (cases "va < ?new")
      case True
      then show ?thesis using err(3) va by (simp add: pages_in_def)
    next
      case False
      then show ?thesis using all(2) va by (intro untouched_other [OF err(2)]) (simp_all add: pages_in_def)
    qed
    have s1: "s1 = on_proc (\<lambda>x. x\<lparr>psz := sz\<rparr>) p s1" using on_proc_same [of p s1] p changedD(2) [OF err(2)] sz by simp
    have "resized p sz s s1"
      using sp0 [OF err(2)] szT newT a(1) un1 by (intro resizedI [OF sp err(2) _ _ _ _ _ s1]) (auto simp: pages_in_def)
    then show ?thesis using grow err(1,4) by auto
  qed
qed

lemma sbrk_spec:
  assumes ok: "vm_ok h rinv own xs s" and sp: "user_space h p own s" and n: "- (2 ^ 31) \<le> n" "n < 2 ^ 31" and sz: "sz = psz (proc_at s p)"
  shows "\<exists>r s'. growproc h p n s = Inr (r, s') \<and> (r = 0 \<and> resized p (sbrk_size sz n) s s'
     \<or> r = -1 \<and> resized p sz s s' \<and> 0 < n \<and> (TRAPFRAME h < sz + of_int n \<or> length xs < 3 * Suc (nat n div page_bytes)))"
    and "0 \<le> n \<Longrightarrow> sz \<le> sz + of_int n"
    and "0 \<le> n \<Longrightarrow> sz + of_int n \<le> TRAPFRAME h \<Longrightarrow> resized p (sbrk_size sz n) s (on_proc (\<lambda>x. x\<lparr>psz := psz x + of_int n\<rparr>) p s)"
proof -
  have tM: "TRAPFRAME h \<le> MAXVA h" using top_addresses(3,4) by simp
  have szT: "sz \<le> TRAPFRAME h" and p: "p < nproc (sch s)" using sp sz by (simp_all add: user_space_def)
  have sz39: "sz \<le> 2 ^ 39" using szT tM maxva(2) by simp
  note u = size_plus(1) [OF sz39 n]
  show le: "sz \<le> sz + of_int n" if "0 \<le> n" using that u uint_ge_0 [of sz] by (simp add: word_le_def)
  have "growproc h p n s = Inr (0, s)" if "n = 0" using that on_proc_same [OF p] by (simp add: growproc_def)
  then show "\<exists>r s'. growproc h p n s = Inr (r, s') \<and> (r = 0 \<and> resized p (sbrk_size sz n) s s'
     \<or> r = -1 \<and> resized p sz s s' \<and> 0 < n \<and> (TRAPFRAME h < sz + of_int n \<or> length xs < 3 * Suc (nat n div page_bytes)))"
    using growproc_grow [OF ok sp _ n(2) sz] growproc_shrink [OF ok sp _ n(1) sz] resized_same [OF ok sp] sz
    by (cases n "0::int" rule: linorder_cases) (auto simp: sbrk_size_def)
  assume n0: "0 \<le> n" and T: "sz + of_int n \<le> TRAPFRAME h"
  let ?new = "sz + of_int n"
  have a: "PGROUNDUP h sz \<le> PGROUNDUP h ?new" by (rule roundup_mono [OF le [OF n0]]) (use T tM in simp)
  have all: "space h p (pages_in 0 sz) own s" "\<forall>va \<in> pages_in (PGROUNDUP h sz) (TRAPFRAME h). untouched h p va s"
    using sp sz by (simp_all add: user_space_def)
  have "uaddr h s p va \<and> framed h own s p va" if va: "va \<in> pages_in 0 ?new" for va
  proof (cases "va < PGROUNDUP h sz")
    case True
    then have "va \<in> pages_in 0 (PGROUNDUP h sz)" using va by (simp add: pages_in_def)
    then show ?thesis using all(1) pages_in_roundup [of sz 0] szT tM by (simp add: space_def)
  next
    case False
    then have "PGROUNDUP h sz \<le> va" "va < TRAPFRAME h" "page_aligned va" using va T by (auto simp: pages_in_def)
    then have "untouched h p va s" using all(2) by (simp add: pages_in_def)
    then show ?thesis by (simp add: untouched_def framed_def)
  qed
  then have "space h p (pages_in 0 ?new) own s" by (simp add: space_def)
  moreover have "on_proc (\<lambda>x. x\<lparr>psz := psz x + of_int n\<rparr>) p s = on_proc (\<lambda>x. x\<lparr>psz := ?new\<rparr>) p s"
    using p sz by (simp add: on_proc_def upd_proc_def)
  ultimately have "resized p ?new s (on_proc (\<lambda>x. x\<lparr>psz := psz x + of_int n\<rparr>) p s)"
    using all(2) T a by (intro resizedI [OF sp changed_refl [OF ok, of slot_data p "{}"]]) (auto simp: pages_in_def)
  then show "resized p (sbrk_size sz n) s (on_proc (\<lambda>x. x\<lparr>psz := psz x + of_int n\<rparr>) p s)"
    using add_nonneg_nonneg [OF uint_ge_0 [of sz] n0] by (simp add: sbrk_size_def)
qed

end


section \<open>Properties\<close>

text \<open>
  C5: The size of a process. For every argument \<open>sbrk\<close> returns the old size or -1. After success the size is the old one plus the argument, but
  unchanged if the process would shrink below 0; it fails only if the process grows beyond the trapframe, or at once while memory is short,
  and then nothing has changed. The process keeps its bytes below the new size, where new memory reads as zeros; it has no page above
  its size, the size is at most the address of the trapframe, and no byte of another process changes.
\<close>

theorem sbrk_resizes:
  assumes "sv39 h" "swap_stack vh dev img seen dinv capacity bs rows"
    and "vm_ok h (stack_rinv bs img seen dinv rows rootdev) own xs s" "user_space h p own s"
    and "n = c_int (uint (tf_get p TF_a0 s))" "sz = psz (proc_at s p)"
  shows "\<exists>r s' own' xs' sz'. sys_sbrk h sh p s = Inr (Ret r, s')
     \<and> (r = sz \<and> sz' = sbrk_size sz n
        \<or> r = -1 \<and> sz' = sz \<and> 0 < n \<and> (TRAPFRAME h < sz + of_int n \<or> length xs < 3 * Suc (nat n div page_bytes)))
     \<and> vm_ok h (stack_rinv bs img seen dinv rows rootdev) own' xs' s' \<and> user_space h p own' s'
     \<and> sch s' = upd_proc p (\<lambda>x. x\<lparr>psz := sz'\<rparr>) (sch s)
     \<and> (\<forall>q va. uaddr h s q va \<and> (q \<noteq> p \<or> va < sz' \<or> TRAPFRAME h \<le> va) \<longrightarrow>
          umem h (stack_slot bs img) s' q va = umem h (stack_slot bs img) s q va)"
proof -
  note up = stack_paging [OF assms(1,2), of 0 "\<lambda>p. 0" None rootdev]
  have n: "- (2 ^ 31) \<le> n" "n < 2 ^ 31" using c_int_range assms(5) by simp_all
  note spec = user_paging.sbrk_spec [OF up assms(3,4) n assms(6)] and same = user_paging.resized_same [OF up assms(3,4), folded assms(6)]
  let ?t = "c_int (uint (tf_get p TF_a1 s))" and ?R = "user_paging.resized h (stack_slot bs img) (stack_rinv bs img seen dinv rows rootdev) p"
  have run: "sys_sbrk h sh p s = (if ?t = SBRK_EAGER sh \<or> n < 0
        then rbind (growproc h p n s) (\<lambda>(r, s1). if r < 0 then Inr (Ret minus_one, s1) else Inr (Ret sz, s1))
        else if sz + of_int n < sz then Inr (Ret minus_one, s)
        else if TRAPFRAME h < sz + of_int n then Inr (Ret minus_one, s)
        else Inr (Ret sz, on_proc (\<lambda>x. x\<lparr>psz := psz x + of_int n\<rparr>) p s))"
    unfolding assms(6) by (simp add: sys_sbrk_def argint_def argraw_def assms(5) Let_def)
  have "\<exists>r s' sz'. sys_sbrk h sh p s = Inr (Ret r, s') \<and> ?R sz' s s' \<and> (r = sz \<and> sz' = sbrk_size sz n
        \<or> r = -1 \<and> sz' = sz \<and> 0 < n \<and> (TRAPFRAME h < sz + of_int n \<or> length xs < 3 * Suc (nat n div page_bytes)))"
  proof (cases "?t = SBRK_EAGER sh \<or> n < 0")
    case True
    then show ?thesis using spec(1) run by auto
  next
    case False
    then have "0 \<le> n" and run: "sys_sbrk h sh p s = (if TRAPFRAME h < sz + of_int n then Inr (Ret minus_one, s)
        else Inr (Ret sz, on_proc (\<lambda>x. x\<lparr>psz := psz x + of_int n\<rparr>) p s))"
      using spec(2) run by (auto simp: not_less)
    moreover have "n \<noteq> 0" if "TRAPFRAME h < sz + of_int n" using that assms(4,6) by (auto simp: user_space_def)
    ultimately show ?thesis using spec(3) [OF _ leI] same by (cases "TRAPFRAME h < sz + of_int n") auto
  qed
  then obtain r s' sz' where "sys_sbrk h sh p s = Inr (Ret r, s')" "?R sz' s s'" "r = sz \<and> sz' = sbrk_size sz n
        \<or> r = -1 \<and> sz' = sz \<and> 0 < n \<and> (TRAPFRAME h < sz + of_int n \<or> length xs < 3 * Suc (nat n div page_bytes))" by blast
  moreover from this(2) [unfolded user_paging.resized_def [OF up]] obtain own' xs' where
    "vm_ok h (stack_rinv bs img seen dinv rows rootdev) own' xs' s'" "user_space h p own' s'" by blast
  moreover note \<open>?R sz' s s'\<close> [unfolded user_paging.resized_def [OF up]]
  ultimately show ?thesis by (intro exI [of _ r] exI [of _ s'] exI [of _ own'] exI [of _ xs'] exI [of _ sz']) simp
qed

text \<open>Parameters of the system calls: every handler of files fails.\<close>

definition no_sysfile :: "'v sys_h" where
  "no_sysfile = \<lparr>SBRK_EAGER = 1, mlfqinfo_bytes = (\<lambda>l n k ts. []), safestrcpy = (\<lambda>n. n), sysfile = (\<lambda>n p s. Inr (Ret minus_one, s))\<rparr>"

text \<open>The small system of \<open>fork_vm\<close>, where the first process asks to give a page back.\<close>

definition sbrk_vm :: "blk_dev disk bio raid vm" where
  "sbrk_vm = tf_set 0 TF_a0 (-4096) fork_vm"

lemma fork_swapped:
  assumes "find_swap p va (fr fork_vm) = Some k"
  shows "p = 0 \<and> va = 0"
  using find_swap_Some [OF small_frames_ok, of p va k] assms by (auto simp: fork_vm_def small_swap_map split: if_splits)

theorem sbrk_resizes_witness:
  "\<exists>s'. sys_sbrk riscv_std no_sysfile 0 sbrk_vm = Inr (Ret 8192, s') \<and> psz (proc_at s' 0) = 4096
     \<and> umem riscv_std (stack_slot 1024 dv_img) s' 0 0 = umem riscv_std (stack_slot 1024 dv_img) sbrk_vm 0 0"
proof -
  let ?T = "TRAPFRAME riscv_std"
  have "fork_own (trapframe (proc_at fork_vm 0)) = Kernel" using fork_procs by (simp add: fork_own_def)
  note tf = vm39.tf_set_ok [where r = TF_a0 and w = "-4096", OF fork_vm_ok this, folded sbrk_vm_def]
  have T: "va < ?T \<Longrightarrow> va < MAXVA riscv_std" for va using less_trans [of va ?T "MAXVA riscv_std"] by (simp add: riscv_std_def)
  have up: "PGROUNDUP riscv_std 8192 = 8192" by (simp add: riscv_std_def)
  have u: "uaddr riscv_std fork_vm 0 va" if "page_aligned va" "va < ?T" for va using that T fork_procs by (simp add: uaddr_def)
  have pte: "pte_of riscv_std sbrk_vm 0 va = 0" if "page_aligned va" "va < ?T" for va
    using tf(3) [OF u [OF that]] fork_pte fork_procs(2) tf(2) by (simp add: fork_vm_def)
  have u': "uaddr riscv_std sbrk_vm 0 va" if "page_aligned va" "va < ?T" for va using u [OF that] tf(2) by (simp add: uaddr_def)
  have fr: "fr sbrk_vm = fr fork_vm" by (simp add: sbrk_vm_def tf_set_def Let_def)
  have none: "find_swap 0 va (fr sbrk_vm) = None" if "va \<noteq> 0" for va using fork_swapped [of 0 va] that fr by (cases "find_swap 0 va (fr sbrk_vm)") auto
  have un: "untouched riscv_std 0 va sbrk_vm" if "page_aligned va" "8192 \<le> va" "va < ?T" for va
  proof -
    have "va \<noteq> 0" using that(2) by auto
    then show ?thesis using that pte u' none by (simp add: untouched_def)
  qed
  have "va < ?T" if "va < 8192" for va using less_trans [OF that, of ?T] by (simp add: riscv_std_def)
  then have "space riscv_std 0 (pages_in 0 8192) fork_own sbrk_vm" using pte u' by (simp add: space_def framed_def pages_in_def)
  moreover have "8192 \<le> ?T" by (simp add: riscv_std_def)
  ultimately have us: "user_space riscv_std 0 fork_own sbrk_vm"
    using un fork_procs tf(2) up by (auto simp: user_space_def pages_in_def)
  have n: "c_int (uint (tf_get 0 TF_a0 sbrk_vm)) = -4096" using tf(4) [of TF_a0] by (simp add: c_int_def)
  have "uaddr riscv_std sbrk_vm 0 0" by (rule u') (simp_all add: riscv_std_def)
  moreover have "sbrk_size 8192 (-4096) = 4096" by (simp add: sbrk_size_def)
  ultimately show ?thesis
    using sbrk_resizes [OF std39.sv39_axioms xv6.swap_stack_axioms tf(1) us n [symmetric] refl, of no_sysfile] fork_procs tf(2)
    by (fastforce simp: upd_proc_nth)
qed

text \<open>
  C39: Every number from 1 to 34 has a handler. For any other number, \<open>syscall\<close> returns -1 in \<open>a0\<close> and counts the call; it changes no other
  register, no other page of memory, no other field of a process, no frame and nothing of the disk.
\<close>

theorem unknown_syscall_fails:
  assumes "p < nproc (sch s)" "length (pm (km s) (trapframe (proc_at s p))) = page_bytes"
    and "num = c_int (uint (tf_get p TF_a7 s))"
  shows "(if 1 \<le> num \<and> num \<le> 34 then map_of (syscalls h sh so cpu p) num \<noteq> None
     else \<exists>s'. syscall h sh so cpu p s = Inr (Ret (-1), s') \<and> (\<forall>r. tf_get p r s' = (if r = TF_a0 then -1 else tf_get p r s))
       \<and> sch s' = upd_proc p (\<lambda>x. x\<lparr>syscount := syscount x + 1\<rparr>) (sch s) \<and> fr s' = fr s \<and> swp s' = swp s
       \<and> freelist (km s') = freelist (km s) \<and> (\<forall>a. a \<noteq> trapframe (proc_at s p) \<longrightarrow> pm (km s') a = pm (km s) a))"
proof (cases "1 \<le> num \<and> num \<le> 34")
  case True
  then have "num \<in> {1..34}" by simp
  also have "{1..34} = set [1..34::int]" by (simp only: set_upto)
  also have "\<dots> = fst ` set (syscalls h sh so cpu p)" by (simp add: syscalls_def upto_rec1 del: set_upto)
  finally show ?thesis using True by (simp add: map_of_eq_None_iff)
next
  case False
  let ?s = "on_proc (\<lambda>x. x\<lparr>syscount := syscount x + 1\<rparr>) p s" and ?tf = "trapframe (proc_at s p)"
  have tf: "trapframe (proc_at ?s p) = ?tf" using assms(1) by (simp add: on_proc_nth)
  then have get: "tf_get p r ?s = tf_get p r s" for r by (simp add: tf_get_def)
  have "syscall h sh so cpu p s = Inr (Ret (-1), tf_set p TF_a0 (-1) ?s)"
    using False assms(3) by (auto simp: syscall_def Let_def get)
  moreover have "tf_get p r (tf_set p TF_a0 (-1) ?s) = (if r = TF_a0 then -1 else tf_get p r s)" for r
    using get64_put64 [of 14 "pm (km s) ?tf" "tf_off r" "-1"] assms(2) tf tf_off_less [of r] tf_off_inj [of r TF_a0]
    by (auto simp: tf_get_def tf_set_def Let_def)
  moreover have "sch (tf_set p TF_a0 (-1) ?s) = upd_proc p (\<lambda>x. x\<lparr>syscount := syscount x + 1\<rparr>) (sch s)"
    by (simp add: tf_set_def Let_def on_proc_def)
  ultimately show ?thesis unfolding if_not_P [OF False] using tf by (simp add: tf_set_def Let_def set_page_def)
qed

theorem unknown_syscall_fails_witness:
  "\<exists>s'. syscall riscv_std no_sysfile small_swap 0 0 fork_vm = Inr (Ret (-1), s') \<and> tf_get 0 TF_a0 s' = -1"
proof -
  have len: "length (pm (km fork_vm) a) = page_bytes" for a by (simp add: fork_vm_def fork_mem_def)
  have "tf_get 0 TF_a7 fork_vm = 0" using fork_procs by (simp add: tf_get_def fork_vm_def fork_mem_def fork_free_def upt_conv_Cons)
  then show ?thesis
    using unknown_syscall_fails [of 0 fork_vm 0 riscv_std no_sysfile small_swap 0, OF _ len] fork_procs(1) by auto
qed

text \<open>
  C40: A negative argument. \<open>sys_pause\<close> returns at once; \<open>sys_sleep\<close> compares unsigned numbers and puts the process to sleep, and after
  each tick again, until 2^32 + n ticks have passed.
\<close>

theorem negative_sleep:
  assumes "p < nproc (sch s)" "killed p (sch s) = 0" "n = c_int (uint (tf_get p TF_a0 s))" "n < 0"
  shows "sys_pause cpu p s = Inr (Ret 0, s)
     \<and> (\<exists>s'. sys_sleep cpu p s = Inr (Sleeps, s') \<and> pstate (proc_at s' p) = SLEEPING)
     \<and> (\<forall>k s1. killed p (sch s1) = 0 \<and> p < nproc (sch s1) \<and> ticks (sch s1) = ticks (sch s) + of_nat k \<and> k < nat (2 ^ 32 + n) \<longrightarrow>
          (\<exists>s'. tick_wait cpu p (ticks (sch s)) n s1 = Inr (Sleeps, s') \<and> pstate (proc_at s' p) = SLEEPING))
     \<and> (\<forall>s1. ticks (sch s1) = ticks (sch s) + of_nat (nat (2 ^ 32 + n)) \<longrightarrow> tick_wait cpu p (ticks (sch s)) n s1 = Inr (Ret 0, s1))"
proof -
  have n: "- (2 ^ 31) \<le> n" using c_int_range assms(3) by simp
  have un: "unat (of_int n :: u32) = nat (2 ^ 32 + n)"
  proof -
    have "n mod 2 ^ 32 = 2 ^ 32 + n" using n assms(4) mod_pos_pos_trivial [of "n + 2 ^ 32" "2 ^ 32"] by simp
    then show ?thesis by (simp add: unat_eq_nat_uint uint_word_of_int)
  qed
  have more: "\<exists>s'. tick_wait cpu p (ticks (sch s)) n s1 = Inr (Sleeps, s') \<and> pstate (proc_at s' p) = SLEEPING"
    if "killed p (sch s1) = 0" "p < nproc (sch s1)" "ticks (sch s1) = ticks (sch s) + of_nat k" "k < nat (2 ^ 32 + n)" for k s1
  proof -
    have "unat (of_nat k :: u32) = k" using that(4) assms(4) by (intro unat_of_nat_small) simp
    then have "ticks (sch s1) - ticks (sch s) < of_int n" using that(3,4) un by (simp add: word_less_nat_alt)
    then show ?thesis using that(1,2) by (simp add: tick_wait_def sleep_def sched_switch_def upd_proc_nth)
  qed
  have "sys_sleep cpu p s = tick_wait cpu p (ticks (sch s)) n s" "sys_pause cpu p s = Inr (Ret 0, s)"
    using assms(3,4) by (simp_all add: sys_sleep_def sys_pause_def tick_wait_def argint_def argraw_def)
  moreover have "tick_wait cpu p (ticks (sch s)) n s1 = Inr (Ret 0, s1)" if "ticks (sch s1) = ticks (sch s) + of_nat (nat (2 ^ 32 + n))" for s1
  proof -
    have "unat (of_nat (nat (2 ^ 32 + n)) :: u32) = nat (2 ^ 32 + n)" using assms(4) by (intro unat_of_nat_small) simp
    then have "of_nat (nat (2 ^ 32 + n)) = (of_int n :: u32)" by (simp only: word_unat_eq_iff un)
    then show ?thesis using that by (simp add: tick_wait_def)
  qed
  moreover have "\<exists>s'. tick_wait cpu p (ticks (sch s)) n s = Inr (Sleeps, s') \<and> pstate (proc_at s' p) = SLEEPING"
    using more [of s 0] assms(1,2) n by simp
  ultimately show ?thesis using more by (simp only:) blast
qed

theorem negative_sleep_witness:
  "\<exists>s'. sys_sleep 0 0 sbrk_vm = Inr (Sleeps, s') \<and> pstate (proc_at s' 0) = SLEEPING \<and> sys_pause 0 0 sbrk_vm = Inr (Ret 0, sbrk_vm)"
proof -
  have "fork_own (trapframe (proc_at fork_vm 0)) = Kernel" using fork_procs by (simp add: fork_own_def)
  note tf = vm39.tf_set_ok [where r = TF_a0 and w = "-4096", OF fork_vm_ok this, folded sbrk_vm_def]
  have "c_int (uint (tf_get 0 TF_a0 sbrk_vm)) = -4096" using tf(4) [of TF_a0] by (simp add: c_int_def)
  moreover have "killed 0 (sch sbrk_vm) = 0" unfolding tf(2) by (simp add: killed_def fork_vm_def small_vm_def)
  ultimately show ?thesis using negative_sleep [of 0 sbrk_vm "-4096" 0] fork_procs(1) tf(2) by auto
qed

end
