(* ===== verification/Trap.thy ===== *)
theory Trap
  imports Mlfq Syscall_Effects
begin

unbundle bit_operations_syntax

text \<open>
  Traps of \<open>kernel/trap.c\<close>: \<open>usertrap\<close>, \<open>prepare_return\<close>, \<open>kerneltrap\<close> and \<open>devintr\<close>; \<open>clockintr\<close> is in \<open>Mlfq\<close>. The control
  registers are a record; the constants of \<open>riscv.h\<close> and \<open>memlayout.h\<close> and the addresses of the assembly code are a record argument. The interrupt
  controller's answer \<open>irq\<close> and the console's handler \<open>uartintr\<close> are arguments, as is \<open>resume\<close>, what other processes do
  while a process has yielded in \<open>clockintr\<close>.
\<close>

section \<open>Operations\<close>

record csrs =
  sstatus :: u64
  scause :: u64
  sepc :: u64
  stval :: u64
  satp :: u64
  tp :: u64
  stvec :: u64

record trap_h =
  SSTATUS_SPP :: u64
  SSTATUS_SPIE :: u64
  MAKE_SATP :: "u64 \<Rightarrow> u64"
  UART0_IRQ :: int
  VIRTIO0_IRQ :: int
  kernelvec :: u64
  uservec_off :: u64
  usertrap_addr :: u64

text \<open>How a trap from user space ends: back to user space with the value for \<open>satp\<close>, asleep in a system call, or not at all.\<close>

datatype trap_out = UserReturn u64 | TrapSleeps | TrapExits

definition devintr ::
  "trap_h \<Rightarrow> int \<Rightarrow> nat \<Rightarrow> (sched \<Rightarrow> sched) \<Rightarrow> ('e disk kernel \<Rightarrow> 'e disk kernel) \<Rightarrow> u64 \<Rightarrow> 'e disk kernel \<Rightarrow> (int \<times> 'e disk kernel) res" where
  "devintr t irq cpu resume uartintr cause s =
     (if cause = 0x8000000000000009
      then if irq = UART0_IRQ t then Inr (1, uartintr s)
           else if irq = VIRTIO0_IRQ t
           then rbind (virtio_disk_intr (drv (rstore (swp s))))
                  (\<lambda>v. Inr (1, s\<lparr>swp := (swp s)\<lparr>rstore := (rstore (swp s))\<lparr>drv := v\<rparr>\<rparr>\<rparr>))
           else Inr (1, s)
      else if cause = 0x8000000000000005
      then rbind (clockintr cpu resume (sch s)) (\<lambda>sc. Inr (2, s\<lparr>sch := sc\<rparr>))
      else Inr (0, s))"

definition prepare_return :: "trap_h \<Rightarrow> riscv_h \<Rightarrow> nat \<Rightarrow> csrs \<Rightarrow> 'd vm \<Rightarrow> csrs \<times> 'd vm" where
  "prepare_return t h p c s =
     (let c1 = c\<lparr>stvec := TRAMPOLINE h + uservec_off t\<rparr>;
          s1 = tf_set p TF_kernel_satp (satp c1) s;
          s2 = tf_set p TF_kernel_sp (kstack (proc_at s1 p) + 4096) s1;
          s3 = tf_set p TF_kernel_trap (usertrap_addr t) s2;
          s4 = tf_set p TF_kernel_hartid (tp c1) s3;
          c2 = c1\<lparr>sstatus := (sstatus c1 AND NOT (SSTATUS_SPP t)) OR SSTATUS_SPIE t\<rparr>
      in (c2\<lparr>sepc := tf_get p TF_epc s4\<rparr>, s4))"

text \<open>The middle of \<open>usertrap\<close>: the cause of the trap is handled.\<close>

definition trap_cause ::
  "trap_h \<Rightarrow> riscv_h \<Rightarrow> 'e disk sys_h \<Rightarrow> 'e disk bio raid swap_ops \<Rightarrow> int \<Rightarrow> nat \<Rightarrow> (sched \<Rightarrow> sched) \<Rightarrow> ('e disk kernel \<Rightarrow> 'e disk kernel)
   \<Rightarrow> nat \<Rightarrow> csrs \<Rightarrow> 'e disk handler" where
  "trap_cause t h sh so irq cpu resume uartintr p c s =
     (if scause c = 8
      then if killed p (sch s) \<noteq> 0
           then rbind (kexit cpu p (-1) (sch s)) (\<lambda>sc. Inr (Exits, s\<lparr>sch := sc\<rparr>))
           else syscall h sh so cpu p (tf_set p TF_epc (tf_get p TF_epc s + 4) s)
      else rbind (devintr t irq cpu resume uartintr (scause c) s)
             (\<lambda>(which_dev, s1).
                if which_dev \<noteq> 0 then Inr (Ret 0, s1)
                else if scause c = 15 \<or> scause c = 13
                then rbind (vmfault h so (Some p) (pagetable (proc_at s1 p)) (stval c) s1)
                       (\<lambda>(r, s2). Inr (Ret 0, if r = 0 then s2\<lparr>sch := setkilled p (sch s2)\<rparr> else s2))
                else Inr (Ret 0, s1\<lparr>sch := setkilled p (sch s1)\<rparr>)))"

definition usertrap ::
  "trap_h \<Rightarrow> riscv_h \<Rightarrow> 'e disk sys_h \<Rightarrow> 'e disk bio raid swap_ops \<Rightarrow> int \<Rightarrow> nat \<Rightarrow> (sched \<Rightarrow> sched) \<Rightarrow> ('e disk kernel \<Rightarrow> 'e disk kernel)
   \<Rightarrow> nat \<Rightarrow> csrs \<Rightarrow> 'e disk kernel \<Rightarrow> (trap_out \<times> csrs \<times> 'e disk kernel) res" where
  "usertrap t h sh so irq cpu resume uartintr p c s =
     panic_if (sstatus c AND SSTATUS_SPP t \<noteq> 0) ''usertrap: not from user mode''
       (let c1 = c\<lparr>stvec := kernelvec t\<rparr>;
            s1 = tf_set p TF_epc (sepc c1) s
        in rbind (trap_cause t h sh so irq cpu resume uartintr p c1 s1)
             (\<lambda>(r, s2). case r of
                Exits \<Rightarrow> Inr (TrapExits, c1, s2)
              | Sleeps \<Rightarrow> Inr (TrapSleeps, c1, s2)
              | Ret _ \<Rightarrow>
                  if killed p (sch s2) \<noteq> 0
                  then rbind (kexit cpu p (-1) (sch s2)) (\<lambda>sc. Inr (TrapExits, c1, s2\<lparr>sch := sc\<rparr>))
                  else let (c2, s3) = prepare_return t h p c1 s2
                       in Inr (UserReturn (MAKE_SATP t (pagetable (proc_at s3 p))), c2, s3)))"

text \<open>\<open>kerneltrap\<close>; \<open>intr_get\<close> says whether interrupts are enabled.\<close>

definition kerneltrap ::
  "trap_h \<Rightarrow> int \<Rightarrow> nat \<Rightarrow> (sched \<Rightarrow> sched) \<Rightarrow> ('e disk kernel \<Rightarrow> 'e disk kernel) \<Rightarrow> bool \<Rightarrow> csrs \<Rightarrow> 'e disk kernel
   \<Rightarrow> (csrs \<times> 'e disk kernel) res" where
  "kerneltrap t irq cpu resume uartintr intr_get c s =
     panic_if (sstatus c AND SSTATUS_SPP t = 0) ''kerneltrap: not from supervisor mode''
       (panic_if intr_get ''kerneltrap: interrupts enabled''
          (rbind (devintr t irq cpu resume uartintr (scause c) s)
             (\<lambda>(which_dev, s1). panic_if (which_dev = 0) ''kerneltrap'' (Inr (c\<lparr>sepc := sepc c, sstatus := sstatus c\<rparr>, s1)))))"


section \<open>Page faults of user programs\<close>

lemma same_procs_fields:
  assumes "same_procs s s'" "i < nproc s"
  shows "pkilled (procs s' ! i) = pkilled (procs s ! i)" "trapframe (procs s' ! i) = trapframe (procs s ! i)" "initproc s' = initproc s"
proof -
  have eq: "map forget_stats (procs s') = map forget_stats (procs s)" and r: "s'\<lparr>procs := []\<rparr> = s\<lparr>procs := []\<rparr>" using assms(1) by (simp_all add: same_procs_def)
  have "map forget_stats (procs s') ! i = map forget_stats (procs s) ! i" by (simp only: eq)
  then have e: "forget_stats (procs s' ! i) = forget_stats (procs s ! i)" using assms same_procs_nth(1) [OF assms(1)] by simp
  show "pkilled (procs s' ! i) = pkilled (procs s ! i)" "trapframe (procs s' ! i) = trapframe (procs s ! i)"
    using arg_cong [OF e, of pkilled] arg_cong [OF e, of trapframe] by (simp_all add: forget_stats_def)
  show "initproc s' = initproc s" using arg_cong [OF r, of initproc] by simp
qed

lemma kexit_returns:
  assumes "initproc s \<noteq> Some i" "i < nproc s"
  shows "\<exists>s'. kexit cpu i status s = Inr s' \<and> nproc s' = nproc s \<and> pstate (procs s' ! i) = ZOMBIE \<and> xstate (procs s' ! i) = status
     \<and> (\<forall>j < nproc s. pagetable (procs s' ! j) = pagetable (procs s ! j) \<and> plevel (procs s' ! j) = plevel (procs s ! j))"
proof -
  have n: "nproc (reparent (Some i) i s) = nproc s" by (rule reparent_spec)
  obtain s' where s': "kexit cpu i status s = Inr s'"
    using assms n by (auto simp: kexit_def Let_def sched_switch_def upd_proc_nth split: option.split)
  note k = kexit_spec [OF s' assms(2)]
  have "pagetable (procs s' ! j) = pagetable (procs s ! j) \<and> plevel (procs s' ! j) = plevel (procs s ! j)" if "j < nproc s" for j
    using k(4) [OF that] k(5) by (cases "j = i") (auto simp: woken_def adopted_def split: if_splits)
  then show ?thesis using s' k(2,5) by auto
qed

context user_paging
begin

text \<open>The state after writes to the trapframe of \<open>p\<close>: the registers in \<open>R\<close> may have changed.\<close>

definition tf_changed :: "nat \<Rightarrow> tf_reg set \<Rightarrow> (u64 \<Rightarrow> role) \<Rightarrow> u64 list \<Rightarrow> 'd vm \<Rightarrow> 'd vm \<Rightarrow> bool" where
  "tf_changed p R own xs s s' \<longleftrightarrow>
     vm_ok h rinv own xs s' \<and> sch s' = sch s
   \<and> (\<forall>q va. uaddr h s q va \<longrightarrow> pte_of h s' q va = pte_of h s q va \<and> upage h slot_data s' q va = upage h slot_data s q va)
   \<and> (\<forall>r. r \<notin> R \<longrightarrow> tf_get p r s' = tf_get p r s)"

lemma tf_changed_set:
  assumes "tf_changed p R own xs s s'" "own (trapframe (proc_at s p)) = Kernel"
  shows "tf_changed p (insert r R) own xs s (tf_set p r w s')"
proof -
  have sc: "sch s' = sch s" and ok: "vm_ok h rinv own xs s'" using assms(1) by (simp_all add: tf_changed_def)
  have tf: "own (trapframe (proc_at s' p)) = Kernel" using assms(2) sc by simp
  have u: "uaddr h s' q va \<longleftrightarrow> uaddr h s q va" for q va using sc by (simp add: uaddr_def)
  show ?thesis using assms(1) tf_set_ok [OF ok tf] u unfolding tf_changed_def by auto
qed

lemma prepare_return_ok:
  assumes ok: "vm_ok h rinv own xs s" and tf: "own (trapframe (proc_at s p)) = Kernel"
  shows "\<exists>c' s'. prepare_return t h p c s = (c', s') \<and> sepc c' = tf_get p TF_epc s
     \<and> tf_changed p {TF_kernel_satp, TF_kernel_sp, TF_kernel_trap, TF_kernel_hartid} own xs s s'"
proof -
  have "tf_changed p {} own xs s s" using ok by (simp add: tf_changed_def)
  note 4 = tf_changed_set [OF tf_changed_set [OF tf_changed_set [OF tf_changed_set [OF this tf] tf] tf] tf]
  obtain c' s' where r: "prepare_return t h p c s = (c', s')" by (cases "prepare_return t h p c s")
  then have e: "sepc c' = tf_get p TF_epc s'" by (auto simp: prepare_return_def Let_def)
  have "tf_changed p {TF_kernel_satp, TF_kernel_sp, TF_kernel_trap, TF_kernel_hartid} own xs s s'"
    using r 4 [of TF_kernel_hartid TF_kernel_trap TF_kernel_sp TF_kernel_satp] by (auto simp: prepare_return_def Let_def insert_commute)
  then show ?thesis using r e by (auto simp: tf_changed_def)
qed

text \<open>\<open>vmfault\<close> after the program counter was saved in the trapframe.\<close>

lemma fault_in_trap:
  assumes ok: "vm_ok h rinv own xs s" and p: "p < nproc (sch s)" "pagetable (proc_at s p) \<noteq> 0" "psz (proc_at s p) \<le> MAXVA h"
    and tf: "own (trapframe (proc_at s p)) = Kernel" and s1: "s1 = tf_set p TF_epc e s"
  shows "\<exists>r s2 own2 xs2. vmfault h so (Some p) (pagetable (proc_at s1 p)) va0 s1 = Inr (r, s2) \<and> kept h slot_data rinv own s own2 xs2 s2
     \<and> own2 (trapframe (proc_at s2 p)) = Kernel \<and> tf_get p TF_epc s2 = e
     \<and> (if r = 0 then psz (proc_at s p) \<le> va0 \<or> pte_of h s p (PGROUNDDOWN h va0) AND PTE_V h \<noteq> 0 \<and> \<not> user_pte h (pte_of h s p (PGROUNDDOWN h va0))
            \<or> user_frame_count (fr s2) = 0 \<or> swap_full s2 \<or> length xs2 \<le> 2
        else va0 < psz (proc_at s p) \<and> user_pte h (pte_of h s2 p (PGROUNDDOWN h va0)))"
proof -
  let ?va = "PGROUNDDOWN h va0"
  note t = tf_set_ok [OF ok tf, where r = TF_epc and w = e, folded s1]
  have e1: "tf_get p TF_epc s1 = e" using t(4) by simp
  have um: "umem h slot_data s1 q va = umem h slot_data s q va" if "uaddr h s q va" for q va using t(3) [OF that] by (simp add: umem_def)
  have k1: "kept h slot_data rinv own s own xs s1" using t(1,2) um by (simp add: kept_def)
  show ?thesis
  proof (cases "va0 < psz (proc_at s p)")
    case False
    then have "psz (proc_at s1 p) \<le> va0" using leI t(2) by simp
    then have "vmfault h so (Some p) (pagetable (proc_at s1 p)) va0 s1 = Inr (0, s1)" by (simp add: vmfault_def)
    then show ?thesis using k1 tf t(2) e1 leI [OF False] by (intro exI [of _ 0] exI [of _ s1] exI [of _ own] exI [of _ xs]) simp
  next
    case True
    have lt: "?va < MAXVA h" using True p(3) pgrounddown_le [of va0] by (meson le_less_trans less_le_trans)
    then have u: "uaddr h s p ?va" using p by (simp add: uaddr_def)
    obtain r s2 where v: "vmfault h so (Some p) (pagetable (proc_at s1 p)) va0 s1 = Inr (r, s2)" "fault_answer p ?va own s1 (r, s2)"
      using vmfault_spec [OF t(1), of p va0] p True t(2) by auto
    obtain own2 xs2 where k: "kept h slot_data rinv own s1 own2 xs2 s2"
      "if r = 0 then pte_of h s1 p ?va AND PTE_V h \<noteq> 0 \<and> \<not> user_pte h (pte_of h s1 p ?va)
            \<or> user_frame_count (fr s2) = 0 \<or> swap_full s2 \<or> length xs2 \<le> 2
       else user_pte h (pte_of h s2 p ?va) \<and> PTE2PA h (pte_of h s2 p ?va) = r \<and> pm (km s2) r = umem h slot_data s1 p ?va"
      "\<forall>a. own a = Kernel \<longrightarrow> own2 a = Kernel \<and> pm (km s2) a = pm (km s1) a"
      using fault_answer_cases [OF v(2)] by blast
    have tfp: "trapframe (proc_at s2 p) = trapframe (proc_at s p)" using same_procs_fields(2) [of "sch s1" "sch s2" p] k(1) p(1) t(2) by (simp add: kept_def)
    have "tf_get p TF_epc s2 = e" using e1 k(3) tf tfp t(2) by (simp add: tf_get_def)
    moreover have "own2 (trapframe (proc_at s2 p)) = Kernel" using k(3) tf tfp by simp
    moreover have "pte_of h s1 p ?va = pte_of h s p ?va" using t(3) [OF u] by simp
    ultimately show ?thesis using v(1) kept_trans [OF k1 k(1)] k(2) True
      by (intro exI [of _ r] exI [of _ s2] exI [of _ own2] exI [of _ xs2]) auto
  qed
qed

end


section \<open>Properties\<close>


text \<open>The process of the forked system faults on its page 0, which is in the swap area.\<close>

definition std_trap :: trap_h where
  "std_trap = \<lparr>SSTATUS_SPP = 256, SSTATUS_SPIE = 32, MAKE_SATP = (\<lambda>pt. 9223372036854775808 OR drop_bit 12 pt), UART0_IRQ = 10, VIRTIO0_IRQ = 1,
     kernelvec = 2147500032, uservec_off = 0, usertrap_addr = 2147504128\<rparr>"

definition fault_csrs :: "u64 \<Rightarrow> csrs" where
  "fault_csrs cause = \<lparr>sstatus = 0, scause = cause, sepc = 64, stval = 100, satp = 0, tp = 0, stvec = 0\<rparr>"


text \<open>
  C37: A store to a read-only page is retried for ever. When a store traps on a page that is mapped for user mode but not writable, \<open>vmfault\<close>
  finds the page mapped and returns its frame, so \<open>usertrap\<close> does not kill the process: it returns to the same instruction, with the entry of
  the page and the mark for a kill as they were.
\<close>

theorem read_only_store_is_retried:
  assumes "sv39 h" "swap_stack vh dev img seen dinv capacity bs rows"
    and "vm_ok h (stack_rinv bs img seen dinv rows rootdev) own xs s"
    and "p < nproc (sch s)" "pagetable (proc_at s p) \<noteq> 0" "psz (proc_at s p) \<le> MAXVA h" "own (trapframe (proc_at s p)) = Kernel"
    and "killed p (sch s) = 0" "scause c = 15" "sstatus c AND SSTATUS_SPP t = 0"
    and "va = PGROUNDDOWN h (stval c)" "stval c < psz (proc_at s p)" "user_pte h (pte_of h s p va)" "pte_of h s p va AND PTE_W h = 0"
  shows "\<exists>c' s'. usertrap t h sh (stack_swap vh bs dev fuel level me rootdev) irq cpu resume uartintr p c s
       = Inr (UserReturn (MAKE_SATP t (pagetable (proc_at s p))), c', s')
     \<and> sepc c' = sepc c \<and> pte_of h s' p va = pte_of h s p va \<and> killed p (sch s') = 0"
proof -
  note up = stack_paging [OF assms(1,2), of fuel level me rootdev]
  let ?so = "stack_swap vh bs dev fuel level me rootdev" and ?rinv = "stack_rinv bs img seen dinv rows rootdev" and ?sd = "stack_slot bs img"
  define s1 where "s1 = tf_set p TF_epc (sepc c) s"
  define s2 where "s2 = s1\<lparr>fr := touch_frame p va (fr s1)\<rparr>"
  note t = user_paging.tf_set_ok [OF up assms(3,7), where r = TF_epc and w = "sepc c", folded s1_def]
  have lt: "va < MAXVA h" "page_aligned va"
    using assms(6,11,12) sv39.pgrounddown_le [OF assms(1), of "stval c"] sv39.pgrounddown_aligned [OF assms(1)]
    by (auto intro: le_less_trans less_le_trans)
  then have u: "uaddr h s p va" using assms(4,5) by (simp add: uaddr_def)
  have e: "pte_of h s1 p va = pte_of h s p va" using t(3) [OF u] by simp
  have pa: "PTE2PA h (pte_of h s p va) \<noteq> 0"
    using user_paging.owned_nonzero [OF up vm_okD(1) [OF assms(3)]] user_paging.user_frame_role [OF up assms(3) u assms(13)] by simp
  have vf: "vmfault h ?so (Some p) (pagetable (proc_at s1 p)) (stval c) s1 = Inr (PTE2PA h (pte_of h s p va), s2)"
    using assms(11-13) e t(2) lt sv39.ismapped_pte [OF assms(1) lt(1)] sv39.walkaddr_pte [OF assms(1) lt(1)]
    by (simp add: vmfault_def user_pte_def s2_def not_le [symmetric] Let_def)
  have ok2: "vm_ok h ?rinv own xs s2"
    using user_paging.paged_same_frames [OF up t(1) touch_frame_same] by (simp add: s2_def paged_def)
  have sc: "sch s2 = sch s" "km s2 = km s1" using t(2) by (simp_all add: s2_def)
  have tf2: "own (trapframe (proc_at s2 p)) = Kernel" using sc assms(7) by simp
  have dev: "devintr t irq cpu resume uartintr (scause c) s1 = Inr (0, s1)" using assms(9) by (simp add: devintr_def)
  have tc: "trap_cause t h sh ?so irq cpu resume uartintr p (c\<lparr>stvec := kernelvec t\<rparr>) s1 = Inr (Ret 0, s2)"
    using dev vf assms(9) pa by (simp add: trap_cause_def)
  obtain c' s' where pr: "prepare_return t h p (c\<lparr>stvec := kernelvec t\<rparr>) s2 = (c', s')" "sepc c' = tf_get p TF_epc s2"
    "user_paging.tf_changed h ?sd ?rinv p {TF_kernel_satp, TF_kernel_sp, TF_kernel_trap, TF_kernel_hartid} own xs s2 s'"
    using user_paging.prepare_return_ok [OF up ok2 tf2] by blast
  have ch: "sch s' = sch s2" "\<And>q a. uaddr h s2 q a \<Longrightarrow> pte_of h s' q a = pte_of h s2 q a"
    using pr(3) unfolding user_paging.tf_changed_def [OF up] by blast+
  have "usertrap t h sh ?so irq cpu resume uartintr p c s = Inr (UserReturn (MAKE_SATP t (pagetable (proc_at s p))), c', s')"
    using assms(8,10) tc pr(1) ch(1) sc by (simp add: usertrap_def s1_def [symmetric] Let_def)
  moreover have "sepc c' = sepc c" using pr(2) t(4) [of TF_epc] sc t(2) by (simp add: tf_get_def)
  moreover have "uaddr h s2 p va" using u sc by (simp add: uaddr_def)
  then have "pte_of h s' p va = pte_of h s2 p va" by (rule ch(2))
  then have "pte_of h s' p va = pte_of h s p va" using e sc t(2) by simp
  ultimately show ?thesis using ch(1) sc assms(8) by simp
qed

text \<open>A process whose page 0 is mapped for reading only.\<close>

definition ro_mem :: kmem where
  "ro_mem = \<lparr>pm = (\<lambda>a. replicate page_bytes 0)(2147680256 := put64 0 536922113 (replicate page_bytes 0),
       2147688448 := put64 0 536923137 (replicate page_bytes 0), 2147692544 := put64 0 536924179 (replicate page_bytes 0)),
     freelist = 0\<rparr>"

definition ro_own :: "u64 \<Rightarrow> role" where
  "ro_own = (\<lambda>a. Unowned)(2147680256 := Table 2147680256 [], 2147684352 := Kernel, 2147688448 := Table 2147680256 [0],
     2147692544 := Table 2147680256 [0, 0], 2147696640 := Frame 2147680256 [0, 0, 0])"

definition ro_vm :: "blk_dev disk bio raid vm" where
  "ro_vm = fork_vm\<lparr>km := ro_mem, fr := kinit_frames\<rparr>"

lemma ro_pte_val:
  assumes "i < 512"
  shows "pte_val ro_mem (2147680256, i) = (if i = 0 then 536922113 else 0)" "pte_val ro_mem (2147688448, i) = (if i = 0 then 536923137 else 0)"
    "pte_val ro_mem (2147692544, i) = (if i = 0 then 536924179 else 0)"
  using assms get64_put64 [of 0 "replicate page_bytes 0" i] by (simp_all add: pte_val_def ro_mem_def)

lemma ro_next: "next_table riscv_std ro_mem 2147680256 0 = Some 2147688448" "next_table riscv_std ro_mem 2147688448 0 = Some 2147692544"
  by (simp_all add: next_table_def ro_pte_val) (simp_all add: riscv_std_def)

lemma ro_mem_ok: "mem_ok riscv_std ro_own [] ro_mem"
proof -
  have "free_list riscv_std ro_mem []" by (simp add: free_list_def ro_mem_def)
  moreover have "phys_ok riscv_std a" if "ro_own a \<noteq> Unowned" for a
    using that by (auto simp: ro_own_def phys_ok_def page_aligned_unat riscv_std_def split: if_splits)
  moreover have "length (pm ro_mem a) = page_bytes" for a by (simp add: ro_mem_def)
  moreover have "\<exists>a. ro_own a = Table r p \<and> i < 512 \<and> next_table riscv_std ro_mem a i = Some b" if "ro_own b = Table r (p @ [i])" for b r p i
  proof -
    have "b = 2147688448 \<and> r = 2147680256 \<and> p = [] \<and> i = 0 \<or> b = 2147692544 \<and> r = 2147680256 \<and> p = [0] \<and> i = 0"
      using that by (auto simp: ro_own_def append_eq_Cons_conv split: if_splits)
    moreover have "ro_own 2147680256 = Table 2147680256 []" "ro_own 2147688448 = Table 2147680256 [0]" by (simp_all add: ro_own_def)
    ultimately show ?thesis using ro_next by auto
  qed
  moreover have "entry_ok riscv_std ro_own r p i (pte_val ro_mem (a, i))" if "ro_own a = Table r p" "i < 512" for a r p i
    using that by (auto simp: ro_own_def ro_pte_val entry_ok_def riscv_std_def split: if_splits)
  moreover have "length p \<le> 2 \<and> (p = [] \<longrightarrow> a = r)" if "ro_own a = Table r p" for a r p using that by (auto simp: ro_own_def split: if_splits)
  moreover have "ro_own a \<noteq> Free" for a by (simp add: ro_own_def)
  ultimately show ?thesis by (intro mem_okI) simp_all
qed

lemma ro_procs:
  "nproc (sch ro_vm) = 2" "pagetable (proc_at ro_vm 0) = 2147680256" "psz (proc_at ro_vm 0) = 8192" "trapframe (proc_at ro_vm 0) = 2147684352"
  "pagetable (proc_at ro_vm 1) = 0" "plevel (proc_at ro_vm 0) = 0" "plevel (proc_at ro_vm 1) = 0" "killed 0 (sch ro_vm) = 0"
  by (simp_all add: ro_vm_def fork_vm_def small_vm_def killed_def)

lemma ro_pte: "pte_of riscv_std ro_vm 0 0 = 536924179"
proof -
  have px: "PX riscv_std 2 0 = 0" "PX riscv_std 1 0 = 0" "PX riscv_std 0 0 = 0" by (simp_all add: riscv_std_def)
  have "pte_at riscv_std ro_mem 2147680256 0 = 536924179" using ro_next unfolding pte_at_def leaf_slot_def px by (simp add: ro_pte_val)
  then show ?thesis using ro_procs(2) by (simp add: ro_vm_def)
qed

lemma ro_vm_ok: "vm_ok riscv_std (stack_rinv 1024 dv_img dv_seen (\<lambda>d. True) 512 1) ro_own [] ro_vm"
proof (rule vm_okI)
  show "mem_ok riscv_std ro_own [] (km ro_vm)" "frames_ok (fr ro_vm)" using ro_mem_ok kinit_frames_ok by (simp_all add: ro_vm_def)
  show "stack_rinv 1024 dv_img dv_seen (\<lambda>d. True) 512 1 (swp ro_vm)"
    using boot_stack_inv [of 1] by (simp add: stack_rinv_def ro_vm_def fork_vm_def)
  fix p va k
  assume "find_swap p va (fr ro_vm) = Some k"
  then have "k < MAX_SWAP_PAGES \<and> sused (swap_map kinit_frames ! k)" using find_swap_Some [OF kinit_frames_ok] by (simp add: ro_vm_def)
  then show "uaddr riscv_std ro_vm p va \<and> pte_of riscv_std ro_vm p va AND PTE_V riscv_std = 0" by (auto simp: kinit_frames_def no_swap_def)
next
  fix p
  assume "p < nproc (sch ro_vm)"
  then have p: "p = 0 \<or> p = 1" using ro_procs(1) by auto
  then show "0 \<le> plevel (proc_at ro_vm p) \<and> plevel (proc_at ro_vm p) \<le> 3" using ro_procs by auto
  show "ro_own (pagetable (proc_at ro_vm p)) = Table (pagetable (proc_at ro_vm p)) []" if "pagetable (proc_at ro_vm p) \<noteq> 0"
    using p that ro_procs by (auto simp: ro_own_def)
  show "p = q" if "q < nproc (sch ro_vm)" "pagetable (proc_at ro_vm p) \<noteq> 0" "pagetable (proc_at ro_vm p) = pagetable (proc_at ro_vm q)" for q
  proof -
    have "q = 0 \<or> q = 1" using that(1) ro_procs(1) by auto
    then show ?thesis using p that ro_procs by auto
  qed
next
  fix i p
  have "\<not> tracked (fr ro_vm) i" by (auto simp: tracked_def ro_vm_def kinit_frames_def no_frame_def)
  then show "p < nproc (sch ro_vm) \<and> page_aligned (fva (frame_table (fr ro_vm) ! i)) \<and> fva (frame_table (fr ro_vm) ! i) < MAXVA riscv_std
      \<and> (pagetable (proc_at ro_vm p) \<noteq> 0 \<and> pte_of riscv_std ro_vm p (fva (frame_table (fr ro_vm) ! i)) AND PTE_V riscv_std \<noteq> 0 \<longrightarrow>
           pte_of riscv_std ro_vm p (fva (frame_table (fr ro_vm) ! i)) AND PTE_U riscv_std \<noteq> 0)" if "tracked (fr ro_vm) i"
    using that by blast
qed

theorem read_only_store_is_retried_witness:
  "\<exists>c' s'. usertrap std_trap riscv_std no_sysfile small_swap 0 0 (\<lambda>x. x) (\<lambda>x. x) 0 (fault_csrs 15) ro_vm
       = Inr (UserReturn (MAKE_SATP std_trap 2147680256), c', s')
     \<and> sepc c' = 64 \<and> pte_of riscv_std s' 0 0 = 536924179 \<and> killed 0 (sch s') = 0"
proof -
  have va: "0 = PGROUNDDOWN riscv_std (stval (fault_csrs 15))" by (simp add: riscv_std_def fault_csrs_def)
  have e: "user_pte riscv_std (pte_of riscv_std ro_vm 0 0)" "pte_of riscv_std ro_vm 0 0 AND PTE_W riscv_std = 0"
    unfolding ro_pte by (simp_all add: user_pte_def riscv_std_def)
  have c: "scause (fault_csrs 15) = 15" "sstatus (fault_csrs 15) AND SSTATUS_SPP std_trap = 0" "sepc (fault_csrs 15) = 64" "stval (fault_csrs 15) < psz (proc_at ro_vm 0)"
    using ro_procs(3) by (simp_all add: fault_csrs_def)
  have "psz (proc_at ro_vm 0) \<le> MAXVA riscv_std" "ro_own (trapframe (proc_at ro_vm 0)) = Kernel"
    using ro_procs(3,4) by (simp_all add: riscv_std_def ro_own_def)
  then show ?thesis
    using read_only_store_is_retried [OF std39.sv39_axioms xv6.swap_stack_axioms ro_vm_ok, where p = 0 and c = "fault_csrs 15" and t = std_trap and fuel = 0
      and level = "\<lambda>p. 0" and me = None and sh = no_sysfile and irq = 0 and cpu = 0 and resume = "\<lambda>x. x" and uartintr = "\<lambda>x. x", OF _ _ _ _ _ c(1,2) va c(4) e]
      ro_procs(1,2,8) c(3) ro_pte by auto
qed

end
