(* ===== verification/Ulib.thy ===== *)
theory Ulib
  imports Xv6_Prelude
begin

text \<open>
  The user library \<open>user/ulib.c\<close> over a memory of bytes. Loops that end only if a 0 byte (or a non-digit) is found are partial functions:
  not returning is \<open>None\<close>. A \<open>char\<close> is unsigned, as on RISC-V. System calls are parameters.
\<close>

section \<open>Operations\<close>

type_synonym memory = "u64 \<Rightarrow> u8"

partial_function (option) strcpy_loop :: "u64 \<Rightarrow> u64 \<Rightarrow> memory \<Rightarrow> memory option" where
  "strcpy_loop s t m =
     (let m1 = m(s := m t) in if m1 s \<noteq> 0 then strcpy_loop (s + 1) (t + 1) m1 else Some m1)"

definition strcpy :: "u64 \<Rightarrow> u64 \<Rightarrow> memory \<Rightarrow> (u64 \<times> memory) option" where
  "strcpy s t m = map_option (\<lambda>m1. (s, m1)) (strcpy_loop s t m)"

partial_function (option) strcmp :: "u64 \<Rightarrow> u64 \<Rightarrow> memory \<Rightarrow> int option" where
  "strcmp p q m = (if m p \<noteq> 0 \<and> m p = m q then strcmp (p + 1) (q + 1) m else Some (uint (m p) - uint (m q)))"

partial_function (option) strlen_loop :: "u64 \<Rightarrow> int \<Rightarrow> memory \<Rightarrow> int option" where
  "strlen_loop s n m = (if m (s + of_int n) \<noteq> 0 then strlen_loop s (c_int (n + 1)) m else Some n)"

definition strlen :: "u64 \<Rightarrow> memory \<Rightarrow> u32 option" where
  "strlen s m = map_option of_int (strlen_loop s 0 m)"

definition memset :: "u64 \<Rightarrow> int \<Rightarrow> u32 \<Rightarrow> memory \<Rightarrow> u64 \<times> memory" where
  "memset dst c n m = (dst, fold (\<lambda>i m. m(dst + of_nat i := of_int c)) [0..<unat n] m)"

partial_function (option) strchr :: "u64 \<Rightarrow> u8 \<Rightarrow> memory \<Rightarrow> u64 option" where
  "strchr s c m = (if m s \<noteq> 0 then if m s = c then Some s else strchr (s + 1) c m else Some 0)"

text \<open>\<open>gets\<close>; \<open>rd\<close> is \<open>read(0, &c, 1)\<close>: its result, the byte and the new state of the input.\<close>

function gets_loop :: "('w \<Rightarrow> int \<times> u8 \<times> 'w) \<Rightarrow> u64 \<Rightarrow> int \<Rightarrow> int \<Rightarrow> memory \<Rightarrow> 'w \<Rightarrow> int \<times> memory \<times> 'w" where
  "gets_loop rd buf mx i m w =
     (if i + 1 < mx
      then case rd w of
             (cc, c, w1) \<Rightarrow>
               if cc < 1 then (i, m, w1)
               else if c = 10 \<or> c = 13 then (i + 1, m(buf + of_int i := c), w1)
               else gets_loop rd buf mx (i + 1) (m(buf + of_int i := c)) w1
      else (i, m, w))"
  by pat_completeness auto
termination by (relation "measure (\<lambda>(rd, buf, mx, i, m, w). nat (mx - i))") auto

declare gets_loop.simps [simp del]

definition gets :: "('w \<Rightarrow> int \<times> u8 \<times> 'w) \<Rightarrow> u64 \<Rightarrow> int \<Rightarrow> memory \<Rightarrow> 'w \<Rightarrow> u64 \<times> memory \<times> 'w" where
  "gets rd buf mx m w = (case gets_loop rd buf mx 0 m w of (i, m1, w1) \<Rightarrow> (buf, m1(buf + of_int i := 0), w1))"

text \<open>\<open>stat\<close> over the system calls \<open>open(n, O_RDONLY)\<close>, \<open>fstat\<close> and \<open>close\<close>.\<close>

definition stat ::
  "(u64 \<Rightarrow> 'w \<Rightarrow> int \<times> 'w) \<Rightarrow> (int \<Rightarrow> u64 \<Rightarrow> 'w \<Rightarrow> int \<times> 'w) \<Rightarrow> (int \<Rightarrow> 'w \<Rightarrow> int \<times> 'w) \<Rightarrow> u64 \<Rightarrow> u64 \<Rightarrow> 'w \<Rightarrow> int \<times> 'w" where
  "stat open_ro fstat close n st w =
     (let (fd, w1) = open_ro n w
      in if fd < 0 then (-1, w1)
         else let (r, w2) = fstat fd st w1; (_, w3) = close fd w2 in (r, w3))"

partial_function (option) atoi_loop :: "u64 \<Rightarrow> int \<Rightarrow> memory \<Rightarrow> int option" where
  "atoi_loop s n m = (if 48 \<le> m s \<and> m s \<le> 57 then atoi_loop (s + 1) (c_int (n * 10 + uint (m s) - 48)) m else Some n)"

definition atoi :: "u64 \<Rightarrow> memory \<Rightarrow> int option" where
  "atoi s m = atoi_loop s 0 m"

text \<open>The two loops of \<open>memmove\<close>, forward from the start and backward from the end of the range.\<close>

primrec copy_up :: "nat \<Rightarrow> u64 \<Rightarrow> u64 \<Rightarrow> memory \<Rightarrow> memory" where
  "copy_up 0 dst src m = m"
| "copy_up (Suc n) dst src m = copy_up n (dst + 1) (src + 1) (m(dst := m src))"

primrec copy_down :: "nat \<Rightarrow> u64 \<Rightarrow> u64 \<Rightarrow> memory \<Rightarrow> memory" where
  "copy_down 0 dst src m = m"
| "copy_down (Suc n) dst src m = copy_down n (dst - 1) (src - 1) (m(dst - 1 := m (src - 1)))"

definition memmove :: "u64 \<Rightarrow> u64 \<Rightarrow> int \<Rightarrow> memory \<Rightarrow> u64 \<times> memory" where
  "memmove vdst vsrc n m =
     (vdst, if vsrc > vdst then copy_up (nat n) vdst vsrc m
            else copy_down (nat n) (vdst + of_int n) (vsrc + of_int n) m)"

primrec memcmp_loop :: "nat \<Rightarrow> u64 \<Rightarrow> u64 \<Rightarrow> memory \<Rightarrow> int" where
  "memcmp_loop 0 p1 p2 m = 0"
| "memcmp_loop (Suc n) p1 p2 m = (if m p1 \<noteq> m p2 then uint (m p1) - uint (m p2) else memcmp_loop n (p1 + 1) (p2 + 1) m)"

definition memcmp :: "u64 \<Rightarrow> u64 \<Rightarrow> u32 \<Rightarrow> memory \<Rightarrow> int" where
  "memcmp s1 s2 n m = memcmp_loop (unat n) s1 s2 m"

text \<open>The count of \<open>memcpy\<close> is unsigned, the one of \<open>memmove\<close> is an \<open>int\<close>.\<close>

definition memcpy :: "u64 \<Rightarrow> u64 \<Rightarrow> u32 \<Rightarrow> memory \<Rightarrow> u64 \<times> memory" where
  "memcpy dst src n m = memmove dst src (c_int (uint n)) m"

definition sbrk :: "(int \<Rightarrow> int \<Rightarrow> 'w \<Rightarrow> u64 \<times> 'w) \<Rightarrow> int \<Rightarrow> int \<Rightarrow> 'w \<Rightarrow> u64 \<times> 'w" where
  "sbrk sys_sbrk SBRK_LAZY n w = sys_sbrk n SBRK_LAZY w"

definition sbrklazy :: "(int \<Rightarrow> int \<Rightarrow> 'w \<Rightarrow> u64 \<times> 'w) \<Rightarrow> int \<Rightarrow> int \<Rightarrow> 'w \<Rightarrow> u64 \<times> 'w" where
  "sbrklazy sys_sbrk SBRK_LAZY n w = sys_sbrk n SBRK_LAZY w"


section \<open>Ranges of addresses\<close>

text \<open>The \<open>n\<close> bytes from \<open>a\<close> on do not run past the end of the address space.\<close>

definition fits :: "u64 \<Rightarrow> nat \<Rightarrow> bool" where
  "fits a n \<longleftrightarrow> unat a + n \<le> 2 ^ 64"

lemma fits_nth: "fits a n \<Longrightarrow> i < n \<Longrightarrow> unat (a + of_nat i) = unat a + i"
  by (simp add: fits_def unat_plus_if' unat_of_nat)

lemma unat_lt64: "unat (a :: u64) < 2 ^ 64"
  using unsigned_less [where 'a = nat, of a] by simp

lemma offset_of_nat: "i < 2 ^ 64 \<Longrightarrow> unat (a + of_nat i - (a :: u64)) = i"
  by (simp add: unat_of_nat)

lemma offset_eq: "unat (b - a) = i \<Longrightarrow> b = (a :: u64) + of_nat i"
  by auto

lemma copy_up_nth:
  assumes "fits dst n" "fits src n" "dst < src"
  shows "copy_up n dst src m a = (if unat (a - dst) < n then m (src + (a - dst)) else m a)"
  using assms
proof (induction n arbitrary: dst src m)
  case 0
  then show ?case by simp
next
  case (Suc n)
  let ?m = "m(dst := m src)"
  have lt: "unat dst < unat src" using Suc.prems(3) by (simp add: word_less_nat_alt)
  show ?case
  proof (cases "n = 0")
    case True
    then show ?thesis by (auto simp: unat_eq_zero)
  next
    case False
    have s: "unat (dst + 1) = unat dst + 1" "unat (src + 1) = unat src + 1"
      using fits_nth [OF Suc.prems(1), of 1] fits_nth [OF Suc.prems(2), of 1] False by simp_all
    have IH: "copy_up n (dst + 1) (src + 1) ?m a = (if unat (a - (dst + 1)) < n then ?m (src + 1 + (a - (dst + 1))) else ?m a)"
      using Suc.prems s lt by (intro Suc.IH) (simp_all add: fits_def word_less_nat_alt)
    show ?thesis
    proof (cases "a = dst")
      case True
      have "unat (dst - (dst + 1)) = 2 ^ 64 - 1" by (simp add: unsigned_minus_1_eq_mask mask_eq_exp_minus_1)
      moreover have "n \<le> 2 ^ 64 - 1" using Suc.prems(1) by (simp add: fits_def)
      ultimately show ?thesis using IH True by simp
    next
      case ne: False
      define k where "k = unat (a - dst)"
      have k0: "k \<noteq> 0" using ne by (simp add: k_def unat_eq_zero)
      have "unat (a - (dst + 1)) = k - 1"
        using k0 unat_minus_one [of "a - dst"] ne by (simp add: k_def diff_diff_add)
      moreover have "src + (a - dst) \<noteq> dst" if "k < Suc n"
      proof
        assume e: "src + (a - dst) = dst"
        have "unat (src + of_nat k) = unat src + k" using fits_nth [OF Suc.prems(2) that] .
        then show False using e lt by (simp add: k_def)
      qed
      ultimately show ?thesis using IH k0 ne by (auto simp: k_def [symmetric] algebra_simps)
    qed
  qed
qed

lemma copy_down_nth:
  assumes "fits dst n" "fits src n" "src \<le> dst"
  shows "copy_down n (dst + of_nat n) (src + of_nat n) m a = (if unat (a - dst) < n then m (src + (a - dst)) else m a)"
  using assms
proof (induction n arbitrary: m)
  case 0
  then show ?case by simp
next
  case (Suc n)
  let ?m = "m(dst + of_nat n := m (src + of_nat n))"
  have le: "unat src \<le> unat dst" using Suc.prems(3) by (simp add: word_le_nat_alt)
  have IH: "copy_down n (dst + of_nat n) (src + of_nat n) ?m a = (if unat (a - dst) < n then ?m (src + (a - dst)) else ?m a)"
    using Suc.prems by (intro Suc.IH) (simp_all add: fits_def)
  have step: "copy_down (Suc n) (dst + of_nat (Suc n)) (src + of_nat (Suc n)) m a = copy_down n (dst + of_nat n) (src + of_nat n) ?m a"
    by (simp add: algebra_simps)
  have n: "unat (dst + of_nat n) = unat dst + n" using fits_nth [OF Suc.prems(1), of n] by simp
  show ?case
  proof (cases "unat (a - dst) < n")
    case True
    have "unat (src + of_nat (unat (a - dst))) = unat src + unat (a - dst)" using fits_nth [OF Suc.prems(2), of "unat (a - dst)"] True by simp
    then have "unat (src + (a - dst)) \<noteq> unat (dst + of_nat n)" using n le True by simp
    then have "src + (a - dst) \<noteq> dst + of_nat n" by metis
    then show ?thesis using IH step True by simp
  next
    case False
    have "unat (a - dst) = n \<longleftrightarrow> a = dst + of_nat n"
      using Suc.prems(1) offset_of_nat [of n dst] offset_eq [of a dst n] by (auto simp: fits_def)
    then show ?thesis using IH step False by (auto simp: less_Suc_eq)
  qed
qed

lemma memmove_eq:
  assumes "0 \<le> n" "fits vdst (nat n)" "fits vsrc (nat n)"
  shows "memmove vdst vsrc n m = (vdst, \<lambda>a. if unat (a - vdst) < nat n then m (vsrc + (a - vdst)) else m a)"
proof (cases "vdst < vsrc")
  case True
  then show ?thesis using copy_up_nth [OF assms(2,3)] by (auto simp: memmove_def)
next
  case False
  have "(of_int n :: u64) = of_nat (nat n)" using assms(1) by (simp add: of_nat_nat)
  then show ?thesis using copy_down_nth [OF assms(2,3)] False by (auto simp: memmove_def)
qed

lemma c_int_negative:
  assumes "2 ^ 31 \<le> x" "x < 2 ^ 32"
  shows "c_int x \<le> 0"
proof -
  have "take_bit (Suc 31) (x - 2 ^ 32) = take_bit (Suc 31) x" by (simp add: take_bit_eq_mod)
  then have "c_int (x - 2 ^ 32) = c_int x" unfolding c_int_def by (simp only: signed_take_bit_eq_iff_take_bit_eq)
  moreover have "c_int (x - 2 ^ 32) = x - 2 ^ 32" using assms by (intro c_int_id) simp_all
  ultimately show ?thesis using assms by simp
qed

text \<open>
  C31: \<open>memmove\<close> is correct for overlapping ranges. For ranges that do not wrap around the address space, the bytes of the destination are
  afterwards those the source had before the call, in whatever way the two ranges overlap, and no other byte has changed.
\<close>

theorem memmove_overlap:
  assumes "0 \<le> n" "n < 2 ^ 31" "fits vdst (nat n)" "fits vsrc (nat n)"
  shows "memmove vdst vsrc n m = (vdst, \<lambda>a. if unat (a - vdst) < nat n then m (vsrc + (a - vdst)) else m a)"
  by (rule memmove_eq [OF assms(1,3,4)])

theorem memmove_overlap_witness:
  "memmove 102 100 4 (\<lambda>a. ucast a) = (102, \<lambda>a. if unat (a - 102) < 4 then ucast (100 + (a - 102)) else ucast a)"
  using memmove_overlap [of 4 102 100] by (simp add: fits_def)


lemma memcmp_loop_0: "memcmp_loop n p q m = 0 \<longleftrightarrow> (\<forall>i < n. m (p + of_nat i) = m (q + of_nat i))"
proof (induction n arbitrary: p q)
  case (Suc n)
  have "(\<forall>i < Suc n. m (p + of_nat i) = m (q + of_nat i)) \<longleftrightarrow> m p = m q \<and> (\<forall>i < n. m (p + 1 + of_nat i) = m (q + 1 + of_nat i))"
    by (auto simp: All_less_Suc2 algebra_simps)
  then show ?case using Suc by (auto simp: word_uint_eq_iff)
qed simp

text \<open>
  C35: \<open>memcpy\<close> and \<open>memcmp\<close> agree: after a copy of less than \<open>2 ^ 31\<close> bytes between ranges that do not overlap, \<open>memcmp\<close>
  of the two ranges is 0. A count of \<open>2 ^ 31\<close> or more is negative for \<open>memmove\<close>, and nothing is copied.
\<close>

theorem memcpy_then_memcmp:
  assumes "fits dst (unat n)" "fits src (unat n)" "unat dst + unat n \<le> unat src \<or> unat src + unat n \<le> unat dst"
  shows "if n < 2 ^ 31 then memcmp dst src n (snd (memcpy dst src n m)) = 0 else memcpy dst src n m = (dst, m)"
proof (cases "n < 2 ^ 31")
  case True
  then have n: "unat n < 2 ^ 31" by (simp add: word_less_nat_alt)
  have u: "uint n < 2 ^ 31" "nat (uint n) = unat n" using True by (simp_all add: word_less_def)
  have c: "c_int (uint n) = uint n" using u(1) uint_ge_0 [of n] by (intro c_int_id) linarith+
  have e: "snd (memcpy dst src n m) = (\<lambda>a. if unat (a - dst) < unat n then m (src + (a - dst)) else m a)"
    using memmove_eq [of "uint n" dst src m] assms(1,2) u(2) by (simp add: memcpy_def c)
  have "snd (memcpy dst src n m) (dst + of_nat i) = snd (memcpy dst src n m) (src + of_nat i)" if "i < unat n" for i
  proof -
    have i: "unat (of_nat i :: u64) = i" using that n by (simp add: unat_of_nat)
    have "\<not> unat (src + of_nat i - dst) < unat n"
    proof
      assume j: "unat (src + of_nat i - dst) < unat n"
      have "unat (dst + of_nat (unat (src + of_nat i - dst))) = unat dst + unat (src + of_nat i - dst)" by (rule fits_nth [OF assms(1) j])
      then have "unat (src + of_nat i) = unat dst + unat (src + of_nat i - dst)" by simp
      moreover have "unat (src + of_nat i) = unat src + i" by (rule fits_nth [OF assms(2) that])
      ultimately show False using assms(3) that j by auto
    qed
    then show ?thesis using that i by (simp add: e)
  qed
  then show ?thesis using True by (simp add: memcmp_def memcmp_loop_0)
next
  case False
  then have n: "2 ^ 31 \<le> uint n" by (simp add: word_less_def)
  have "c_int (uint n) \<le> 0" using uint_lt2p [of n] by (intro c_int_negative [OF n]) simp
  then show ?thesis using False by (simp add: memcpy_def memmove_def)
qed

theorem memcpy_then_memcmp_witness: "memcmp 100 200 16 (snd (memcpy 100 200 16 (\<lambda>a. ucast a))) = 0"
  using memcpy_then_memcmp [of 100 16 200] by (simp add: fits_def)


section \<open>Strings\<close>

text \<open>The string \<open>xs\<close>, without a 0 in it, is at \<open>a\<close> and ends with a 0.\<close>

definition c_string :: "memory \<Rightarrow> u64 \<Rightarrow> u8 list \<Rightarrow> bool" where
  "c_string m a xs \<longleftrightarrow> fits a (Suc (length xs)) \<and> (\<forall>i < length xs. m (a + of_nat i) = xs ! i \<and> xs ! i \<noteq> 0) \<and> m (a + of_nat (length xs)) = 0"

lemma c_string_Nil: "c_string m a [] \<longleftrightarrow> m a = 0"
  using unat_lt64 [of a] by (auto simp: c_string_def fits_def)

lemma c_string_Cons: "c_string m a (x # xs) \<Longrightarrow> m a = x \<and> x \<noteq> 0 \<and> c_string m (a + 1) xs"
proof -
  assume c: "c_string m a (x # xs)"
  have f: "fits a (Suc (length (x # xs)))" and n: "\<And>i. i < length (x # xs) \<Longrightarrow> m (a + of_nat i) = (x # xs) ! i \<and> (x # xs) ! i \<noteq> 0"
    and z: "m (a + of_nat (length (x # xs))) = 0" using c by (simp_all add: c_string_def)
  have "unat (a + 1) = unat a + 1" using fits_nth [OF f, of 1] by simp
  then have "fits (a + 1) (Suc (length xs))" using f by (simp add: fits_def)
  moreover have "m (a + 1 + of_nat i) = xs ! i \<and> xs ! i \<noteq> 0" if "i < length xs" for i using n [of "Suc i"] that by (simp add: algebra_simps)
  moreover have "m (a + 1 + of_nat (length xs)) = 0" using z by (simp add: algebra_simps)
  ultimately show ?thesis using n [of 0] by (simp add: c_string_def)
qed

lemma strlen_loop_string:
  "c_string m (a + of_int n) xs \<Longrightarrow> 0 \<le> n \<Longrightarrow> n + int (length xs) < 2 ^ 31 \<Longrightarrow> strlen_loop a n m = Some (n + int (length xs))"
proof (induction xs arbitrary: n)
  case Nil
  then show ?case by (simp add: strlen_loop.simps [of a n m] c_string_Nil)
next
  case (Cons x xs)
  note c = c_string_Cons [OF Cons.prems(1)]
  have "c_string m (a + of_int (n + 1)) xs" using c by (simp add: algebra_simps)
  then have "strlen_loop a (n + 1) m = Some (n + 1 + int (length xs))" using Cons.prems by (intro Cons.IH) simp_all
  moreover have "c_int (n + 1) = n + 1" using Cons.prems by (intro c_int_id) simp_all
  ultimately show ?case using c by (simp add: strlen_loop.simps [of a n m])
qed

lemma strlen_string: "c_string m a xs \<Longrightarrow> length xs < 2 ^ 31 \<Longrightarrow> strlen a m = Some (of_nat (length xs))"
  using strlen_loop_string [of m a 0 xs] by (simp add: strlen_def)

lemma byte_diff_0: "uint a - uint b = 0 \<longleftrightarrow> a = (b :: u8)"
  by (auto simp: word_uint_eq_iff)

lemma strcmp_differ: "\<not> (m p \<noteq> 0 \<and> m p = m q) \<Longrightarrow> strcmp p q m = Some (uint (m p) - uint (m q))"
  by (subst strcmp.simps) auto

lemma strcmp_strings:
  "c_string m p xs \<Longrightarrow> c_string m q ys \<Longrightarrow> \<exists>v. strcmp p q m = Some v \<and> (v = 0 \<longleftrightarrow> xs = ys)"
proof (induction xs arbitrary: p q ys)
  case Nil
  then have p: "m p = 0" by (simp add: c_string_Nil)
  then show ?case using Nil.prems(2) byte_diff_0 [of "m p" "m q"] strcmp_differ [of m p q]
    by (cases ys) (auto simp: c_string_Nil dest: c_string_Cons)
next
  case (Cons x xs)
  note c = c_string_Cons [OF Cons.prems(1)]
  show ?case
  proof (cases "ys \<noteq> [] \<and> hd ys = x")
    case True
    then obtain ys' where ys: "ys = x # ys'" by (cases ys) auto
    then have d: "m q = x" "c_string m (q + 1) ys'" using Cons.prems(2) c_string_Cons by blast+
    obtain v where "strcmp (p + 1) (q + 1) m = Some v" "v = 0 \<longleftrightarrow> xs = ys'" using Cons.IH [of "p + 1" "q + 1" ys'] c d by blast
    then show ?thesis using c d ys by (subst strcmp.simps) simp
  next
    case False
    have "m q \<noteq> m p" using False c Cons.prems(2) by (cases ys) (auto simp: c_string_Nil dest: c_string_Cons)
    moreover have "ys \<noteq> x # xs" using False by auto
    ultimately show ?thesis using strcmp_differ [of m p q] byte_diff_0 [of "m p" "m q"] by auto
  qed
qed

lemma strcpy_loop_string:
  "c_string m t xs \<Longrightarrow> fits s (Suc (length xs)) \<Longrightarrow> unat s + length xs < unat t \<or> unat t + length xs < unat s \<Longrightarrow>
     strcpy_loop s t m = Some (\<lambda>a. if unat (a - s) \<le> length xs then (xs @ [0]) ! unat (a - s) else m a)"
proof (induction xs arbitrary: s t m)
  case Nil
  have "m(s := 0) = (\<lambda>a. if unat (a - s) \<le> 0 then ([] @ [0]) ! unat (a - s) else m a)" by (rule ext) (simp add: unat_eq_zero)
  then show ?case using Nil by (subst strcpy_loop.simps) (simp add: c_string_Nil)
next
  case (Cons x xs)
  note c = c_string_Cons [OF Cons.prems(1)]
  have t: "fits t (Suc (Suc (length xs)))" using Cons.prems(1) by (simp add: c_string_def)
  have s1: "unat (s + 1) = unat s + 1" "unat (t + 1) = unat t + 1"
    using fits_nth [OF Cons.prems(2), of 1] fits_nth [OF t, of 1] by simp_all
  let ?m = "m(s := x)"
  have cs: "c_string ?m (t + 1) xs"
  proof -
    have "t + 1 + of_nat i \<noteq> s" if "i \<le> length xs" for i
    proof
      assume e: "t + 1 + of_nat i = s"
      have "unat (t + of_nat (Suc i)) = unat t + Suc i" using fits_nth [OF t, of "Suc i"] that by simp
      moreover have "t + of_nat (Suc i) = s" using e by (simp add: algebra_simps)
      ultimately have "unat s = unat t + Suc i" by simp
      then show False using Cons.prems(3) that by auto
    qed
    then show ?thesis using c by (auto simp: c_string_def)
  qed
  have "fits (s + 1) (Suc (length xs))" "unat (s + 1) + length xs < unat (t + 1) \<or> unat (t + 1) + length xs < unat (s + 1)"
    using Cons.prems(2,3) s1 by (auto simp: fits_def)
  note IH = Cons.IH [OF cs this]
  have "(if unat (a - (s + 1)) \<le> length xs then (xs @ [0]) ! unat (a - (s + 1)) else ?m a)
      = (if unat (a - s) \<le> length (x # xs) then ((x # xs) @ [0]) ! unat (a - s) else m a)" for a
  proof (cases "a = s")
    case True
    have "unat (s - (s + 1)) = 2 ^ 64 - 1" by (simp add: unsigned_minus_1_eq_mask mask_eq_exp_minus_1)
    moreover have "length xs < 2 ^ 64 - 1" using Cons.prems(2) by (simp add: fits_def)
    ultimately show ?thesis using True by simp
  next
    case False
    then have "unat (a - s) = Suc (unat (a - (s + 1)))" using unat_minus_one [of "a - s"] unat_eq_zero [of "a - s"] by (simp add: diff_diff_add)
    then show ?thesis using False by simp
  qed
  then have "strcpy_loop (s + 1) (t + 1) ?m = Some (\<lambda>a. if unat (a - s) \<le> length (x # xs) then ((x # xs) @ [0]) ! unat (a - s) else m a)"
    unfolding IH by (intro arg_cong [of _ _ Some] ext)
  then show ?case using c by (subst strcpy_loop.simps) simp
qed

text \<open>
  C32: \<open>strcpy\<close> returns and copies the string with its 0, if source and destination do not overlap; no other byte changes. The copy has the
  length of the original, and \<open>strcmp\<close> finds them equal.
\<close>

theorem strcpy_then_strcmp:
  assumes "c_string m t xs" "fits s (Suc (length xs))" "unat s + length xs < unat t \<or> unat t + length xs < unat s" "length xs < 2 ^ 31"
  shows "\<exists>m1. strcpy s t m = Some (s, m1) \<and> c_string m1 s xs \<and> strlen s m1 = Some (of_nat (length xs)) \<and> strcmp s t m1 = Some 0
     \<and> (\<forall>a. length xs < unat (a - s) \<longrightarrow> m1 a = m a)"
proof -
  let ?m = "\<lambda>a. if unat (a - s) \<le> length xs then (xs @ [0]) ! unat (a - s) else m a"
  have "strcpy s t m = Some (s, ?m)" using strcpy_loop_string [OF assms(1-3)] by (simp add: strcpy_def)
  moreover have s: "c_string ?m s xs"
  proof -
    have "unat (of_nat i :: u64) = i" if "i \<le> length xs" for i using that assms(4) by (simp add: unat_of_nat)
    then show ?thesis using assms(1,2) by (simp add: c_string_def nth_append)
  qed
  moreover have t: "c_string ?m t xs"
  proof -
    have f: "fits t (Suc (length xs))" using assms(1) by (simp add: c_string_def)
    have "\<not> unat (t + of_nat i - s) \<le> length xs" if "i \<le> length xs" for i
    proof
      assume j: "unat (t + of_nat i - s) \<le> length xs"
      have "unat (s + of_nat (unat (t + of_nat i - s))) = unat s + unat (t + of_nat i - s)" 
        using j by (intro fits_nth [OF assms(2)]) simp
      then have "unat (t + of_nat i) = unat s + unat (t + of_nat i - s)" by simp
      moreover have "unat (t + of_nat i) = unat t + i" using fits_nth [OF f] that by simp
      ultimately show False using assms(3) that j by auto
    qed
    then show ?thesis using assms(1) by (auto simp: c_string_def)
  qed
  moreover have "strcmp s t ?m = Some 0" using strcmp_strings [OF s t] by auto
  ultimately show ?thesis using strlen_string [OF s assms(4)] by (intro exI [of _ ?m] conjI) simp_all
qed

theorem strcpy_then_strcmp_witness:
  "\<exists>m1. strcpy 200 100 ((\<lambda>a. 7)(103 := 0)) = Some (200, m1) \<and> c_string m1 200 [7, 7, 7] \<and> strcmp 200 100 m1 = Some 0"
proof -
  have "c_string ((\<lambda>a. 7)(103 := 0)) 100 [7, 7, 7]"
    by (simp add: c_string_def fits_def All_less_Suc)
  from strcpy_then_strcmp [OF this, of 200] show ?thesis by (auto simp: fits_def)
qed


section \<open>Numbers and lines\<close>

definition is_digit :: "u8 \<Rightarrow> bool" where
  "is_digit c \<longleftrightarrow> 48 \<le> c \<and> c \<le> 57"

lemma atoi_loop_stop: "\<not> is_digit (m s) \<Longrightarrow> atoi_loop s n m = Some n"
  by (subst atoi_loop.simps) (auto simp: is_digit_def)

lemma atoi_loop_step: "is_digit (m s) \<Longrightarrow> atoi_loop s n m = atoi_loop (s + 1) (c_int (n * 10 + uint (m s) - 48)) m"
  by (subst atoi_loop.simps) (simp add: is_digit_def)

text \<open>The number a row of digits stands for, and the digits of a number.\<close>

definition dec_value :: "int \<Rightarrow> u8 list \<Rightarrow> int" where
  "dec_value n ds = foldl (\<lambda>n d. n * 10 + uint d - 48) n ds"

fun dec_digits :: "nat \<Rightarrow> u8 list" where
  "dec_digits n = (if n < 10 then [of_nat (48 + n)] else dec_digits (n div 10) @ [of_nat (48 + n mod 10)])"

declare dec_digits.simps [simp del]

lemma digit_bounds: "is_digit d \<Longrightarrow> 48 \<le> uint d \<and> uint d \<le> 57"
  by (simp add: is_digit_def word_le_def)

lemma dec_value_mono: "(\<forall>d \<in> set ds. is_digit d) \<Longrightarrow> 0 \<le> n \<Longrightarrow> n \<le> dec_value n ds"
proof (induction ds arbitrary: n)
  case Nil
  then show ?case by (simp add: dec_value_def)
next
  case (Cons d ds)
  have d: "48 \<le> uint d" using digit_bounds Cons.prems(1) by simp
  have "n * 10 + uint d - 48 \<le> dec_value (n * 10 + uint d - 48) ds" using Cons d by simp
  then show ?case using d Cons.prems(2) by (simp add: dec_value_def)
qed

lemma atoi_loop_digits:
  assumes "\<forall>d \<in> set ds. is_digit d" "\<forall>i < length ds. m (s + of_nat i) = ds ! i" "\<not> is_digit (m (s + of_nat (length ds)))"
    and "0 \<le> n" "dec_value n ds < 2 ^ 31"
  shows "atoi_loop s n m = Some (dec_value n ds)"
  using assms
proof (induction ds arbitrary: s n)
  case Nil
  then show ?case by (simp add: atoi_loop_stop dec_value_def)
next
  case (Cons d ds)
  let ?n = "n * 10 + uint d - 48"
  have d: "m s = d" "is_digit d" using Cons.prems(1) Cons.prems(2) [rule_format, of 0] by simp_all
  have v: "dec_value n (d # ds) = dec_value ?n ds" by (simp add: dec_value_def)
  have n: "0 \<le> ?n" using digit_bounds [OF d(2)] Cons.prems(4) by simp
  moreover have "?n \<le> dec_value ?n ds" using dec_value_mono Cons.prems(1) n by simp
  ultimately have "c_int ?n = ?n" using Cons.prems(5) v by (intro c_int_id) simp_all
  moreover have "m (s + 1 + of_nat i) = ds ! i" if "i < length ds" for i
    using Cons.prems(2) [rule_format, of "Suc i"] that by (simp add: algebra_simps)
  moreover have "\<not> is_digit (m (s + 1 + of_nat (length ds)))" using Cons.prems(3) by (simp add: algebra_simps)
  ultimately show ?case using Cons.IH [of "s + 1" ?n] Cons.prems(1,5) d n v by (simp add: atoi_loop_step)
qed

lemma digit_uint: "k < 10 \<Longrightarrow> uint (of_nat (48 + k) :: u8) = 48 + int k"
proof -
  assume k: "k < 10"
  have "unat (of_nat (48 + k) :: u8) = (48 + k) mod 2 ^ 8" unfolding unat_of_nat by simp
  then show "uint (of_nat (48 + k) :: u8) = 48 + int k" using k by (simp only: uint_nat) simp
qed

lemma dec_digits_digit: "d \<in> set (dec_digits n) \<Longrightarrow> is_digit d"
proof (induction n rule: dec_digits.induct)
  case (1 n)
  have one: "is_digit (of_nat (48 + k))" if "k < 10" for k
    using digit_uint [OF that] that unfolding is_digit_def word_le_def by simp
  show ?case
  proof (cases "n < 10")
    case True
    then have "d = of_nat (48 + n)" using 1(2) by (simp add: dec_digits.simps)
    then show ?thesis using one [OF True] by simp
  next
    case False
    then have "d \<in> set (dec_digits (n div 10)) \<or> d = of_nat (48 + n mod 10)" using 1(2) by (subst (asm) dec_digits.simps) auto
    then show ?thesis using 1(1) [OF False] one [of "n mod 10"] by auto
  qed
qed

lemma dec_value_digits: "dec_value 0 (dec_digits n) = int n"
proof (induction n rule: dec_digits.induct)
  case (1 n)
  show ?case
  proof (cases "n < 10")
    case True
    then show ?thesis using digit_uint [OF True] by (simp add: dec_digits.simps dec_value_def)
  next
    case False
    then have "dec_digits n = dec_digits (n div 10) @ [of_nat (48 + n mod 10)]" by (simp add: dec_digits.simps)
    moreover have "int (n div 10) * 10 + int (n mod 10) = int n" by (metis div_mult_mod_eq of_nat_add of_nat_mult of_nat_numeral)
    ultimately show ?thesis using 1 [OF False] digit_uint [of "n mod 10"] by (simp add: dec_value_def)
  qed
qed

text \<open>
  C33: \<open>atoi\<close> inverts decimal notation: for a number below \<open>2 ^ 31\<close>, written with its decimal digits and followed by anything but
  a digit, it returns and gives the number.
\<close>

theorem atoi_decimal:
  assumes "n < 2 ^ 31" "\<forall>i < length (dec_digits n). m (s + of_nat i) = dec_digits n ! i" "\<not> is_digit (m (s + of_nat (length (dec_digits n))))"
  shows "atoi s m = Some (int n)"
  using atoi_loop_digits [OF _ assms(2,3), of 0] assms(1) dec_digits_digit dec_value_digits [of n] by (simp add: atoi_def)

theorem atoi_decimal_witness: "atoi 100 ((\<lambda>a. 0)(100 := 52, 101 := 50)) = Some 42"
proof -
  have "dec_digits 42 = [52, 50]" by (simp add: dec_digits.simps)
  then show ?thesis using atoi_decimal [of 42 "(\<lambda>a. 0)(100 := 52, 101 := 50)" 100] by (simp add: All_less_Suc is_digit_def)
qed

lemma gets_loop_spec:
  assumes "gets_loop rd buf mx i m w = (k, m1, w1)" "0 \<le> i" "i < mx" "mx < 2 ^ 31"
  shows "i \<le> k \<and> k < mx \<and> (\<forall>a. unat (a - buf) < nat i \<or> nat k \<le> unat (a - buf) \<longrightarrow> m1 a = m a)"
  using assms
proof (induction rd buf mx i m w rule: gets_loop.induct)
  case (1 rd buf mx i m w)
  obtain cc c w' where r: "rd w = (cc, c, w')" by (cases "rd w") auto
  have at: "unat (a - buf) = nat i" if "a = buf + of_int i" for a
  proof -
    have "(of_int i :: u64) = of_nat (nat i)" using 1(3) by (simp add: of_nat_nat)
    then show ?thesis using that 1(4,5) by (simp add: unat_of_nat)
  qed
  consider (stop) "k = i" "m1 = m" | (newline) "k = i + 1" "i + 1 < mx" "m1 = m(buf + of_int i := c)"
    | (go) "gets_loop rd buf mx (i + 1) (m(buf + of_int i := c)) w' = (k, m1, w1)" "i + 1 < mx" "\<not> cc < 1" "\<not> (c = 10 \<or> c = 13)"
    using 1(2) r by (subst (asm) gets_loop.simps) (auto split: if_splits)
  then show ?case
  proof cases
    case stop
    then show ?thesis using 1(4) by simp
  next
    case newline
    then show ?thesis using 1(3) at by (auto simp: nat_add_distrib)
  next
    case go
    have "i + 1 \<le> k \<and> k < mx \<and> (\<forall>a. unat (a - buf) < nat (i + 1) \<or> nat k \<le> unat (a - buf) \<longrightarrow> m1 a = (m(buf + of_int i := c)) a)"
      using 1(1) [OF go(2) r [symmetric] refl go(3,4) go(1)] 1(3,5) go(2) by simp
    then show ?thesis using 1(3) at by (auto simp: nat_add_distrib)
  qed
qed

text \<open>
  C34: \<open>gets\<close> returns whatever the input does, and writes only inside its buffer: for a buffer of \<open>mx \<ge> 1\<close> bytes it
  leaves a 0 at some index below \<open>mx\<close> and changes no byte behind it.
\<close>

theorem gets_stays_in_buffer:
  assumes "1 \<le> mx" "mx < 2 ^ 31" "gets rd buf mx m w = (r, m1, w1)"
  shows "r = buf \<and> (\<exists>k. 0 \<le> k \<and> k < mx \<and> m1 (buf + of_int k) = 0 \<and> (\<forall>a. nat k < unat (a - buf) \<longrightarrow> m1 a = m a))"
proof -
  obtain k m2 w2 where g: "gets_loop rd buf mx 0 m w = (k, m2, w2)" by (cases "gets_loop rd buf mx 0 m w") auto
  then have m1: "r = buf" "m1 = m2(buf + of_int k := 0)" using assms(3) unfolding gets_def g by auto
  note s = gets_loop_spec [OF g _ _ assms(2)]
  have k: "0 \<le> k" "k < mx" using s assms(1) by simp_all
  have "(of_int k :: u64) = of_nat (nat k)" using k(1) by (simp add: of_nat_nat)
  then have "unat (buf + of_int k - buf) = nat k" using k(2) assms(2) by (simp add: unat_of_nat)
  then show ?thesis using m1 s assms(1) k by (intro conjI exI [of _ k]) auto
qed

theorem gets_stays_in_buffer_witness:
  "\<exists>m1 w1 k. gets (\<lambda>w. (1, 65, w)) 100 3 (\<lambda>a. 9) () = (100, m1, w1) \<and> k < 3 \<and> m1 (100 + of_int k) = 0 \<and> m1 103 = 9"
proof -
  obtain r m1 w1 where g: "gets (\<lambda>w. (1, 65, w)) 100 3 (\<lambda>a. 9) () = (r, m1, w1)"
    by (cases "gets (\<lambda>w. (1, 65, w)) 100 3 (\<lambda>a. 9) ()") auto
  from gets_stays_in_buffer [OF _ _ g] have s: "r = 100 \<and> (\<exists>k. 0 \<le> k \<and> k < 3 \<and> m1 (100 + of_int k) = 0 \<and> (\<forall>a. nat k < unat (a - 100) \<longrightarrow> m1 a = 9))" by simp
  then obtain k where k: "0 \<le> k" "k < 3" "m1 (100 + of_int k) = 0" "\<forall>a. nat k < unat (a - 100) \<longrightarrow> m1 a = 9" by blast
  have "m1 103 = 9" using k(1,2) k(4) [rule_format, of 103] by simp
  then show ?thesis using g s k by blast
qed

end
