(* ===== verification/Virtio_Init.thy ===== *)
theory Virtio_Init
  imports Kalloc
begin

unbundle bit_operations_syntax

text \<open>
  \<open>virtio_disk_init\<close> of \<open>kernel/virtio_disk.c\<close>. The device's registers are not code: they are the arguments \<open>rd\<close> and \<open>wr\<close>,
  what a load from and a store to a register do. The constants of \<open>virtio.h\<close> are a record argument. The lemmas give the exact sequence of
  stores, so the order of the handshake that the virtio standard prescribes can be read off.
\<close>

datatype mmio_reg =
    MAGIC_VALUE | VERSION | DEVICE_ID | VENDOR_ID | STATUS | DEVICE_FEATURES | DRIVER_FEATURES
  | QUEUE_SEL | QUEUE_READY | QUEUE_NUM_MAX | QUEUE_NUM
  | QUEUE_DESC_LOW | QUEUE_DESC_HIGH | DRIVER_DESC_LOW | DRIVER_DESC_HIGH | DEVICE_DESC_LOW | DEVICE_DESC_HIGH

record virtio_cfg =
  S_ACKNOWLEDGE :: u32
  S_DRIVER :: u32
  S_DRIVER_OK :: u32
  S_FEATURES_OK :: u32
  BLK_F_RO :: nat
  BLK_F_SCSI :: nat
  BLK_F_CONFIG_WCE :: nat
  BLK_F_MQ :: nat
  F_ANY_LAYOUT :: nat
  RING_F_EVENT_IDX :: nat
  RING_F_INDIRECT_DESC :: nat

text \<open>The device, the page allocator, and the fields of \<open>disk\<close> that are set.\<close>

record 'm init_state =
  mmio :: 'm
  init_mem :: kmem
  disk_desc :: u64
  disk_avail :: u64
  disk_used :: u64
  desc_free :: "bool list"

definition clear_feature :: "nat \<Rightarrow> u64 \<Rightarrow> u64" where
  "clear_feature k f = f AND NOT (push_bit k 1)"

definition driver_features :: "virtio_cfg \<Rightarrow> u32 \<Rightarrow> u64" where
  "driver_features c f =
     clear_feature (RING_F_INDIRECT_DESC c) (clear_feature (RING_F_EVENT_IDX c) (clear_feature (F_ANY_LAYOUT c)
       (clear_feature (BLK_F_MQ c) (clear_feature (BLK_F_CONFIG_WCE c) (clear_feature (BLK_F_SCSI c)
         (clear_feature (BLK_F_RO c) (ucast f)))))))"

text \<open>The three pages of the queue; each \<open>kalloc\<close> runs before the results are tested.\<close>

definition queue_pages :: "'m init_state \<Rightarrow> 'm init_state res" where
  "queue_pages s =
     (let (a, m1) = kalloc (init_mem s); (b, m2) = kalloc m1; (c, m3) = kalloc m2;
          z = replicate page_bytes 0
      in panic_if (a = 0 \<or> b = 0 \<or> c = 0) ''virtio disk kalloc''
           (Inr (s\<lparr>disk_desc := a, disk_avail := b, disk_used := c,
                  init_mem := set_page c z (set_page b z (set_page a z m3))\<rparr>)))"

definition store :: "(mmio_reg \<Rightarrow> u32 \<Rightarrow> 'm \<Rightarrow> 'm) \<Rightarrow> mmio_reg \<Rightarrow> u32 \<Rightarrow> 'm init_state \<Rightarrow> 'm init_state" where
  "store wr r v s = s\<lparr>mmio := wr r v (mmio s)\<rparr>"

text \<open>From \<open>QUEUE_NUM\<close> to the end.\<close>

definition start_queue ::
  "virtio_cfg \<Rightarrow> (mmio_reg \<Rightarrow> u32 \<Rightarrow> 'm \<Rightarrow> 'm) \<Rightarrow> nat \<Rightarrow> u32 \<Rightarrow> 'm init_state \<Rightarrow> 'm init_state" where
  "start_queue c wr num status s =
     (let s1 = store wr QUEUE_NUM (of_nat num) s;
          s2 = store wr QUEUE_DESC_LOW (ucast (disk_desc s)) s1;
          s3 = store wr QUEUE_DESC_HIGH (ucast (drop_bit 32 (disk_desc s))) s2;
          s4 = store wr DRIVER_DESC_LOW (ucast (disk_avail s)) s3;
          s5 = store wr DRIVER_DESC_HIGH (ucast (drop_bit 32 (disk_avail s))) s4;
          s6 = store wr DEVICE_DESC_LOW (ucast (disk_used s)) s5;
          s7 = store wr DEVICE_DESC_HIGH (ucast (drop_bit 32 (disk_used s))) s6;
          s8 = store wr QUEUE_READY 1 s7;
          s9 = s8\<lparr>desc_free := replicate num True\<rparr>
      in store wr STATUS (status OR S_DRIVER_OK c) s9)"

definition virtio_disk_init ::
  "virtio_cfg \<Rightarrow> (mmio_reg \<Rightarrow> 'm \<Rightarrow> u32) \<Rightarrow> (mmio_reg \<Rightarrow> u32 \<Rightarrow> 'm \<Rightarrow> 'm) \<Rightarrow> nat \<Rightarrow> 'm init_state \<Rightarrow> 'm init_state res" where
  "virtio_disk_init c rd wr num s =
     panic_if (rd MAGIC_VALUE (mmio s) \<noteq> 0x74726976 \<or> rd VERSION (mmio s) \<noteq> 2 \<or> rd DEVICE_ID (mmio s) \<noteq> 2
               \<or> rd VENDOR_ID (mmio s) \<noteq> 0x554d4551) ''could not find virtio disk''
       (let s1 = store wr STATUS 0 s;
            s2 = store wr STATUS (0 OR S_ACKNOWLEDGE c) s1;
            s3 = store wr STATUS (0 OR S_ACKNOWLEDGE c OR S_DRIVER c) s2;
            s4 = store wr DRIVER_FEATURES (ucast (driver_features c (rd DEVICE_FEATURES (mmio s3)))) s3;
            s5 = store wr STATUS (0 OR S_ACKNOWLEDGE c OR S_DRIVER c OR S_FEATURES_OK c) s4;
            status = rd STATUS (mmio s5)
        in panic_if (status AND S_FEATURES_OK c = 0) ''virtio disk FEATURES_OK unset''
             (let s6 = store wr QUEUE_SEL 0 s5
              in panic_if (rd QUEUE_READY (mmio s6) \<noteq> 0) ''virtio disk should not be ready''
                   (let mx = rd QUEUE_NUM_MAX (mmio s6)
                    in panic_if (mx = 0) ''virtio disk has no queue 0''
                         (panic_if (mx < of_nat num) ''virtio disk max queue too short''
                            (rbind (queue_pages s6) (\<lambda>s7. Inr (start_queue c wr num status s7)))))))"


section \<open>The handshake\<close>

text \<open>Registers that record every store.\<close>

definition log_rd :: "(mmio_reg \<Rightarrow> 'm \<Rightarrow> u32) \<Rightarrow> mmio_reg \<Rightarrow> 'm \<times> (mmio_reg \<times> u32) list \<Rightarrow> u32" where
  "log_rd rd r d = rd r (fst d)"

definition log_wr ::
  "(mmio_reg \<Rightarrow> u32 \<Rightarrow> 'm \<Rightarrow> 'm) \<Rightarrow> mmio_reg \<Rightarrow> u32 \<Rightarrow> 'm \<times> (mmio_reg \<times> u32) list \<Rightarrow> 'm \<times> (mmio_reg \<times> u32) list" where
  "log_wr wr r v d = (wr r v (fst d), snd d @ [(r, v)])"

lemma log_sel [simp]: "log_rd rd r d = rd r (fst d)" "fst (log_wr wr r v d) = wr r v (fst d)" "snd (log_wr wr r v d) = snd d @ [(r, v)]"
  by (simp_all add: log_rd_def log_wr_def)

lemma store_sel [simp]:
  "mmio (store wr r v s) = wr r v (mmio s)" "init_mem (store wr r v s) = init_mem s" "disk_desc (store wr r v s) = disk_desc s"
  "disk_avail (store wr r v s) = disk_avail s" "disk_used (store wr r v s) = disk_used s" "desc_free (store wr r v s) = desc_free s"
  by (simp_all add: store_def)

lemma clear_feature_bit: "bit (clear_feature k f) i \<longleftrightarrow> bit f i \<and> i \<noteq> k"
  by (auto simp: clear_feature_def bit_and_iff bit_not_iff bit_exp_iff dest: bit_imp_le_length)

lemma driver_features_bit:
  "bit (driver_features c f) i \<longleftrightarrow> bit f i
     \<and> i \<notin> {BLK_F_RO c, BLK_F_SCSI c, BLK_F_CONFIG_WCE c, BLK_F_MQ c, F_ANY_LAYOUT c, RING_F_EVENT_IDX c, RING_F_INDIRECT_DESC c}"
  by (auto simp: driver_features_def clear_feature_bit bit_ucast_iff dest: bit_imp_le_length)

lemma queue_pages_three:
  assumes "free_list h (init_mem s) (a # b # c # xs)"
  shows "\<exists>m. queue_pages s = Inr (s\<lparr>disk_desc := a, disk_avail := b, disk_used := c, init_mem := m\<rparr>) \<and> free_list h m xs
     \<and> pm m a = replicate page_bytes 0 \<and> pm m b = replicate page_bytes 0 \<and> pm m c = replicate page_bytes 0"
proof -
  let ?z = "replicate page_bytes 0 :: u8 list" and ?five = "replicate page_bytes 5 :: u8 list"
  define m1 where "m1 = (init_mem s)\<lparr>freelist := get64 (pm (init_mem s) a) 0, pm := (pm (init_mem s))(a := ?five)\<rparr>"
  define m2 where "m2 = m1\<lparr>freelist := get64 (pm m1 b) 0, pm := (pm m1)(b := ?five)\<rparr>"
  define m3 where "m3 = m2\<lparr>freelist := get64 (pm m2 c) 0, pm := (pm m2)(c := ?five)\<rparr>"
  note 1 = kalloc_pop [OF assms, folded m1_def]
  have f1: "free_list h m1 (b # c # xs)" using 1(2) [of ?five] by (simp add: m1_def)
  note 2 = kalloc_pop [OF f1, folded m2_def]
  have f2: "free_list h m2 (c # xs)" using 2(2) [of ?five] by (simp add: m2_def)
  note 3 = kalloc_pop [OF f2, folded m3_def]
  have f3: "free_list h m3 xs" using 3(2) [of ?five] by (simp add: m3_def)
  let ?m = "set_page c ?z (set_page b ?z (set_page a ?z m3))"
  have "queue_pages s = Inr (s\<lparr>disk_desc := a, disk_avail := b, disk_used := c, init_mem := ?m\<rparr>)"
    using 1 2 3 by (simp add: queue_pages_def panic_if_def Let_def)
  moreover have "free_list h ?m xs" using f3 1 2 3 by (intro free_list_set_page) auto
  ultimately show ?thesis by auto
qed

text \<open>
  C30: The virtio handshake. When \<open>virtio_disk_init\<close> returns, it has stored to the registers exactly this sequence: reset, ACKNOWLEDGE, DRIVER, the
  features, FEATURES_OK, the choice of queue 0, its size and the addresses of its three pages, QUEUE_READY and, last, DRIVER_OK. It accepts only
  features the device offers and none of the seven it cannot handle, has seen FEATURES_OK stay set, and the three pages are
  distinct, zero, and no longer free.
\<close>

theorem virtio_handshake:
  assumes "virtio_disk_init v (log_rd rd) (log_wr wr) num s = Inr s'" "free_list h (init_mem s) (a # b # c # xs)"
  shows "\<exists>fs f st. snd (mmio s') = snd (mmio s) @
       [(STATUS, 0), (STATUS, S_ACKNOWLEDGE v), (STATUS, S_ACKNOWLEDGE v OR S_DRIVER v), (DRIVER_FEATURES, f),
        (STATUS, S_ACKNOWLEDGE v OR S_DRIVER v OR S_FEATURES_OK v), (QUEUE_SEL, 0), (QUEUE_NUM, of_nat num),
        (QUEUE_DESC_LOW, ucast a), (QUEUE_DESC_HIGH, ucast (drop_bit 32 a)), (DRIVER_DESC_LOW, ucast b),
        (DRIVER_DESC_HIGH, ucast (drop_bit 32 b)), (DEVICE_DESC_LOW, ucast c), (DEVICE_DESC_HIGH, ucast (drop_bit 32 c)),
        (QUEUE_READY, 1), (STATUS, st OR S_DRIVER_OK v)]
     \<and> fs = rd DEVICE_FEATURES (wr STATUS (S_ACKNOWLEDGE v OR S_DRIVER v) (wr STATUS (S_ACKNOWLEDGE v) (wr STATUS 0 (fst (mmio s)))))
     \<and> (\<forall>i. bit f i \<longleftrightarrow> bit fs i \<and> i \<notin> {BLK_F_RO v, BLK_F_SCSI v, BLK_F_CONFIG_WCE v, BLK_F_MQ v, F_ANY_LAYOUT v,
            RING_F_EVENT_IDX v, RING_F_INDIRECT_DESC v})
     \<and> st AND S_FEATURES_OK v \<noteq> 0 \<and> desc_free s' = replicate num True
     \<and> distinct [a, b, c] \<and> (\<forall>x \<in> {a, b, c}. pm (init_mem s') x = replicate page_bytes 0) \<and> free_list h (init_mem s') xs"
proof -
  define fs where "fs = rd DEVICE_FEATURES (wr STATUS (S_ACKNOWLEDGE v OR S_DRIVER v) (wr STATUS (S_ACKNOWLEDGE v) (wr STATUS 0 (fst (mmio s)))))"
  define f :: u32 where "f = ucast (driver_features v fs)"
  let ?s5 = "store (log_wr wr) STATUS (S_ACKNOWLEDGE v OR S_DRIVER v OR S_FEATURES_OK v) (store (log_wr wr) DRIVER_FEATURES f
     (store (log_wr wr) STATUS (S_ACKNOWLEDGE v OR S_DRIVER v) (store (log_wr wr) STATUS (S_ACKNOWLEDGE v) (store (log_wr wr) STATUS 0 s))))"
  let ?s6 = "store (log_wr wr) QUEUE_SEL 0 ?s5"
  define st where "st = rd STATUS (fst (mmio ?s5))"
  have "free_list h (init_mem ?s6) (a # b # c # xs)" using assms(2) by simp
  from queue_pages_three [OF this] obtain m where m:
    "queue_pages ?s6 = Inr (?s6\<lparr>disk_desc := a, disk_avail := b, disk_used := c, init_mem := m\<rparr>)" "free_list h m xs"
    "pm m a = replicate page_bytes 0" "pm m b = replicate page_bytes 0" "pm m c = replicate page_bytes 0" by blast
  let ?s7 = "?s6\<lparr>disk_desc := a, disk_avail := b, disk_used := c, init_mem := m\<rparr>"
  have s': "st AND S_FEATURES_OK v \<noteq> 0" "s' = start_queue v (log_wr wr) num st ?s7"
    using assms(1) m(1) unfolding virtio_disk_init_def
    by (simp_all add: Let_def panic_if_def f_def fs_def st_def split: if_splits)
  have "bit f i \<longleftrightarrow> bit fs i \<and> i \<notin> {BLK_F_RO v, BLK_F_SCSI v, BLK_F_CONFIG_WCE v, BLK_F_MQ v, F_ANY_LAYOUT v, RING_F_EVENT_IDX v, RING_F_INDIRECT_DESC v}" for i
    by (auto simp: f_def bit_ucast_iff driver_features_bit dest: bit_imp_le_length)
  moreover have "distinct [a, b, c]" using assms(2) by (simp add: free_list_def)
  ultimately show ?thesis
    using s' m by (intro exI [of _ fs] exI [of _ f] exI [of _ st]) (simp add: start_queue_def fs_def [symmetric])
qed

text \<open>Registers that answer every load the same way, with the constants of the standard.\<close>

definition std_cfg :: virtio_cfg where
  "std_cfg = \<lparr>S_ACKNOWLEDGE = 1, S_DRIVER = 2, S_DRIVER_OK = 4, S_FEATURES_OK = 8, BLK_F_RO = 5, BLK_F_SCSI = 7, BLK_F_CONFIG_WCE = 11,
     BLK_F_MQ = 12, F_ANY_LAYOUT = 27, RING_F_EVENT_IDX = 29, RING_F_INDIRECT_DESC = 28\<rparr>"

definition fixed_regs :: "mmio_reg \<Rightarrow> unit \<Rightarrow> u32" where
  "fixed_regs r u = (case r of MAGIC_VALUE \<Rightarrow> 0x74726976 | VERSION \<Rightarrow> 2 | DEVICE_ID \<Rightarrow> 2 | VENDOR_ID \<Rightarrow> 0x554d4551
     | STATUS \<Rightarrow> 11 | DEVICE_FEATURES \<Rightarrow> 0x30000020 | QUEUE_NUM_MAX \<Rightarrow> 1024 | _ \<Rightarrow> 0)"

definition three_pages :: "(unit \<times> (mmio_reg \<times> u32) list) init_state" where
  "three_pages = \<lparr>mmio = ((), []), init_mem = \<lparr>pm = (\<lambda>a. replicate page_bytes 0)(2147680256 := put64 0 2147684352 (replicate page_bytes 0),
       2147684352 := put64 0 2147688448 (replicate page_bytes 0)), freelist = 2147680256\<rparr>,
     disk_desc = 0, disk_avail = 0, disk_used = 0, desc_free = []\<rparr>"

theorem virtio_handshake_witness:
  "\<exists>s' st. virtio_disk_init std_cfg (log_rd fixed_regs) (log_wr (\<lambda>r v u. u)) 8 three_pages = Inr s'
     \<and> last (snd (mmio s')) = (STATUS, st) \<and> desc_free s' = replicate 8 True"
proof -
  have fl: "free_list riscv_std (init_mem three_pages) [2147680256, 2147684352, 2147688448]"
    by (simp add: free_list_def three_pages_def get64_put64 phys_ok_def page_aligned_unat riscv_std_def)
  let ?P = "\<lambda>s'. virtio_disk_init std_cfg (log_rd fixed_regs) (log_wr (\<lambda>r v u. u)) 8 three_pages = Inr s'"
  have "\<exists>s'. ?P s'"
  proof -
    have q: "\<exists>r. queue_pages s = Inr r" if "init_mem s = init_mem three_pages" for s :: "(unit \<times> (mmio_reg \<times> u32) list) init_state"
      using queue_pages_three [of riscv_std s 2147680256 2147684352 2147688448 "[]"] fl that by auto
    have ex: "\<exists>s'. rbind (queue_pages s) (\<lambda>s. Inr (f s)) = Inr s'" if "init_mem s = init_mem three_pages"
      for s :: "(unit \<times> (mmio_reg \<times> u32) list) init_state" and f :: "_ \<Rightarrow> (unit \<times> (mmio_reg \<times> u32) list) init_state"
      using q [OF that] by auto
    show ?thesis
      unfolding virtio_disk_init_def by (simp add: Let_def panic_if_def fixed_regs_def std_cfg_def) (rule ex, simp)
  qed
  then obtain s' where s': "?P s'" by blast
  from virtio_handshake [OF s' fl] show ?thesis using s' by (auto simp: three_pages_def)
qed

end
