(* ===== verification/Spec2Isabelle.thy ===== *)
theory Spec2Isabelle
  imports Trap Ulib Virtio_Init
begin

text \<open>
  A verification of an xv6 kernel with disk scheduling, RAID-backed swap and a four-level scheduler.


  \<^bold>\<open>The program.\<close> User pages live in frames that a frame table tracks. When frames run out, \<open>kalloc.c\<close> evicts
  one to the swap area; \<open>vm.c\<close> brings it back on a page fault. The swap area is the first half of
  \<open>virtio_disk.c\<close>: slots of one page, laid out over four simulated disks as RAID 0, 1 or 5. It reads and writes blocks through
  the buffer cache of \<open>bio.c\<close>, whose misses go through a queue of requests, served first come first served or by
  shortest seek, to the virtio driver in the second half of \<open>virtio_disk.c\<close>. The choice of the frame to evict depends on the
  level that the scheduler of \<open>proc.c\<close> and the timer interrupt of \<open>trap.c\<close> give to processes. Processes enter the
  kernel through \<open>trap.c\<close>, \<open>syscall.c\<close> and \<open>sysproc.c\<close>; \<open>user/ulib.c\<close> is linked to them.


  \<^bold>\<open>Conventions\<close> (theory \<open>Xv6_Prelude\<close>). A kernel function that may not return has the type \<open>'a res\<close>: a value, or \<open>Panic\<close> with the
  message, \<open>Blocked\<close> (it waits for another process), \<open>Fault\<close> (an access outside an array or through a null pointer), \<open>OutOfFuel\<close>.
  Pointers into tables are indices, null is \<open>None\<close>; addresses are 64-bit words, and the null page is 0. An \<open>int\<close>
  whose overflow matters is reduced by \<open>c_int\<close>. A call runs to its end unless the code gives up the CPU; locks appear where the code
  depends on who holds them. Constants of headers outside the repository are records (\<open>riscv_h\<close>, \<open>virtio_h\<close>, \<open>virtio_cfg\<close>,
  \<open>sys_h\<close>, \<open>trap_h\<close>), and what the code relies on is a locale.


  \<^bold>\<open>Storage.\<close>

  \<^item> \<open>Disk_Queue\<close> (\<open>bio.c\<close>: \<open>enqueue_disk_request_locked\<close>, \<open>dequeue_disk_request_locked\<close>, the policy switch and
    the statistics). The linked list in the pool is a list of requests; both policies remove the request they should.
  \<^item> \<open>Buffer_Cache\<close> (\<open>bio.c\<close>: \<open>binit\<close> to \<open>bunpin\<close>, \<open>run_disk_dispatcher\<close>). The LRU ring is a list of buffers. Over a driver that
    keeps the contract \<open>block_driver\<close>, the cache is an array of blocks.
  \<^item> \<open>Raid_Swap\<close>, \<open>Swap_Area\<close> (\<open>virtio_disk.c\<close>: \<open>raid1_map\<close>, \<open>raid5_map\<close>, \<open>swap_disk_read\<close>, \<open>swap_disk_write\<close>). The layouts are injective;
    a block of a failed disk is reconstructed from the others; the swap area keeps the contract \<open>swap_device\<close>.
  \<^item> \<open>Virtio_Disk\<close>, \<open>Virtio_Init\<close> (\<open>virtio_disk.c\<close>: \<open>alloc_desc\<close> to \<open>virtio_disk_intr\<close>, \<open>virtio_disk_init\<close>). The device is an argument with
    the contract \<open>virtio_device\<close>; the driver then transfers blocks.
  \<^item> \<open>Swap_Stack\<close> composes them: a device with its contract gives a swap area with its contract.


  \<^bold>\<open>Memory.\<close>

  \<^item> \<open>Phys_Mem\<close>, \<open>Kalloc\<close> (\<open>kalloc.c\<close>: \<open>kfree\<close>, \<open>freerange\<close>, \<open>kalloc\<close>). Memory is pages of bytes; the free list is threaded through them.
  \<^item> \<open>Page_Table\<close> (\<open>vm.c\<close>: \<open>walk\<close> to \<open>freewalk\<close>). Each page has one role: free, a page of the kernel, a table or a frame at one place of
    one address space. Under this invariant, \<open>mem_ok\<close>, an address space is a function from addresses to entries.
  \<^item> \<open>Frame_Table\<close> (\<open>kalloc.c\<close>: \<open>register_user_frame\<close>, \<open>select_victim_frame\<close>, the swap map). The clock finds a victim of the lowest priority.
  \<^item> \<open>Paging\<close> (\<open>kalloc.c\<close>: \<open>evict_one_user_frame\<close>, \<open>kalloc_user\<close>, \<open>free_user_frame\<close>). \<open>upage\<close> is the page a process sees at an address,
    in memory or in the swap area. Eviction keeps the invariant \<open>vm_ok\<close> and every \<open>upage\<close>.
  \<^item> \<open>Vm\<close> (\<open>vm.c\<close>: \<open>uvmunmap\<close> to \<open>uvmcopy\<close>, \<open>vmfault\<close>). A fault makes a page resident and changes no byte of any process.
  \<^item> \<open>User_Copy\<close> (\<open>vm.c\<close>: \<open>copyin\<close>, \<open>copyout\<close>, \<open>copyinstr\<close>), in terms of the bytes a process has at its addresses.
  \<^item> \<open>Address_Space\<close>: \<open>uvmunmap\<close> and \<open>uvmcopy\<close> change the entries of the addresses they are given and nothing else; a page that cannot
    be mapped is given back.
  \<^item> \<open>Paged_Stack\<close> interprets paging on the machine of \<open>riscv_std\<close> and on the swap area of \<open>Swap_Stack\<close>.


  \<^bold>\<open>Processes.\<close>

  \<^item> \<open>Proc_Table\<close> (\<open>proc.c\<close>: what needs no memory: \<open>scheduler\<close>, \<open>sleep\<close>, \<open>wakeup\<close>, \<open>yield\<close>, \<open>kexit\<close>, \<open>kkill\<close>).
  \<^item> \<open>Mlfq\<close> (\<open>trap.c\<close>: \<open>clockintr\<close>): steps of all CPUs in any order, and the invariant of the reachable states.
  \<^item> \<open>Process\<close> (\<open>proc.c\<close>: \<open>allocproc\<close>, \<open>freeproc\<close>, \<open>growproc\<close>, \<open>kfork\<close>, \<open>kwait\<close>), over the trapframe as a page of memory.
  \<^item> \<open>Fork\<close>: \<open>allocproc\<close> makes an empty address space, \<open>kfork\<close> a copy of the parent's, pages in the swap area included.
  \<^item> \<open>Syscalls\<close> (\<open>syscall.c\<close>, \<open>sysproc.c\<close>): the dispatcher and the handlers.
  \<^item> \<open>Syscall_Effects\<close>: \<open>sbrk\<close> keeps the process in \<open>user_space\<close>, frames below its size and nothing up to its trapframe, through
    \<open>growproc\<close>, \<open>uvmalloc\<close> and \<open>uvmdealloc\<close>; unknown numbers; the time that \<open>sleep\<close> waits.
  \<^item> \<open>Trap\<close> (\<open>trap.c\<close>): a page fault of a user program is served or ends the process.
  \<^item> \<open>Ulib\<close> (\<open>user/ulib.c\<close>).


  \<^bold>\<open>Fuel.\<close> A loop over addresses gets as fuel one more than the number of its rounds, computed from its bounds; the lemmas on these loops
  give a value, so the fuel is never used up. The dispatcher's fuel is the length of the queue plus one. Loops of \<open>ulib.c\<close> over
  strings are partial functions, and the lemmas show that they return.


  \<^bold>\<open>Not modelled.\<close> \<open>kvmmake\<close>, \<open>kvminit\<close>, \<open>kvminithart\<close> and \<open>proc_mapstacks\<close> build the kernel's own address space from linker symbols and device
  addresses. \<open>forkret\<close> ends in assembly and runs the file system and \<open>exec\<close>. \<open>procdump\<close> prints. The context switch itself, the
  spinlocks and the trampoline are not in the repository; neither is the file system, so open files have no counterpart. The test programs
  under \<open>user/\<close> only print. Calls that give up the CPU in the middle (a disk request, a page fault during a copy) are sequential here; the
  steps in \<open>Mlfq\<close> and one property in \<open>Frame_Table\<close> are about interleavings.
\<close>

end
